(* ===== verification/Quic_Prelude.thy ===== *)
theory Quic_Prelude
  imports Main "HOL-Library.Word"
begin

text \<open>
  Shared vocabulary of the development: the machine types of the sources, the faults a C++
  operation can end in, the two associative containers of the standard library the sources use
  (\<^verbatim>\<open>std::map\<close> as a key-ordered association list, \<^verbatim>\<open>std::unordered_map\<close> as an association
  list with distinct keys), the interface both promise as a locale, and list and word lemmas.
\<close>

section \<open>Machine types and faults\<close>

type_synonym byte = "8 word"
type_synonym bytes = "8 word list"
type_synonym u16 = "16 word"
type_synonym u32 = "32 word"
type_synonym u64 = "64 word"

text \<open>
  What can happen instead of a normal return: a failing \<^verbatim>\<open>assert\<close>, an operation the C++ standard
  leaves undefined, or an exception that leaves the function.
\<close>

datatype fault =
    Assertion_failed
  | Front_of_empty_deque
  | Deref_of_end_iterator
  | Use_of_erased_iterator
  | Use_of_destroyed_object
  | Null_dereference
  | Uninitialised_pointer
  | Index_out_of_bounds
  | Division_by_zero
  | Out_of_range
  | Invalid_argument
  | Logic_error
  | Runtime_error
  | System_error int
  | Process_abort
  | Call_of_wrong_function

type_synonym 'a result = "fault + 'a"

text \<open>Sequencing of operations that may end in a fault: the first fault wins.\<close>

definition and_then :: "'a result \<Rightarrow> ('a \<Rightarrow> 'b result) \<Rightarrow> 'b result" where
  "and_then r f = (case r of Inl e \<Rightarrow> Inl e | Inr x \<Rightarrow> f x)"

lemma and_then_simps [simp]:
  "and_then (Inl e) f = Inl e"
  "and_then (Inr x) f = f x"
  by (simp_all add: and_then_def)

lemma and_then_InrE:
  assumes "and_then r f = Inr y"
  obtains x where "r = Inr x" and "f x = Inr y"
  using assms by (cases r) auto

text \<open>Sequencing of operations that may wait for the kernel and may end in a fault.\<close>

definition obind :: "'a result option \<Rightarrow> ('a \<Rightarrow> 'b result option) \<Rightarrow> 'b result option" where
  "obind r f = (case r of None \<Rightarrow> None | Some (Inl e) \<Rightarrow> Some (Inl e) | Some (Inr x) \<Rightarrow> f x)"

lemma obind_simps [simp]:
  "obind None f = None" "obind (Some (Inl e)) f = Some (Inl e)" "obind (Some (Inr x)) f = f x"
  by (simp_all add: obind_def)

lemma obind_InrE:
  assumes "obind r f = Some (Inr y)"
  obtains x where "r = Some (Inr x)" and "f x = Some (Inr y)"
  using assms by (auto simp: obind_def split: option.splits sum.splits)


section \<open>Associative containers\<close>

text \<open>
  \<open>map_of\<close> is \<^verbatim>\<open>find\<close> on both containers. \<^verbatim>\<open>std::map\<close> keeps its entries in key order: \<open>omap_put\<close>
  is \<^verbatim>\<open>m[k] = v\<close>, \<open>omap_emplace\<close> is \<^verbatim>\<open>m.emplace(k, v)\<close>, which leaves an existing entry alone and
  reports whether it inserted, \<open>assoc_erase\<close> is \<^verbatim>\<open>erase\<close>.
\<close>

fun omap_put :: "'k::linorder \<Rightarrow> 'v \<Rightarrow> ('k \<times> 'v) list \<Rightarrow> ('k \<times> 'v) list" where
  "omap_put k v [] = [(k, v)]"
| "omap_put k v ((k', v') # m) =
     (if k < k' then (k, v) # (k', v') # m
      else if k = k' then (k, v) # m
      else (k', v') # omap_put k v m)"

definition omap_emplace :: "'k::linorder \<Rightarrow> 'v \<Rightarrow> ('k \<times> 'v) list \<Rightarrow> ('k \<times> 'v) list \<times> bool" where
  "omap_emplace k v m =
     (case map_of m k of Some _ \<Rightarrow> (m, False) | None \<Rightarrow> (omap_put k v m, True))"

definition assoc_erase :: "'k \<Rightarrow> ('k \<times> 'v) list \<Rightarrow> ('k \<times> 'v) list" where
  "assoc_erase k m = filter (\<lambda>e. fst e \<noteq> k) m"

definition omap_wf :: "('k::linorder \<times> 'v) list \<Rightarrow> bool" where
  "omap_wf m \<longleftrightarrow> sorted_wrt (<) (map fst m)"

text \<open>
  \<^verbatim>\<open>std::unordered_map\<close> promises no iteration order; the list order of the model stands for
  whatever order an implementation iterates in.
\<close>

fun umap_put :: "'k \<Rightarrow> 'v \<Rightarrow> ('k \<times> 'v) list \<Rightarrow> ('k \<times> 'v) list" where
  "umap_put k v [] = [(k, v)]"
| "umap_put k v ((k', v') # m) =
     (if k = k' then (k, v) # m else (k', v') # umap_put k v m)"

definition umap_emplace :: "'k \<Rightarrow> 'v \<Rightarrow> ('k \<times> 'v) list \<Rightarrow> ('k \<times> 'v) list \<times> bool" where
  "umap_emplace k v m =
     (case map_of m k of Some _ \<Rightarrow> (m, False) | None \<Rightarrow> (umap_put k v m, True))"

definition umap_wf :: "('k \<times> 'v) list \<Rightarrow> bool" where
  "umap_wf m \<longleftrightarrow> distinct (map fst m)"

subsection \<open>The container interface\<close>

text \<open>
  What the clients of either container rely on: a lookup after an update or an erase, the entries
  an iteration visits, and the well-formedness every operation keeps.
\<close>

locale assoc_container =
  fixes put :: "'k \<Rightarrow> 'v \<Rightarrow> ('k \<times> 'v) list \<Rightarrow> ('k \<times> 'v) list"
    and wf :: "('k \<times> 'v) list \<Rightarrow> bool"
  assumes wf_Nil: "wf []"
    and wf_put: "wf m \<Longrightarrow> wf (put k v m)"
    and wf_erase: "wf m \<Longrightarrow> wf (assoc_erase k m)"
    and wf_distinct: "wf m \<Longrightarrow> distinct (map fst m)"
    and set_put: "wf m \<Longrightarrow> set (put k v m) = insert (k, v) {e \<in> set m. fst e \<noteq> k}"
begin

lemma find_iff: "wf m \<Longrightarrow> map_of m k = Some v \<longleftrightarrow> (k, v) \<in> set m"
  by (simp add: wf_distinct)

lemma find_put: "wf m \<Longrightarrow> map_of (put k v m) = (map_of m)(k \<mapsto> v)"
proof
  fix x assume m: "wf m"
  show "map_of (put k v m) x = ((map_of m)(k \<mapsto> v)) x"
  proof (cases "x = k")
    case True
    with m show ?thesis by (simp add: find_iff wf_put set_put)
  next
    case False
    have "map_of (put k v m) x = Some w \<longleftrightarrow> map_of m x = Some w" for w
      using m False by (auto simp: find_iff wf_put set_put)
    with False show ?thesis by (cases "map_of m x"; cases "map_of (put k v m) x") auto
  qed
qed

lemma find_erase: "map_of (assoc_erase k m) = (map_of m)(k := None)"
  unfolding assoc_erase_def by (induction m) auto

lemma keys_put: "wf m \<Longrightarrow> fst ` set (put k v m) = insert k (fst ` set m)"
  by (simp add: set_put) force

lemma keys_erase: "fst ` set (assoc_erase k m) = fst ` set m - {k}"
  by (auto simp: assoc_erase_def image_iff)

lemma length_put: "wf m \<Longrightarrow> map_of m k = None \<Longrightarrow> length (put k v m) = Suc (length m)"
proof -
  assume m: "wf m" and k: "map_of m k = None"
  from k have notin: "k \<notin> fst ` set m" by (simp add: map_of_eq_None_iff)
  have "length (put k v m) = card (fst ` set (put k v m))"
    using wf_distinct [OF wf_put [OF m]] distinct_card [of "map fst (put k v m)"] by simp
  also have "\<dots> = Suc (card (fst ` set m))"
    using m notin by (simp add: keys_put)
  also have "\<dots> = Suc (length m)"
    using wf_distinct [OF m] distinct_card [of "map fst m"] by simp
  finally show ?thesis .
qed

end

lemma set_omap_put:
  "omap_wf m \<Longrightarrow> set (omap_put k v m) = insert (k, v) {e \<in> set m. fst e \<noteq> k}"
  by (induction k v m rule: omap_put.induct) (auto simp: omap_wf_def)

lemma omap_wf_put: "omap_wf m \<Longrightarrow> omap_wf (omap_put k v m)"
proof (induction k v m rule: omap_put.induct)
  case (2 k v k' v' m)
  then have m: "omap_wf m" and above: "\<forall>e \<in> set m. k' < fst e"
    by (auto simp: omap_wf_def)
  show ?case
  proof (cases "k' < k")
    case True
    with 2 m have "omap_wf (omap_put k v m)" by auto
    moreover from True above have "\<forall>e \<in> set (omap_put k v m). k' < fst e"
      using set_omap_put [OF m] by auto
    ultimately show ?thesis using True by (auto simp: omap_wf_def)
  next
    case False
    with 2 show ?thesis by (auto simp: omap_wf_def)
  qed
qed (simp add: omap_wf_def)

lemma omap_wf_erase: "omap_wf m \<Longrightarrow> omap_wf (assoc_erase k m)"
  by (induction m) (auto simp: omap_wf_def assoc_erase_def)

lemma set_umap_put:
  "umap_wf m \<Longrightarrow> set (umap_put k v m) = insert (k, v) {e \<in> set m. fst e \<noteq> k}"
  by (induction k v m rule: umap_put.induct) (force simp: umap_wf_def)+

lemma umap_wf_put: "umap_wf m \<Longrightarrow> umap_wf (umap_put k v m)"
proof (induction k v m rule: umap_put.induct)
  case (2 k v k' v' m)
  then have m: "umap_wf m" by (simp add: umap_wf_def)
  from 2 show ?case using set_umap_put [OF m, of k v] by (auto simp: umap_wf_def)
qed (simp add: umap_wf_def)

lemma umap_wf_erase: "umap_wf m \<Longrightarrow> umap_wf (assoc_erase k m)"
  by (simp add: umap_wf_def assoc_erase_def distinct_map_filter)

interpretation om: assoc_container omap_put omap_wf
proof unfold_locales
  show "omap_wf m \<Longrightarrow> distinct (map fst m)" for m :: "('k::linorder \<times> 'v) list"
    unfolding omap_wf_def using strict_sorted_iff by blast
qed (simp_all add: omap_wf_put omap_wf_erase set_omap_put, simp add: omap_wf_def)

interpretation um: assoc_container umap_put umap_wf
  by unfold_locales (simp_all add: umap_wf_put umap_wf_erase set_umap_put, simp_all add: umap_wf_def)

lemma omap_emplace_new [simp]: "map_of m k = None \<Longrightarrow> omap_emplace k v m = (omap_put k v m, True)"
  and omap_emplace_old [simp]: "map_of m k = Some w \<Longrightarrow> omap_emplace k v m = (m, False)"
  by (simp_all add: omap_emplace_def)

lemma umap_emplace_new [simp]: "map_of m k = None \<Longrightarrow> umap_emplace k v m = (umap_put k v m, True)"
  and umap_emplace_old [simp]: "map_of m k = Some w \<Longrightarrow> umap_emplace k v m = (m, False)"
  by (simp_all add: umap_emplace_def)

section \<open>Words of 64 bits and list sizes\<close>

lemma unat_of_nat_u64: "n < 2 ^ 64 \<Longrightarrow> unat (of_nat n :: u64) = n"
  by (simp add: unat_of_nat take_bit_nat_eq_self)

lemma of_nat_le_u64: "n < 2 ^ 64 \<Longrightarrow> (of_nat n :: u64) \<le> w \<longleftrightarrow> n \<le> unat w"
  by (simp add: word_le_nat_alt unat_of_nat_u64)

lemma unat_minus_of_nat_u64:
  "n \<le> unat (w :: u64) \<Longrightarrow> unat (w - of_nat n) = unat w - n"
  by (metis le_unat_uoi unat_sub word_le_nat_alt)

lemma of_nat_eq_0_u64: "n < 2 ^ 64 \<Longrightarrow> (of_nat n :: u64) = 0 \<longleftrightarrow> n = 0"
  by (metis unat_of_nat_u64 unat_eq_zero word_of_nat_eq_0_iff of_nat_0)


lemma unat_u64_less: "unat (w :: u64) < 2 ^ 64"
  by (rule order.strict_trans2 [OF unsigned_less]) simp


lemma of_nat_u64_unat: "of_nat (unat w) = (w :: u64)"
  by simp

end
