(* ===== verification/Quic_Utils.thy ===== *)
theory Quic_Utils
  imports Quic_Prelude
begin

unbundle bit_operations_syntax

text \<open>
  The value types of \<^verbatim>\<open>include/quic/utils.hpp\<close> and \<^verbatim>\<open>src/utils.cpp\<close>: size literals and limits,
  \<^verbatim>\<open>ConnectionID\<close> and \<^verbatim>\<open>Address\<close> with their equality and their \<^verbatim>\<open>std::hash\<close> specialisations,
  \<^verbatim>\<open>Path\<close> and \<^verbatim>\<open>io_result\<close>.  \<^verbatim>\<open>inet_pton\<close>, \<^verbatim>\<open>inet_ntop\<close>, the random generator and the hash
  functions of the standard library are parameters.
\<close>

section \<open>Literals and limits\<close>

definition lit_k :: "u64 \<Rightarrow> u64" where "lit_k x = x * 1000"
definition lit_M :: "u64 \<Rightarrow> u64" where "lit_M x = x * 1000 * lit_k 1"
definition lit_G :: "u64 \<Rightarrow> u64" where "lit_G x = x * 1000 * lit_M 1"
definition lit_T :: "u64 \<Rightarrow> u64" where "lit_T x = x * 1000 * lit_G 1"
definition lit_ki :: "u64 \<Rightarrow> u64" where "lit_ki x = x * 1024"
definition lit_Mi :: "u64 \<Rightarrow> u64" where "lit_Mi x = x * 1024 * lit_ki 1"
definition lit_Gi :: "u64 \<Rightarrow> u64" where "lit_Gi x = x * 1024 * lit_Mi 1"
definition lit_Ti :: "u64 \<Rightarrow> u64" where "lit_Ti x = x * 1024 * lit_Gi 1"

definition DEFAULT_MAX_BIDI_STREAMS :: u64 where "DEFAULT_MAX_BIDI_STREAMS = 32"
definition DATAGRAM_BATCH_SIZE :: nat where "DATAGRAM_BATCH_SIZE = 24"
definition MAX_RECEIVE_PER_LOOP :: nat where "MAX_RECEIVE_PER_LOOP = 64"
definition STREAM_ERROR_EXCEPTION :: u64 where "STREAM_ERROR_EXCEPTION = push_bit 62 1 - 2"
definition STREAM_ERROR_CONNECTION_EXPIRED :: u64 where
  "STREAM_ERROR_CONNECTION_EXPIRED = push_bit 62 1 + 1"

text \<open>The limits ngtcp2 documents: 20 byte connection IDs, PMTUD payloads of at most 1452 bytes.\<close>

definition NGTCP2_MAX_CIDLEN :: nat where "NGTCP2_MAX_CIDLEN = 20"
definition NGTCP2_MAX_PMTUD_UDP_PAYLOAD_SIZE :: nat where
  "NGTCP2_MAX_PMTUD_UDP_PAYLOAD_SIZE = 1452"
definition max_payload_size :: nat where
  "max_payload_size = NGTCP2_MAX_PMTUD_UDP_PAYLOAD_SIZE"

lemma binary_literal_value:
  "unat x < 2 ^ 44 \<Longrightarrow> unat (lit_Mi x) = unat x * 1048576"
proof -
  assume "unat x < 2 ^ 44"
  then have "unat x * 1048576 < 2 ^ 64" by simp
  moreover have "lit_Mi x = x * 1048576" by (simp add: lit_Mi_def lit_ki_def)
  ultimately show ?thesis by (simp add: unat_word_ariths)
qed

section \<open>Connection IDs\<close>

datatype direction = OUTBOUND | INBOUND

record connection_id =
  cid_datalen :: nat
  cid_data :: bytes

text \<open>
  \<open>junk\<close> is what the uninitialised \<^verbatim>\<open>data\<close> array held; only its first \<open>len\<close> bytes are replaced.
\<close>

definition cid_make :: "bytes \<Rightarrow> bytes \<Rightarrow> nat \<Rightarrow> connection_id result" where
  "cid_make junk src len =
     (if len \<le> NGTCP2_MAX_CIDLEN
      then Inr \<lparr>cid_datalen = len, cid_data = take len src @ drop len junk\<rparr>
      else Inl Assertion_failed)"

definition cid_eq :: "connection_id \<Rightarrow> connection_id \<Rightarrow> bool" where
  "cid_eq a b \<longleftrightarrow> cid_datalen a = cid_datalen b \<and>
     take (cid_datalen a) (cid_data a) = take (cid_datalen a) (cid_data b)"

definition cid_random :: "bytes \<Rightarrow> connection_id" where
  "cid_random rnd = \<lparr>cid_datalen = NGTCP2_MAX_CIDLEN, cid_data = rnd\<rparr>"

definition hex_digit :: "nat \<Rightarrow> char" where
  "hex_digit n = (if n < 10 then char_of (48 + n) else char_of (87 + n))"

definition hex_byte :: "byte \<Rightarrow> string" where
  "hex_byte b = [hex_digit (unat b div 16), hex_digit (unat b mod 16)]"

definition cid_to_string :: "connection_id \<Rightarrow> string" where
  "cid_to_string c = concat (map hex_byte (take (cid_datalen c) (cid_data c)))"

text \<open>The hash reads the first eight bytes of the array as a little-endian \<^verbatim>\<open>size_t\<close>.\<close>

definition cid_hash :: "connection_id \<Rightarrow> u64" where
  "cid_hash c = word_of_int (horner_sum uint 256 (take 8 (cid_data c)))"

section \<open>Addresses\<close>

definition AF_INET :: nat where "AF_INET = 2"
definition AF_INET6 :: nat where "AF_INET6 = 10"
definition sizeof_sockaddr_in :: nat where "sizeof_sockaddr_in = 16"
definition sizeof_sockaddr_in6 :: nat where "sizeof_sockaddr_in6 = 28"

text \<open>
  The fields of \<^verbatim>\<open>sockaddr_storage\<close> the code reads through \<^verbatim>\<open>sockaddr_in\<close> and \<^verbatim>\<open>sockaddr_in6\<close>: both
  have the port (two bytes in network order) in the same place, the IPv4 address and the IPv6
  address do not overlap.
\<close>

record address =
  ss_family :: nat
  sin_port :: bytes
  sin_addr :: bytes
  sin6_addr :: bytes
  addrlen :: nat

definition zero_sockaddr :: address where
  "zero_sockaddr = \<lparr>ss_family = 0, sin_port = [0, 0], sin_addr = replicate 4 0,
     sin6_addr = replicate 16 0, addrlen = 0\<rparr>"

definition host_to_big :: "u16 \<Rightarrow> bytes" where
  "host_to_big p = [ucast (drop_bit 8 p), ucast p]"

definition big_to_host :: "bytes \<Rightarrow> u16" where
  "big_to_host bs = (case bs of [h, l] \<Rightarrow> push_bit 8 (ucast h) OR ucast l | _ \<Rightarrow> 0)"

definition address_default :: address where
  "address_default = zero_sockaddr\<lparr>ss_family := AF_INET6, addrlen := sizeof_sockaddr_in6\<rparr>"

definition is_ipv4 :: "address \<Rightarrow> bool" where
  "is_ipv4 a \<longleftrightarrow> addrlen a = sizeof_sockaddr_in \<and> ss_family a = AF_INET"

definition is_ipv6 :: "address \<Rightarrow> bool" where
  "is_ipv6 a \<longleftrightarrow> addrlen a = sizeof_sockaddr_in6 \<and> ss_family a = AF_INET6"

definition address_port :: "address \<Rightarrow> u16 result" where
  "address_port a =
     (if is_ipv4 a \<or> is_ipv6 a then Inr (big_to_host (sin_port a)) else Inl Assertion_failed)"

definition address_eq :: "address \<Rightarrow> address \<Rightarrow> bool" where
  "address_eq a b =
     (if is_ipv4 a \<and> is_ipv4 b then sin_port a = sin_port b \<and> sin_addr a = sin_addr b
      else if is_ipv6 a \<and> is_ipv6 b then sin_port a = sin_port b \<and> sin6_addr a = sin6_addr b
      else False)"

text \<open>
  \<open>pton fam s\<close> is \<^verbatim>\<open>inet_pton\<close>: its return value and the address bytes it stores.  The code's
  \<^verbatim>\<open>if (rv < 0)\<close> constructs an exception object and drops it, so nothing is raised there.
\<close>

definition address_of_string :: "(nat \<Rightarrow> string \<Rightarrow> int \<times> bytes) \<Rightarrow> string \<Rightarrow> u16 \<Rightarrow> address result" where
  "address_of_string pton addr p =
     (let a0 = (if addr = [] then zero_sockaddr\<lparr>sin_port := host_to_big p\<rparr> else zero_sockaddr);
          (a, rv) =
            (if CHR '':'' \<in> set addr
             then (let (rv, bs) = pton AF_INET6 addr
                   in (a0\<lparr>ss_family := AF_INET6, sin_port := host_to_big p,
                          addrlen := sizeof_sockaddr_in6,
                          sin6_addr := (if rv = 1 then bs else sin6_addr a0)\<rparr>, rv))
             else (let (rv, bs) = pton AF_INET addr
                   in (a0\<lparr>ss_family := AF_INET, sin_port := host_to_big p,
                          addrlen := sizeof_sockaddr_in,
                          sin_addr := (if rv = 1 then bs else sin_addr a0)\<rparr>, rv)))
      in if rv = 0 then Inl Invalid_argument else Inr a)"

text \<open>\<^verbatim>\<open>opt::local_addr{port}\<close>: any address, the given port.\<close>

definition local_addr_of_port :: "(nat \<Rightarrow> string \<Rightarrow> int \<times> bytes) \<Rightarrow> u16 \<Rightarrow> address result" where
  "local_addr_of_port pton p = address_of_string pton '''' p"

definition inverse_golden_ratio :: u64 where "inverse_golden_ratio = 0x9e3779b97f4a7c15"

definition address_hash :: "(bytes \<Rightarrow> u64) \<Rightarrow> (bytes \<Rightarrow> u64) \<Rightarrow> address \<Rightarrow> u64 result" where
  "address_hash hash_sv hash_port a =
     (if is_ipv4 a \<or> is_ipv6 a
      then let h = hash_sv (if is_ipv4 a then sin_addr a else sin6_addr a)
           in Inr (h XOR (hash_port (sin_port a) + inverse_golden_ratio + push_bit 6 h + drop_bit 2 h))
      else Inl Assertion_failed)"

record path =
  path_local :: address
  path_remote :: address

section \<open>Return codes and io results\<close>

text \<open>
  The ngtcp2 return codes the sources distinguish; every other negative code is \<open>NG_OTHER\<close>.  ngtcp2
  documents the codes as pairwise distinct negative numbers, with 0 for success.
\<close>

datatype ng_rv =
    NG_OK
  | NG_WRITE_MORE
  | NG_CLOSING
  | NG_STREAM_SHUT_WR
  | NG_STREAM_DATA_BLOCKED
  | NG_DRAINING
  | NG_PROTO
  | NG_DROP_CONN
  | NG_CRYPTO
  | NG_IDLE_CLOSE
  | NG_HANDSHAKE_TIMEOUT
  | NG_VERSION_NEGOTIATION
  | NG_CALLBACK_FAILURE
  | NG_OTHER int

definition EINTR :: int where "EINTR = 4"
definition EBADF :: int where "EBADF = 9"
definition EAGAIN :: int where "EAGAIN = 11"
definition EWOULDBLOCK :: int where "EWOULDBLOCK = 11"
definition WSAEWOULDBLOCK :: int where "WSAEWOULDBLOCK = 10035"

text \<open>The flags \<^verbatim>\<open>is_ngtcp2\<close> and, in the Windows build, \<^verbatim>\<open>is_wsa\<close> of \<^verbatim>\<open>io_result\<close> are the constructors.\<close>

datatype io_result = Io_errno int | Io_ngtcp2 ng_rv | Io_wsa int

fun io_success :: "io_result \<Rightarrow> bool" where
  "io_success (Io_errno e) = (e = 0)"
| "io_success (Io_ngtcp2 rv) = (rv = NG_OK)"
| "io_success (Io_wsa e) = (e = 0)"

definition io_failure :: "io_result \<Rightarrow> bool" where
  "io_failure r \<longleftrightarrow> \<not> io_success r"

fun io_blocked :: "io_result \<Rightarrow> bool" where
  "io_blocked (Io_errno e) = (e = EAGAIN \<or> e = EWOULDBLOCK)"
| "io_blocked (Io_ngtcp2 rv) = (rv = NG_STREAM_DATA_BLOCKED)"
| "io_blocked (Io_wsa e) = (e = WSAEWOULDBLOCK)"

lemmas utils_consts = DATAGRAM_BATCH_SIZE_def MAX_RECEIVE_PER_LOOP_def NGTCP2_MAX_CIDLEN_def
  NGTCP2_MAX_PMTUD_UDP_PAYLOAD_SIZE_def max_payload_size_def AF_INET_def AF_INET6_def
  sizeof_sockaddr_in_def sizeof_sockaddr_in6_def EINTR_def EBADF_def EAGAIN_def EWOULDBLOCK_def WSAEWOULDBLOCK_def

section \<open>Properties\<close>

lemma blocked_is_failure [simp]: "io_blocked r \<Longrightarrow> io_failure r"
  by (cases r) (auto simp: io_failure_def utils_consts)

lemma not_both_families: "is_ipv4 a \<Longrightarrow> \<not> is_ipv6 a"
  by (simp add: is_ipv4_def is_ipv6_def utils_consts)

lemma big_to_host_host_to_big [simp]: "big_to_host (host_to_big p) = p"
  unfolding big_to_host_def host_to_big_def
  by (simp, intro bit_word_eqI) (auto simp: bit_simps)


lemma address_eq_refl: "is_ipv4 a \<or> is_ipv6 a \<Longrightarrow> address_eq a a"
  by (auto simp: address_eq_def)

lemma address_eq_sym: "address_eq a b \<Longrightarrow> address_eq b a"
  by (auto simp: address_eq_def split: if_splits)

lemma address_eq_trans: "address_eq a b \<Longrightarrow> address_eq b c \<Longrightarrow> address_eq a c"
  by (auto simp: address_eq_def not_both_families split: if_splits)

text \<open>
  The hash of \<^verbatim>\<open>Address\<close> agrees with its equality, as \<^verbatim>\<open>std::unordered_map<Address, ...>\<close> (the
  endpoint table of \<^verbatim>\<open>Network\<close>) requires: addresses that compare equal are both hashable (no
  assertion fails) and have the same hash, whatever the library's string and port hashes are.
\<close>

theorem address_eq_hash:
  assumes "address_eq a b"
  shows "address_hash hs hp a = address_hash hs hp b \<and> (\<exists>h. address_hash hs hp a = Inr h)"
  using assms by (auto simp: address_eq_def address_hash_def Let_def not_both_families split: if_splits)

theorem address_eq_hash_witness:
  "address_hash (\<lambda>_. 1) (\<lambda>_. 2) address_default = address_hash (\<lambda>_. 1) (\<lambda>_. 2) address_default
   \<and> (\<exists>h. address_hash (\<lambda>_. 1) (\<lambda>_. 2) address_default = Inr h)"
proof -
  have h: "address_eq address_default address_default"
    by (simp add: address_eq_def address_default_def is_ipv4_def is_ipv6_def utils_consts)
  show ?thesis by (rule address_eq_hash [OF h])
qed

lemma take_8_of_prefix: "8 \<le> n \<Longrightarrow> take n xs = take n ys \<Longrightarrow> take 8 xs = take 8 ys"
  by (drule arg_cong [where f = "take 8"]) (simp add: min_absorb1)

text \<open>
  Connection IDs of at least eight bytes (every ID the library generates has twenty) that
  compare equal have equal hashes, whatever lies behind their used bytes.
\<close>

theorem cid_eq_hash:
  assumes "cid_eq a b" and "8 \<le> cid_datalen a"
  shows "cid_hash a = cid_hash b"
  using assms take_8_of_prefix [of "cid_datalen a" "cid_data a" "cid_data b"]
  by (auto simp: cid_eq_def cid_hash_def)

definition sample_cid :: "byte \<Rightarrow> connection_id" where
  "sample_cid b = \<lparr>cid_datalen = 8, cid_data = replicate 8 7 @ replicate 12 b\<rparr>"

theorem cid_eq_hash_witness: "cid_hash (sample_cid 0) = cid_hash (sample_cid 1)"
proof (rule cid_eq_hash)
  show "cid_eq (sample_cid 0) (sample_cid 1)" by (simp add: cid_eq_def sample_cid_def)
  show "8 \<le> cid_datalen (sample_cid 0)" by (simp add: sample_cid_def)
qed

text \<open>
  For connection IDs shorter than eight bytes the hash reads bytes the constructor never wrote:
  the same four ID bytes, copied into two arrays with different old contents, give IDs that are
  equal but hash differently.
\<close>

theorem cid_short_hash_differs:
  "\<exists>a b. cid_make (replicate 20 0) [1, 2, 3, 4] 4 = Inr a \<and>
         cid_make (replicate 20 1) [1, 2, 3, 4] 4 = Inr b \<and>
         cid_eq a b \<and> cid_hash a \<noteq> cid_hash b"
proof -
  let ?a = "\<lparr>cid_datalen = 4, cid_data = [1, 2, 3, 4] @ replicate 16 0\<rparr>"
  let ?b = "\<lparr>cid_datalen = 4, cid_data = [1, 2, 3, 4] @ replicate 16 1\<rparr>"
  have "cid_make (replicate 20 0) [1, 2, 3, 4] 4 = Inr ?a"
    and "cid_make (replicate 20 1) [1, 2, 3, 4] 4 = Inr ?b"
    and "cid_eq ?a ?b"
    by (simp_all add: cid_make_def cid_eq_def utils_consts)
  moreover have "cid_hash ?a \<noteq> cid_hash ?b" by code_simp
  ultimately show ?thesis by blast
qed

text \<open>
  An address built from a string that \<^verbatim>\<open>inet_pton\<close> accepts is of exactly one family and reports
  the port it was given, through the network-order field and back.
\<close>

theorem address_of_string_port:
  assumes "address_of_string pton s p = Inr a"
  shows "address_port a = Inr p \<and> is_ipv6 a = (CHR '':'' \<in> set s) \<and> is_ipv4 a = (CHR '':'' \<notin> set s)"
  using assms
  by (auto simp: address_of_string_def address_port_def is_ipv4_def is_ipv6_def utils_consts Let_def
      split: if_splits prod.splits)

theorem address_of_string_port_witness:
  "\<exists>a. address_of_string (\<lambda>f s. (1, [127, 0, 0, 1])) ''127.0.0.1'' 5500 = Inr a \<and>
       address_port a = Inr 5500"
proof -
  let ?r = "address_of_string (\<lambda>f s. (1, [127, 0, 0, 1])) ''127.0.0.1'' 5500"
  obtain a where a: "?r = Inr a"
    by (simp add: address_of_string_def Let_def)
  from address_of_string_port [OF a] a show ?thesis by blast
qed

text \<open>
  \<^verbatim>\<open>opt::local_addr{port}\<close> never yields an address: the empty host name leaves the branch that
  should keep the all-zero IPv6 address and is handed to \<^verbatim>\<open>inet_pton(AF_INET, "")\<close>, which rejects
  it, so the constructor raises \<^verbatim>\<open>invalid_argument\<close> for every port.
\<close>

theorem local_addr_of_port_throws:
  assumes "fst (pton AF_INET '''') = 0"
  shows "local_addr_of_port pton p = Inl Invalid_argument"
  using assms
  by (auto simp: local_addr_of_port_def address_of_string_def Let_def split: prod.splits)

theorem local_addr_of_port_throws_witness:
  "local_addr_of_port (\<lambda>f s. if s = '''' then (0, []) else (1, [0, 0, 0, 0])) 4400 = Inl Invalid_argument"
  by (rule local_addr_of_port_throws) simp

end
