(* ===== verification/Quic_Format.thy ===== *)
theory Quic_Format
  imports Quic_Utils
begin

text \<open>
  The texts of \<^verbatim>\<open>src/utils.cpp\<close>: addresses, paths and the hex dump of buffers (\<^verbatim>\<open>buffer_printer\<close>), with
  readers that get the value back.  Texts are the UTF-8 bytes the code produces.
\<close>

section \<open>Numbers\<close>

text \<open>The fmt conversions the code uses: decimal, and lower-case hexadecimal padded with zeros.\<close>

fun dec_string :: "nat \<Rightarrow> string" where
  "dec_string n = (if n < 10 then [char_of (48 + n)] else dec_string (n div 10) @ [char_of (48 + n mod 10)])"

fun hex_string :: "nat \<Rightarrow> string" where
  "hex_string n = (if n < 16 then [hex_digit n] else hex_string (n div 16) @ [hex_digit (n mod 16)])"

declare dec_string.simps [simp del] hex_string.simps [simp del]

definition hex_padded :: "nat \<Rightarrow> nat \<Rightarrow> string" where
  "hex_padded w n = replicate (w - length (hex_string n)) CHR ''0'' @ hex_string n"

section \<open>Addresses and paths\<close>

text \<open>\<open>ntop\<close> is \<^verbatim>\<open>inet_ntop\<close>; \<^verbatim>\<open>port()\<close> has an assertion.\<close>

definition address_to_string :: "(nat \<Rightarrow> bytes \<Rightarrow> string) \<Rightarrow> address \<Rightarrow> string result" where
  "address_to_string ntop a =
     (if is_ipv6 a
      then and_then (address_port a) (\<lambda>p. Inr (''['' @ ntop AF_INET6 (sin6_addr a) @ '']:'' @ dec_string (unat p)))
      else and_then (address_port a) (\<lambda>p. Inr (ntop AF_INET (sin_addr a) @ '':'' @ dec_string (unat p))))"

definition utf8_arrow :: string where "utf8_arrow = map char_of [0xe2 :: nat, 0x9e, 0x99]"

definition path_to_string :: "(nat \<Rightarrow> bytes \<Rightarrow> string) \<Rightarrow> path \<Rightarrow> string result" where
  "path_to_string ntop p =
     and_then (address_to_string ntop (path_local p)) (\<lambda>l.
     and_then (address_to_string ntop (path_remote p)) (\<lambda>r.
       Inr (''{'' @ l @ '' '' @ utf8_arrow @ '' '' @ r @ ''}'')))"

text \<open>\<^verbatim>\<open>str_tolower\<close> in the C locale, and the tests for numeric host names.\<close>

definition tolower :: "char \<Rightarrow> char" where
  "tolower c = (let n = of_char c :: nat in if 65 \<le> n \<and> n \<le> 90 then char_of (n + 32) else c)"

definition str_tolower :: "string \<Rightarrow> string" where
  "str_tolower s = map tolower s"

definition numeric_host_family :: "(nat \<Rightarrow> string \<Rightarrow> int \<times> bytes) \<Rightarrow> string \<Rightarrow> nat \<Rightarrow> bool" where
  "numeric_host_family pton host family \<longleftrightarrow> fst (pton family host) = 1"

definition numeric_host :: "(nat \<Rightarrow> string \<Rightarrow> int \<times> bytes) \<Rightarrow> string \<Rightarrow> bool" where
  "numeric_host pton host \<longleftrightarrow> numeric_host_family pton host AF_INET \<or> numeric_host_family pton host AF_INET6"

section \<open>Hex dumps\<close>

definition utf8_bar :: string where "utf8_bar = map char_of [0xe2 :: nat, 0x94, 0x83]"
definition utf8_empty_set :: string where "utf8_empty_set = map char_of [0xe2 :: nat, 0x88, 0x85]"
definition utf8_middle_dot :: string where "utf8_middle_dot = map char_of [0xc2 :: nat, 0xb7]"

text \<open>One row shows up to 32 bytes: the offset, the bytes in groups of four, and their characters.\<close>

definition row_cells :: "bytes \<Rightarrow> string" where
  "row_cells bs = concat (map (\<lambda>j. (if j mod 4 = 0 then '' '' else []) @
     (if length bs \<le> j then ''  '' else hex_byte (bs ! j))) [0..<32])"

definition row_char :: "byte \<Rightarrow> string" where
  "row_char b =
     (if b = 0 then utf8_empty_set
      else if sint b < 0x20 \<or> sint b > 0x7e then utf8_middle_dot
      else [char_of (unat b)])"

definition buffer_row :: "nat \<Rightarrow> bytes \<Rightarrow> string" where
  "buffer_row i bs = hex_padded 4 i @ '' '' @ row_cells bs @ ''  '' @ utf8_bar @ concat (map row_char bs) @ utf8_bar"

function buffer_rows :: "nat \<Rightarrow> bytes \<Rightarrow> string" where
  "buffer_rows i b =
     (if b = [] then [] else CHR 0x0A # buffer_row i (take 32 b) @ buffer_rows (i + 32) (drop 32 b))"
  by pat_completeness auto
termination
  by (relation "measure (\<lambda>(i, b). length b)") auto

declare buffer_rows.simps [simp del]

definition buffer_to_string :: "bytes \<Rightarrow> string" where
  "buffer_to_string b = ''Buffer['' @ dec_string (length b) @ ''/0x'' @ hex_string (length b) @ '' bytes]:'' @ buffer_rows 0 b"

section \<open>Reading the texts back\<close>

definition unhex_digit :: "char \<Rightarrow> nat" where
  "unhex_digit c = (let n = of_char c in if n < 58 then n - 48 else n - 87)"

fun unhex :: "string \<Rightarrow> bytes" where
  "unhex (a # b # s) = of_nat (16 * unhex_digit a + unhex_digit b) # unhex s"
| "unhex _ = []"

lemma unhex_hex_digit: "n < 16 \<Longrightarrow> unhex_digit (hex_digit n) = n"
  by (auto simp: unhex_digit_def hex_digit_def Let_def of_char_of)

lemma unhex_byte: "unhex (hex_byte b @ s) = b # unhex s"
proof -
  have "unat b < 256" by (rule order.strict_trans2 [OF unsigned_less]) simp
  then have "unhex_digit (hex_digit (unat b div 16)) = unat b div 16" by (intro unhex_hex_digit) simp
  moreover have "unhex_digit (hex_digit (unat b mod 16)) = unat b mod 16" by (intro unhex_hex_digit) simp
  ultimately have "16 * unhex_digit (hex_digit (unat b div 16)) + unhex_digit (hex_digit (unat b mod 16)) = unat b"
    by (simp only: mult_div_mod_eq)
  then show ?thesis unfolding hex_byte_def append_Cons append_Nil unhex.simps by simp
qed

lemma unhex_bytes: "unhex (concat (map hex_byte bs)) = bs"
  by (induction bs) (simp_all add: unhex_byte)

text \<open>
  The text of a connection id, which the log files identify connections by, determines the id: reading
  the hexadecimal digits back gives its bytes.
\<close>

theorem cid_text_roundtrip: "unhex (cid_to_string c) = take (cid_datalen c) (cid_data c)"
  by (simp add: cid_to_string_def unhex_bytes)

text \<open>Hexadecimal texts have neither spaces nor line ends.\<close>

definition plain_text :: "string \<Rightarrow> bool" where
  "plain_text s \<longleftrightarrow> list_all (\<lambda>c. c \<noteq> CHR '' '' \<and> c \<noteq> CHR 0x0A) s"

lemma plain_text_simps [simp]:
  "plain_text []" "plain_text (c # s) \<longleftrightarrow> c \<noteq> CHR '' '' \<and> c \<noteq> CHR 0x0A \<and> plain_text s"
  "plain_text (s @ t) \<longleftrightarrow> plain_text s \<and> plain_text t"
  by (auto simp: plain_text_def)

lemma hex_digit_plain: "n < 16 \<Longrightarrow> hex_digit n \<noteq> CHR '' '' \<and> hex_digit n \<noteq> CHR 0x0A"
proof -
  have "list_all (\<lambda>n. hex_digit n \<noteq> CHR '' '' \<and> hex_digit n \<noteq> CHR 0x0A) [0..<16]" by code_simp
  then show "n < 16 \<Longrightarrow> ?thesis" by (simp add: list_all_iff)
qed

lemma hex_string_plain: "plain_text (hex_string n)"
proof (induction n rule: hex_string.induct)
  case (1 n)
  then show ?case by (subst hex_string.simps) (simp add: hex_digit_plain)
qed

lemma hex_padded_plain: "plain_text (hex_padded w n)"
proof -
  have "plain_text (replicate k CHR ''0'')" for k by (induction k) simp_all
  then show ?thesis by (simp add: hex_padded_def hex_string_plain)
qed

lemma hex_byte_plain: "plain_text (hex_byte b)"
proof -
  have "unat b < 256" by (rule order.strict_trans2 [OF unsigned_less]) simp
  then show ?thesis by (simp add: hex_byte_def hex_digit_plain)
qed

lemma filter_plain: "plain_text s \<Longrightarrow> filter (\<lambda>c. c \<noteq> CHR '' '') s = s"
  by (induction s) auto

lemma row_cells_length: "length (row_cells bs) = 72"
proof -
  have "length ((if j mod 4 = 0 then '' '' else []) @ (if length bs \<le> j then ''  '' else hex_byte (bs ! j))) =
      (if j mod 4 = 0 then 1 else 0) + 2" for j
    by (simp add: hex_byte_def)
  then have "length (row_cells bs) = sum_list (map (\<lambda>j. (if j mod 4 = 0 then 1 else 0) + 2) [0..<32 :: nat])"
    by (simp only: row_cells_def length_concat map_map comp_def)
  also have "\<dots> = 72" by code_simp
  finally show ?thesis .
qed

lemma row_cells_bytes:
  assumes "length bs \<le> 32"
  shows "filter (\<lambda>c. c \<noteq> CHR '' '') (row_cells bs) = concat (map hex_byte bs)"
proof -
  have "filter (\<lambda>c. c \<noteq> CHR '' '')
      ((if j mod 4 = 0 then '' '' else []) @ (if length bs \<le> j then ''  '' else hex_byte (bs ! j))) =
      (if length bs \<le> j then [] else hex_byte (bs ! j))" for j :: nat
    by (simp add: filter_plain [OF hex_byte_plain])
  then have "filter (\<lambda>c. c \<noteq> CHR '' '') (row_cells bs) =
      concat (map (\<lambda>j. if length bs \<le> j then [] else hex_byte (bs ! j)) [0..<32])"
    by (simp only: row_cells_def filter_concat map_map comp_def)
  also have "[0..<32] = [0..<length bs] @ [length bs..<32]"
    using upt_add_eq_append [of 0 "length bs" "32 - length bs"] assms by simp
  also have "concat (map (\<lambda>j. if length bs \<le> j then [] else hex_byte (bs ! j)) \<dots>) =
      concat (map (\<lambda>j. hex_byte (bs ! j)) [0..<length bs])"
  proof -
    have "map (\<lambda>j. if length bs \<le> j then [] else hex_byte (bs ! j)) [0..<length bs] =
        map (\<lambda>j. hex_byte (bs ! j)) [0..<length bs]" by simp
    moreover have "concat (map (\<lambda>j. if length bs \<le> j then [] else hex_byte (bs ! j)) [length bs..<32]) = []" by simp
    ultimately show ?thesis by (simp only: map_append concat_append append_Nil2)
  qed
  also have "map (\<lambda>j. hex_byte (bs ! j)) [0..<length bs] = map hex_byte bs"
    by (rule nth_equalityI) simp_all
  finally show ?thesis .
qed

text \<open>The reader: lines end at line feeds; of each line after the first, 72 characters after the offset.\<close>

definition read_row :: "string \<Rightarrow> bytes" where
  "read_row l = unhex (filter (\<lambda>c. c \<noteq> CHR '' '') (take 72 (tl (dropWhile (\<lambda>c. c \<noteq> CHR '' '') l))))"

function split_lines :: "string \<Rightarrow> string list" where
  "split_lines s =
     (let l = takeWhile (\<lambda>c. c \<noteq> CHR 0x0A) s
      in if length l = length s then [l] else l # split_lines (drop (length l + 1) s))"
  by pat_completeness auto
termination
proof (relation "measure length", goal_cases)
  case (2 s l)
  then show ?case by (cases s) auto
qed simp

declare split_lines.simps [simp del]

definition read_buffer :: "string \<Rightarrow> bytes" where
  "read_buffer s = concat (map read_row (tl (split_lines s)))"

lemma read_buffer_row:
  assumes "length bs \<le> 32"
  shows "read_row (buffer_row i bs) = bs"
proof -
  have "dropWhile (\<lambda>c. c \<noteq> CHR '' '') (p @ CHR '' '' # t) = CHR '' '' # t" if "plain_text p" for p t
    using that by (induction p) auto
  then have "tl (dropWhile (\<lambda>c. c \<noteq> CHR '' '') (buffer_row i bs)) =
      row_cells bs @ ''  '' @ utf8_bar @ concat (map row_char bs) @ utf8_bar"
    by (simp add: buffer_row_def hex_padded_plain)
  with assms show ?thesis by (simp add: read_row_def row_cells_length row_cells_bytes unhex_bytes)
qed

text \<open>Rows and the header contain no line feed, so that splitting the text gives the rows back.\<close>

definition one_line :: "string \<Rightarrow> bool" where
  "one_line s \<longleftrightarrow> CHR 0x0A \<notin> set s"

lemma plain_one_line: "plain_text s \<Longrightarrow> one_line s"
  by (auto simp: plain_text_def one_line_def list_all_iff)

lemma row_char_one_line: "one_line (row_char b)"
proof (cases "b = 0 \<or> sint b < 0x20 \<or> sint b > 0x7e")
  case True
  then show ?thesis
    by (auto simp: row_char_def one_line_def utf8_empty_set_def utf8_middle_dot_def char_of_def)
next
  case False
  have "char_of (unat b) \<noteq> CHR 0x0A"
  proof
    assume "char_of (unat b) = CHR 0x0A"
    then have "of_char (char_of (unat b) :: char) = (of_char (CHR 0x0A) :: nat)" by (rule arg_cong)
    moreover have "unat b < 256" by (rule order.strict_trans2 [OF unsigned_less]) simp
    ultimately have "unat b = 10" by (simp add: of_char_of)
    then have "of_nat (unat b) = (of_nat 10 :: byte)" by simp
    then have "b = 10" by simp
    with False show False by simp
  qed
  with False show ?thesis by (simp add: row_char_def one_line_def)
qed

lemma row_cells_one_line: "one_line (row_cells bs)"
  using plain_one_line [OF hex_byte_plain] by (auto simp: row_cells_def one_line_def split: if_splits)

lemma buffer_row_one_line: "one_line (buffer_row i bs)"
  using plain_one_line [OF hex_padded_plain, of 4 i] row_cells_one_line [of bs] row_char_one_line
  by (auto simp: buffer_row_def one_line_def utf8_bar_def char_of_def)

lemma split_lines_cons: "one_line l \<Longrightarrow> split_lines (l @ CHR 0x0A # s) = l # split_lines s"
proof -
  assume l: "one_line l"
  then have "takeWhile (\<lambda>c. c \<noteq> CHR 0x0A) (l @ CHR 0x0A # s) = l"
    by (induction l) (auto simp: one_line_def)
  then show ?thesis by (subst split_lines.simps) (simp add: Let_def)
qed

lemma split_lines_last: "one_line l \<Longrightarrow> split_lines l = [l]"
proof -
  assume "one_line l"
  then have l: "takeWhile (\<lambda>c. c \<noteq> CHR 0x0A) l = l" by (induction l) (auto simp: one_line_def)
  show ?thesis by (subst split_lines.simps) (simp only: Let_def l refl if_True)
qed

lemma read_rows:
  "one_line h \<Longrightarrow> concat (map read_row (tl (split_lines (h @ buffer_rows i b)))) = b"
proof (induction i b arbitrary: h rule: buffer_rows.induct)
  case (1 i b)
  show ?case
  proof (cases "b = []")
    case True
    with "1.prems" show ?thesis by (simp add: buffer_rows.simps split_lines_last)
  next
    case False
    have "tl (split_lines (h @ buffer_rows i b)) = split_lines (buffer_row i (take 32 b) @ buffer_rows (i + 32) (drop 32 b))"
      using False "1.prems" by (subst buffer_rows.simps) (simp add: split_lines_cons)
    also have "\<dots> = buffer_row i (take 32 b) # tl \<dots>"
    proof (cases "drop 32 b = []")
      case True
      then show ?thesis by (simp add: buffer_rows.simps split_lines_last buffer_row_one_line)
    next
      case False
      then show ?thesis by (subst (1 2) buffer_rows.simps) (simp add: split_lines_cons buffer_row_one_line)
    qed
    finally show ?thesis
      using "1.IH" [OF False buffer_row_one_line, of i "take 32 b"] by (simp add: read_buffer_row)
  qed
qed

lemma dec_string_one_line: "one_line (dec_string n)"
proof (induction n rule: dec_string.induct)
  case (1 n)
  have digit: "char_of (48 + d) \<noteq> CHR 0x0A" if "d < 10" for d :: nat
  proof -
    have "list_all (\<lambda>d. char_of (48 + d) \<noteq> CHR 0x0A) [0..<10 :: nat]" by code_simp
    with that show ?thesis by (simp add: list_all_iff)
  qed
  show ?case
  proof (cases "n < 10")
    case True
    with digit [of n] show ?thesis by (subst dec_string.simps) (simp add: one_line_def)
  next
    case False
    with 1 digit [of "n mod 10"] show ?thesis by (subst dec_string.simps) (simp add: one_line_def)
  qed
qed

text \<open>
  The hex dump that the log prints of a buffer is complete and unambiguous: reading the hexadecimal
  columns of its lines back gives exactly the buffer, whatever its length and contents.
\<close>

theorem buffer_dump_roundtrip: "read_buffer (buffer_to_string b) = b"
proof -
  have "one_line (''Buffer['' @ dec_string (length b) @ ''/0x'' @ hex_string (length b) @ '' bytes]:'')"
    using dec_string_one_line [of "length b"] plain_one_line [OF hex_string_plain, of "length b"]
    by (auto simp: one_line_def)
  from read_rows [OF this, of 0 b] show ?thesis by (simp add: read_buffer_def buffer_to_string_def)
qed

section \<open>Addresses\<close>

text \<open>What is documented of \<^verbatim>\<open>inet_ntop\<close> and \<^verbatim>\<open>inet_pton\<close>: each reads the other's text, and only IPv6 texts have colons.\<close>

definition ntop_pton :: "(nat \<Rightarrow> bytes \<Rightarrow> string) \<Rightarrow> (nat \<Rightarrow> string \<Rightarrow> int \<times> bytes) \<Rightarrow> bool" where
  "ntop_pton ntop pton \<longleftrightarrow> (\<forall>b. length b = 4 \<longrightarrow> pton AF_INET (ntop AF_INET b) = (1, b) \<and> CHR '':'' \<notin> set (ntop AF_INET b)) \<and>
     (\<forall>b. length b = 16 \<longrightarrow> pton AF_INET6 (ntop AF_INET6 b) = (1, b) \<and> CHR '':'' \<in> set (ntop AF_INET6 b))"

definition sockaddr_wf :: "address \<Rightarrow> bool" where
  "sockaddr_wf a \<longleftrightarrow> (is_ipv4 a \<or> is_ipv6 a) \<and> length (sin_port a) = 2 \<and> length (sin_addr a) = 4 \<and> length (sin6_addr a) = 16"

definition host_text :: "(nat \<Rightarrow> bytes \<Rightarrow> string) \<Rightarrow> address \<Rightarrow> string" where
  "host_text ntop a = (if is_ipv6 a then ntop AF_INET6 (sin6_addr a) else ntop AF_INET (sin_addr a))"

text \<open>The number behind the last colon and what precedes it.\<close>

definition read_dec :: "string \<Rightarrow> nat" where
  "read_dec s = foldl (\<lambda>n c. 10 * n + (of_char c - 48)) 0 s"

lemma read_dec_snoc: "read_dec (s @ [c]) = 10 * read_dec s + (of_char c - 48)"
  by (simp add: read_dec_def)

lemma read_dec_string: "read_dec (dec_string n) = n"
proof (induction n rule: dec_string.induct)
  case (1 n)
  show ?case
  proof (cases "n < 10")
    case True
    then show ?thesis by (subst dec_string.simps) (simp add: read_dec_def of_char_of)
  next
    case False
    with 1 show ?thesis by (subst dec_string.simps) (simp add: read_dec_snoc of_char_of)
  qed
qed

lemma dec_string_no_colon: "CHR '':'' \<notin> set (dec_string n)"
proof (induction n rule: dec_string.induct)
  case (1 n)
  have digit: "char_of (48 + d) \<noteq> CHR '':''" if "d < 10" for d :: nat
  proof -
    have "list_all (\<lambda>d. char_of (48 + d) \<noteq> CHR '':'') [0..<10 :: nat]" by code_simp
    with that show ?thesis by (simp add: list_all_iff)
  qed
  show ?case
  proof (cases "n < 10")
    case True
    with digit [of n] show ?thesis by (subst dec_string.simps) simp
  next
    case False
    with 1 digit [of "n mod 10"] show ?thesis by (subst dec_string.simps) simp
  qed
qed

definition read_host_port :: "string \<Rightarrow> string \<times> u16" where
  "read_host_port s =
     (let p = rev (takeWhile (\<lambda>c. c \<noteq> CHR '':'') (rev s)); h = take (length s - length p - 1) s
      in (if h \<noteq> [] \<and> hd h = CHR ''['' then butlast (tl h) else h, of_nat (read_dec p)))"

lemma read_host_port_text:
  "read_host_port (h @ '':'' @ dec_string n) = (if h \<noteq> [] \<and> hd h = CHR ''['' then butlast (tl h) else h, of_nat n)"
proof -
  have "takeWhile (\<lambda>c. c \<noteq> CHR '':'') (rev (h @ '':'' @ dec_string n)) = rev (dec_string n)"
    using dec_string_no_colon [of n] by (simp add: takeWhile_append takeWhile_eq_all_conv [THEN iffD2])
  then show ?thesis by (simp add: read_host_port_def Let_def read_dec_string)
qed

lemma host_big_inverse: "length b = 2 \<Longrightarrow> host_to_big (big_to_host b) = b"
proof -
  assume "length b = 2"
  then obtain h l where b: "b = [h, l]" by (auto simp: numeral_2_eq_2 length_Suc_conv)
  have "ucast (drop_bit 8 (push_bit 8 (ucast h) OR ucast l :: u16)) = h"
    by (rule bit_word_eqI) (auto simp: bit_simps dest: bit_imp_le_length)
  moreover have "ucast (push_bit 8 (ucast h) OR ucast l :: u16) = l"
    by (rule bit_word_eqI) (auto simp: bit_simps)
  ultimately show ?thesis by (simp add: b host_to_big_def big_to_host_def)
qed

text \<open>
  C36: The text of an address determines it: splitting \<^verbatim>\<open>Address::to_string\<close> into host and port and
  constructing an address from them gives an address that compares equal to the original one.
\<close>

theorem address_text_roundtrip:
  assumes "ntop_pton ntop pton" and "sockaddr_wf a" and "\<And>b. length b = 4 \<Longrightarrow> hd (ntop AF_INET b) \<noteq> CHR ''[''"
  shows "\<exists>s a'. address_to_string ntop a = Inr s \<and>
    address_of_string pton (fst (read_host_port s)) (snd (read_host_port s)) = Inr a' \<and> address_eq a a'"
proof -
  let ?p = "big_to_host (sin_port a)"
  from assms(2) have port: "address_port a = Inr ?p" "host_to_big ?p = sin_port a"
    by (auto simp: address_port_def sockaddr_wf_def host_big_inverse)
  show ?thesis
  proof (cases "is_ipv6 a")
    case True
    let ?h = "ntop AF_INET6 (sin6_addr a)"
    have s: "address_to_string ntop a = Inr ((''['' @ ?h @ '']'') @ '':'' @ dec_string (unat ?p))"
      using True by (simp add: address_to_string_def port)
    have h: "pton AF_INET6 ?h = (1, sin6_addr a)" "CHR '':'' \<in> set ?h"
      using assms by (auto simp: ntop_pton_def sockaddr_wf_def)
    have "read_host_port ((''['' @ ?h @ '']'') @ '':'' @ dec_string (unat ?p)) = (?h, ?p)"
      unfolding read_host_port_text by simp
    with s h True port(2) show ?thesis
      by (auto simp: address_of_string_def Let_def address_eq_def is_ipv6_def is_ipv4_def AF_INET_def AF_INET6_def
          zero_sockaddr_def)
  next
    case False
    let ?h = "ntop AF_INET (sin_addr a)"
    from False assms(2) have v4: "is_ipv4 a" by (simp add: sockaddr_wf_def)
    have s: "address_to_string ntop a = Inr (?h @ '':'' @ dec_string (unat ?p))"
      using False by (simp add: address_to_string_def port)
    have h: "pton AF_INET ?h = (1, sin_addr a)" "CHR '':'' \<notin> set ?h" "hd ?h \<noteq> CHR ''[''"
      using assms by (auto simp: ntop_pton_def sockaddr_wf_def)
    have "read_host_port (?h @ '':'' @ dec_string (unat ?p)) = (?h, ?p)"
      using h(3) unfolding read_host_port_text by simp
    with s h v4 port(2) show ?thesis
      by (auto simp: address_of_string_def Let_def address_eq_def is_ipv6_def is_ipv4_def AF_INET_def AF_INET6_def
          zero_sockaddr_def)
  qed
qed

text \<open>An instance of the conversions, with hexadecimal digits in place of the usual texts.\<close>

definition hex_ntop :: "nat \<Rightarrow> bytes \<Rightarrow> string" where
  "hex_ntop f b = (if f = AF_INET then concat (map hex_byte b) else '':'' @ concat (map hex_byte b))"

definition hex_pton :: "nat \<Rightarrow> string \<Rightarrow> int \<times> bytes" where
  "hex_pton f s = (1, unhex (if f = AF_INET then s else tl s))"

lemma hex_bytes_chars: "set (concat (map hex_byte b)) \<subseteq> set (map hex_digit [0..<16])"
proof -
  have "unat x < 256" for x :: byte by (rule order.strict_trans2 [OF unsigned_less]) simp
  then have "set (hex_byte x) \<subseteq> set (map hex_digit [0..<16])" for x
    by (auto simp: hex_byte_def less_mult_imp_div_less intro!: imageI)
  then show ?thesis by auto
qed

lemma hex_ntop_ok: "ntop_pton hex_ntop hex_pton"
proof -
  have "CHR '':'' \<notin> set (map hex_digit [0..<16])" by code_simp
  with hex_bytes_chars have "CHR '':'' \<notin> set (concat (map hex_byte b))" for b by blast
  then show ?thesis by (auto simp: ntop_pton_def hex_ntop_def hex_pton_def unhex_bytes AF_INET_def AF_INET6_def)
qed

lemma hex_ntop_hd: "length b = 4 \<Longrightarrow> hd (hex_ntop AF_INET b) \<noteq> CHR ''[''"
proof -
  assume "length b = 4"
  then have "concat (map hex_byte b) \<noteq> []" by (cases b) (simp_all add: hex_byte_def)
  then have "hd (concat (map hex_byte b)) \<in> set (map hex_digit [0..<16])" using hex_bytes_chars hd_in_set by blast
  moreover have "CHR ''['' \<notin> set (map hex_digit [0..<16])" by code_simp
  ultimately show ?thesis by (auto simp: hex_ntop_def simp del: set_map)
qed

theorem address_text_roundtrip_witness:
  "\<exists>s a'. address_to_string hex_ntop address_default = Inr s \<and>
    address_of_string hex_pton (fst (read_host_port s)) (snd (read_host_port s)) = Inr a' \<and> address_eq address_default a'"
proof (rule address_text_roundtrip [OF hex_ntop_ok])
  show "sockaddr_wf address_default"
    by (simp add: sockaddr_wf_def address_default_def zero_sockaddr_def is_ipv6_def)
qed (rule hex_ntop_hd)

end
