(* ===== verification/Quic_Stream.thy ===== *)
theory Quic_Stream
  imports Quic_Utils
begin

text \<open>
  The stream of \<^verbatim>\<open>include/quic/stream.hpp\<close> and \<^verbatim>\<open>src/stream.cpp\<close>: the queue of user buffers with
  the count of bytes handed to ngtcp2 but not yet acknowledged, the chunk senders whose chunks
  refill the queue when they are acknowledged, and the closing flags.  Operations are the bodies
  that run on the event loop thread; \<^verbatim>\<open>Network::call\<close>, which may defer them, is in
  \<^verbatim>\<open>Quic_Network\<close>.  An abstract byte pipe (bytes in flight, bytes queued) specifies the queue, and
  the operations are shown to implement it.
\<close>

section \<open>State\<close>

text \<open>
  \<^verbatim>\<open>std::shared_ptr<void> keep_alive\<close> of a buffer: empty, owning plain data, or a \<^verbatim>\<open>single_chunk\<close> of the
  chunk sender with the given index, whose destructor asks the sender for the next chunk.
\<close>

datatype keep_alive = No_keep | Owned | Chunk nat

type_synonym user_buffer = "bytes \<times> keep_alive"

text \<open>
  A \<^verbatim>\<open>chunk_sender\<close>.  The callable \<^verbatim>\<open>next_chunk\<close> is the list of what its calls will return, with an
  empty container (or null pointer) once the list is used up; \<open>None\<close> is the null function.
  \<open>done_calls\<close> counts the calls of the \<^verbatim>\<open>done\<close> callback and \<open>chunks_sent\<close> the chunks sent into the stream.
\<close>

record chunk_sender =
  next_chunk :: "bytes list option"
  has_done :: bool
  done_calls :: nat
  chunks_sent :: nat

datatype close_cb = Default_close | User_close nat

record stream =
  stream_id :: int
  data_callback :: "nat option"
  close_callback :: close_cb
  user_buffers :: "user_buffer list"
  unacked_size :: u64
  is_closing :: bool
  is_shutdown :: bool
  sent_fin :: bool
  ready :: bool
  senders :: "chunk_sender list"

text \<open>What a stream asks of its connection: wake the io event, or shut the ngtcp2 stream down.\<close>

datatype stream_effect = Io_ready | Shutdown_stream int u64

text \<open>What a stream asks of the application: its close callback with an error code.\<close>

datatype close_call = Close_call close_cb u64

section \<open>Operations\<close>

definition stream_new :: "nat option \<Rightarrow> nat option \<Rightarrow> int \<Rightarrow> stream" where
  "stream_new data_cb close_cb sid =
     \<lparr>stream_id = sid, data_callback = data_cb,
      close_callback = (case close_cb of None \<Rightarrow> Default_close | Some c \<Rightarrow> User_close c),
      user_buffers = [], unacked_size = 0, is_closing = False, is_shutdown = False,
      sent_fin = False, ready = False, senders = []\<rparr>"

definition available :: "stream \<Rightarrow> bool" where
  "available s \<longleftrightarrow> \<not> (is_closing s \<or> is_shutdown s \<or> sent_fin s)"

definition buf_size :: "user_buffer \<Rightarrow> u64" where
  "buf_size b = of_nat (length (fst b))"

definition stream_size :: "stream \<Rightarrow> u64" where
  "stream_size s = sum_list (map buf_size (user_buffers s))"

definition unacked :: "stream \<Rightarrow> u64" where
  "unacked s = unacked_size s"

definition unsent :: "stream \<Rightarrow> u64" where
  "unsent s = stream_size s - unacked s"

definition set_ready :: "stream \<Rightarrow> stream" where
  "set_ready s = s\<lparr>ready := True\<rparr>"

definition set_not_ready :: "stream \<Rightarrow> stream" where
  "set_not_ready s = s\<lparr>ready := False\<rparr>"

definition append_buffer :: "bytes \<Rightarrow> keep_alive \<Rightarrow> stream \<Rightarrow> stream \<times> stream_effect list" where
  "append_buffer buf keep s =
     (s\<lparr>user_buffers := user_buffers s @ [(buf, keep)]\<rparr>, if ready s then [Io_ready] else [])"

definition wrote :: "u64 \<Rightarrow> stream \<Rightarrow> stream" where
  "wrote n s = s\<lparr>unacked_size := unacked_size s + n\<rparr>"

subsection \<open>Chunk senders\<close>

text \<open>
  \<^verbatim>\<open>queue_next_chunk\<close> of the sender with index \<open>c\<close>: the buffer it sends into the stream, if any.
\<close>

definition queue_next_chunk :: "nat \<Rightarrow> chunk_sender list \<Rightarrow> user_buffer list \<times> chunk_sender list" where
  "queue_next_chunk c cs =
     (if length cs \<le> c then ([], cs) else
      let x = cs ! c in
      case next_chunk x of
        None \<Rightarrow> ([], cs)
      | Some script \<Rightarrow>
          (let data = (case script of [] \<Rightarrow> [] | d # _ \<Rightarrow> d) in
           if (of_nat (length data) :: u64) = 0
           then ([], cs[c := x\<lparr>next_chunk := None,
                              done_calls := done_calls x + (if has_done x then 1 else 0)\<rparr>])
           else ([(data, Chunk c)], cs[c := x\<lparr>next_chunk := Some (tl script), chunks_sent := chunks_sent x + 1\<rparr>])))"

text \<open>The destructor of a keep-alive: a chunk queues the next one, anything else does nothing.\<close>

definition drop_keep :: "keep_alive \<Rightarrow> chunk_sender list \<Rightarrow> user_buffer list \<times> chunk_sender list" where
  "drop_keep k cs = (case k of Chunk c \<Rightarrow> queue_next_chunk c cs | _ \<Rightarrow> ([], cs))"

fun chunk_make :: "nat \<Rightarrow> nat \<Rightarrow> stream \<Rightarrow> stream" where
  "chunk_make c 0 s = s"
| "chunk_make c (Suc n) s =
     (let (new, cs) = queue_next_chunk c (senders s)
      in chunk_make c n (s\<lparr>user_buffers := user_buffers s @ new, senders := cs\<rparr>))"

definition send_chunks :: "bytes list \<Rightarrow> bool \<Rightarrow> int \<Rightarrow> stream \<Rightarrow> (stream \<times> stream_effect list) result" where
  "send_chunks script d simultaneous s =
     (if simultaneous < 1 then Inl Logic_error
      else let c = length (senders s);
               s1 = s\<lparr>senders := senders s @ [\<lparr>next_chunk = Some script, has_done = d, done_calls = 0, chunks_sent = 0\<rparr>]\<rparr>;
               s2 = chunk_make c (nat simultaneous) s1
           in Inr (s2, if ready s \<and> user_buffers s2 \<noteq> user_buffers s then [Io_ready] else []))"

subsection \<open>Acknowledging\<close>

text \<open>
  The loop of \<^verbatim>\<open>acknowledge\<close>.  Its condition reads \<^verbatim>\<open>user_buffers.front()\<close> before it looks at the
  count, so on an empty queue it reads a front element that does not exist; with a count of 0 the
  value read does not matter and the loop ends, which the last component of the result records.
\<close>

definition empty_bufs :: "user_buffer list \<Rightarrow> nat" where
  "empty_bufs bs = length (filter (\<lambda>b. buf_size b = 0) bs)"

lemma drop_keep_cases:
  "drop_keep k cs = (new, cs') \<Longrightarrow> new = [] \<or> (\<exists>d c. new = [(d, Chunk c)] \<and> buf_size (d, Chunk c) \<noteq> 0)"
  by (auto simp: drop_keep_def queue_next_chunk_def buf_size_def Let_def
      split: keep_alive.splits option.splits if_splits)

lemma drop_keep_no_empty: "drop_keep k cs = (new, cs') \<Longrightarrow> empty_bufs new = 0"
  by (auto dest!: drop_keep_cases simp: empty_bufs_def)

function ack_loop ::
  "u64 \<Rightarrow> user_buffer list \<Rightarrow> chunk_sender list \<Rightarrow>
   (u64 \<times> user_buffer list \<times> chunk_sender list \<times> bool) result" where
  "ack_loop n [] cs = (if n = 0 then Inr (n, [], cs, True) else Inl Front_of_empty_deque)"
| "ack_loop n (b # bs) cs =
     (if buf_size b \<le> n \<and> n \<noteq> 0
      then (let (new, cs') = drop_keep (snd b) cs in ack_loop (n - buf_size b) (bs @ new) cs')
      else Inr (n, b # bs, cs, False))"
  by pat_completeness auto
termination
proof (relation "measures [\<lambda>(n, bs, cs). unat n, \<lambda>(n, bs, cs). empty_bufs bs]", goal_cases)
  case 1
  show ?case by simp
next
  case (2 n b bs cs p new cs')
  then have new: "empty_bufs new = 0"
    by (metis drop_keep_no_empty)
  show ?case
  proof (cases "buf_size b = 0")
    case True
    with new show ?thesis by (simp add: empty_bufs_def)
  next
    case False
    with 2 have "unat (n - buf_size b) < unat n"
      by (metis unat_sub unat_gt_0 diff_less word_le_nat_alt order_less_le_trans)
    then show ?thesis by simp
  qed
qed

definition acknowledge :: "u64 \<Rightarrow> stream \<Rightarrow> (stream \<times> bool) result" where
  "acknowledge n s =
     (if \<not> n \<le> unacked_size s then Inl Assertion_failed
      else case ack_loop n (user_buffers s) (senders s) of
        Inl e \<Rightarrow> Inl e
      | Inr (n', bs, cs, stale) \<Rightarrow>
          (let s1 = s\<lparr>unacked_size := unacked_size s - n, senders := cs\<rparr> in
           if n' = 0 then Inr (s1\<lparr>user_buffers := bs\<rparr>, stale)
           else case bs of
             [] \<Rightarrow> Inl Front_of_empty_deque
           | b # bs' \<Rightarrow> Inr (s1\<lparr>user_buffers := (drop (unat n') (fst b), snd b) # bs'\<rparr>, stale)))"

text \<open>
  The chunks sent into the stream while buffers are released go through \<^verbatim>\<open>append_buffer\<close>, which wakes the
  connection for each of them if the stream is ready.
\<close>

definition total_chunks_sent :: "stream \<Rightarrow> nat" where
  "total_chunks_sent s = sum_list (map chunks_sent (senders s))"

definition chunk_wakeups :: "stream \<Rightarrow> stream \<Rightarrow> stream_effect list" where
  "chunk_wakeups s s' = (if ready s then replicate (total_chunks_sent s' - total_chunks_sent s) Io_ready else [])"

subsection \<open>Pending data\<close>

text \<open>
  The iterator is the rest of the queue; the loop condition dereferences it before it compares it
  with the end.
\<close>

fun get_buffer_it :: "user_buffer list \<Rightarrow> u64 \<Rightarrow> (user_buffer list \<times> u64) result" where
  "get_buffer_it [] off = Inl Deref_of_end_iterator"
| "get_buffer_it (b # bs) off =
     (if buf_size b \<le> off \<and> off \<noteq> 0 then get_buffer_it bs (off - buf_size b)
      else Inr (b # bs, off))"

definition pending :: "stream \<Rightarrow> bytes list result" where
  "pending s =
     (if user_buffers s = [] \<or> unsent s = 0 then Inr []
      else case get_buffer_it (user_buffers s) (unacked_size s) of
        Inl e \<Rightarrow> Inl e
      | Inr ([], off) \<Rightarrow> Inl Deref_of_end_iterator
      | Inr (b # bs, off) \<Rightarrow> Inr (drop (unat off) (fst b) # map fst bs))"

subsection \<open>Closing\<close>

definition stream_close :: "u64 \<Rightarrow> stream \<Rightarrow> stream \<times> stream_effect list" where
  "stream_close code s =
     (let (s1, eff) =
        (if is_shutdown s then (s, [])
         else if is_closing s then (s, [])
         else (s\<lparr>is_closing := True, is_shutdown := True\<rparr>, [Shutdown_stream (stream_id s) code]));
          s2 = (if is_shutdown s1 then s1\<lparr>data_callback := None\<rparr> else s1)
      in (s2, eff @ [Io_ready]))"

text \<open>
  \<^verbatim>\<open>~Stream\<close>: the close callback unless the stream was closing already, then the destruction of the
  members.  Destroying the buffers destroys their chunks, each of which asks its sender for the
  next chunk; a sender that still has one appends it to the queue that is being destroyed.
\<close>

fun destroy_buffers :: "user_buffer list \<Rightarrow> chunk_sender list \<Rightarrow> chunk_sender list result" where
  "destroy_buffers [] cs = Inr cs"
| "destroy_buffers (b # bs) cs =
     (case drop_keep (snd b) cs of
        ([], cs') \<Rightarrow> destroy_buffers bs cs'
      | (_ # _, cs') \<Rightarrow> Inl Use_of_destroyed_object)"

definition stream_destroy :: "stream \<Rightarrow> close_call list result" where
  "stream_destroy s =
     (case destroy_buffers (user_buffers s) (senders s) of
        Inl e \<Rightarrow> Inl e
      | Inr _ \<Rightarrow> Inr (if is_closing s then []
                      else [Close_call (close_callback s) STREAM_ERROR_CONNECTION_EXPIRED]))"


section \<open>The queue in natural numbers\<close>

text \<open>
  \<open>stream_bytes\<close> is everything in the queue; \<open>script_total\<close> what the chunk senders still hold.  The
  invariant: everything fits in memory, and the count of unacknowledged bytes does not exceed the
  queue.
\<close>

definition bufs_bytes :: "user_buffer list \<Rightarrow> bytes" where
  "bufs_bytes bs = concat (map fst bs)"

definition stream_bytes :: "stream \<Rightarrow> bytes" where
  "stream_bytes s = bufs_bytes (user_buffers s)"

definition sender_total :: "chunk_sender \<Rightarrow> nat" where
  "sender_total x = (case next_chunk x of None \<Rightarrow> 0 | Some sc \<Rightarrow> length (concat sc))"

definition script_total :: "chunk_sender list \<Rightarrow> nat" where
  "script_total cs = sum_list (map sender_total cs)"

definition stream_inv :: "stream \<Rightarrow> bool" where
  "stream_inv s \<longleftrightarrow> length (stream_bytes s) + script_total (senders s) < 2 ^ 64 \<and>
     unat (unacked_size s) \<le> length (stream_bytes s)"

lemma bufs_bytes_simps [simp]:
  "bufs_bytes [] = []"
  "bufs_bytes (b # bs) = fst b @ bufs_bytes bs"
  "bufs_bytes (bs @ bs') = bufs_bytes bs @ bufs_bytes bs'"
  by (simp_all add: bufs_bytes_def)

lemma sum_buf_size: "sum_list (map buf_size bs) = of_nat (length (bufs_bytes bs))"
  by (induction bs) (simp_all add: buf_size_def)

lemma stream_size_eq: "stream_size s = of_nat (length (stream_bytes s))"
  by (simp add: stream_size_def stream_bytes_def sum_buf_size)

lemma stream_inv_size: "stream_inv s \<Longrightarrow> unat (stream_size s) = length (stream_bytes s)"
  by (simp add: stream_inv_def stream_size_eq unat_of_nat_u64)

lemma unsent_eq: "stream_inv s \<Longrightarrow> unat (unsent s) = length (stream_bytes s) - unat (unacked_size s)"
  unfolding unsent_def unacked_def
  by (subst unat_sub) (simp_all add: word_le_nat_alt stream_inv_size, simp add: stream_inv_def)

lemma unsent_0_iff:
  "stream_inv s \<Longrightarrow> unsent s = 0 \<longleftrightarrow> unat (unacked_size s) = length (stream_bytes s)"
  using unsent_eq [of s] by (auto simp: unat_eq_zero stream_inv_def)

lemma buf_size_le_iff:
  "length (fst b) < 2 ^ 64 \<Longrightarrow> buf_size b \<le> n \<longleftrightarrow> length (fst b) \<le> unat n"
  by (simp add: buf_size_def of_nat_le_u64)

lemma unat_minus_buf_size:
  "length (fst b) \<le> unat n \<Longrightarrow> unat (n - buf_size b) = unat n - length (fst b)"
  by (simp add: buf_size_def unat_minus_of_nat_u64)

subsection \<open>Chunk senders move bytes from their script to the queue\<close>

lemma script_total_update:
  "c < length cs \<Longrightarrow> script_total (cs[c := x]) + sender_total (cs ! c) = script_total cs + sender_total x"
  using elem_le_sum_list [of c "map sender_total cs"]
  by (simp add: script_total_def map_update sum_list_update)

lemma drop_keep_total:
  assumes "drop_keep k cs = (new, cs')"
  shows "length (bufs_bytes new) + script_total cs' \<le> script_total cs"
proof (cases "fst (drop_keep k cs) = [] \<and> snd (drop_keep k cs) = cs")
  case True
  with assms show ?thesis by simp
next
  case False
  then obtain c where k: "k = Chunk c" and c: "c < length cs"
    by (auto simp: drop_keep_def queue_next_chunk_def split: keep_alive.splits if_splits)
  with False obtain script where sc: "next_chunk (cs ! c) = Some script"
    by (auto simp: drop_keep_def queue_next_chunk_def Let_def split: option.splits)
  let ?x = "cs ! c"
  have tot: "sender_total ?x = length (concat script)" by (simp add: sender_total_def sc)
  from assms show ?thesis
    using script_total_update [OF c, of "?x\<lparr>next_chunk := Some (tl script), chunks_sent := chunks_sent ?x + 1\<rparr>"]
      script_total_update [OF c, of "?x\<lparr>next_chunk := None,
        done_calls := done_calls ?x + (if has_done ?x then 1 else 0)\<rparr>"]
    by (cases script) (auto simp: drop_keep_def queue_next_chunk_def k c sc tot sender_total_def
        Let_def split: if_splits)
qed


text \<open>Any number of keep-alives destroyed one after the other: the buffers they queue, in order.\<close>

inductive released :: "chunk_sender list \<Rightarrow> user_buffer list \<Rightarrow> chunk_sender list \<Rightarrow> bool" where
  released_none: "released cs [] cs"
| released_keep: "drop_keep k cs = (new, cs1) \<Longrightarrow> released cs1 nb cs2 \<Longrightarrow> released cs (new @ nb) cs2"

lemma released_total: "released cs nb cs' \<Longrightarrow> length (bufs_bytes nb) + script_total cs' \<le> script_total cs"
  by (induction rule: released.induct) (auto dest: drop_keep_total)

subsection \<open>Acknowledging drops a prefix\<close>

text \<open>
  What the acknowledge loop leaves: the remaining count lies inside the first remaining buffer, and
  the queue without that count is the old queue without the acknowledged bytes, followed by the
  chunks that were queued meanwhile.
\<close>

definition ack_post ::
  "nat \<Rightarrow> user_buffer list \<Rightarrow> chunk_sender list \<Rightarrow>
   u64 \<Rightarrow> user_buffer list \<Rightarrow> chunk_sender list \<Rightarrow> user_buffer list \<Rightarrow> bool" where
  "ack_post n bs cs n' bs' cs' nb \<longleftrightarrow>
     drop (unat n') (bufs_bytes bs') = drop n (bufs_bytes bs) @ bufs_bytes nb \<and>
     (n' \<noteq> 0 \<longrightarrow> bs' \<noteq> [] \<and> unat n' < length (fst (hd bs'))) \<and>
     released cs nb cs'"

lemma ack_post_stop:
  assumes "\<not> (buf_size b \<le> n \<and> n \<noteq> 0)" and "length (fst b) < 2 ^ 64"
  shows "ack_post (unat n) (b # bs) cs n (b # bs) cs []"
  using assms by (auto simp: ack_post_def buf_size_le_iff intro: released_none)

lemma ack_post_pop:
  assumes "ack_post (unat n - length (fst b)) (bs @ new) cs1 n' bs' cs' nb"
    and "length (fst b) \<le> unat n" and "unat n \<le> length (bufs_bytes (b # bs))"
    and "drop_keep (snd b) cs = (new, cs1)"
  shows "ack_post (unat n) (b # bs) cs n' bs' cs' (new @ nb)"
  using assms by (auto simp: ack_post_def intro: released_keep)

lemma ack_loop_post:
  assumes "length (bufs_bytes bs) + script_total cs < 2 ^ 64"
    and "unat n \<le> length (bufs_bytes bs)"
  shows "\<exists>n' bs' cs' stale nb. ack_loop n bs cs = Inr (n', bs', cs', stale) \<and>
           ack_post (unat n) bs cs n' bs' cs' nb"
  using assms
proof (induction n bs cs rule: ack_loop.induct)
  case (1 n cs)
  then have "n = 0" by (simp add: unat_eq_zero)
  moreover from this have "ack_post (unat n) [] cs n [] cs []"
    by (simp add: ack_post_def released_none)
  ultimately show ?case by auto
next
  case (2 n b bs cs)
  from "2.prems" have len: "length (fst b) < 2 ^ 64" by simp
  show ?case
  proof (cases "buf_size b \<le> n \<and> n \<noteq> 0")
    case False
    with ack_post_stop [OF False len] show ?thesis by auto
  next
    case True
    then have le: "length (fst b) \<le> unat n" using buf_size_le_iff [OF len] by blast
    obtain new cs1 where dk: "drop_keep (snd b) cs = (new, cs1)" by fastforce
    have "length (bufs_bytes (bs @ new)) + script_total cs1 < 2 ^ 64"
      using "2.prems"(1) drop_keep_total [OF dk] by simp
    moreover have "unat (n - buf_size b) \<le> length (bufs_bytes (bs @ new))"
      using "2.prems"(2) le by (simp add: unat_minus_buf_size)
    ultimately obtain n' bs' cs' stale nb where
      res: "ack_loop (n - buf_size b) (bs @ new) cs1 = Inr (n', bs', cs', stale)" and
      post: "ack_post (unat (n - buf_size b)) (bs @ new) cs1 n' bs' cs' nb"
      using "2.IH" [OF True dk [symmetric] refl] by blast
    from ack_post_pop [OF _ le "2.prems"(2) dk, of n' bs' cs' nb] post
    have "ack_post (unat n) (b # bs) cs n' bs' cs' (new @ nb)"
      by (simp add: unat_minus_buf_size le)
    with True dk res show ?thesis by auto
  qed
qed

lemma acknowledge_correct:
  assumes inv: "stream_inv s" and n: "n \<le> unacked_size s"
  shows "\<exists>s' stale nb. acknowledge n s = Inr (s', stale) \<and>
           stream_bytes s' = drop (unat n) (stream_bytes s) @ bufs_bytes nb \<and>
           unat (unacked_size s') = unat (unacked_size s) - unat n \<and> stream_inv s' \<and>
           released (senders s) nb (senders s')"
proof -
  from n have nn: "unat n \<le> unat (unacked_size s)" by (simp add: word_le_nat_alt)
  with inv have le: "unat n \<le> length (bufs_bytes (user_buffers s))"
    and cap: "length (bufs_bytes (user_buffers s)) + script_total (senders s) < 2 ^ 64"
    and ua: "unat (unacked_size s) \<le> length (bufs_bytes (user_buffers s))"
    by (auto simp: stream_inv_def stream_bytes_def)
  obtain n' bs cs stale nb where
    res: "ack_loop n (user_buffers s) (senders s) = Inr (n', bs, cs, stale)" and
    post: "ack_post (unat n) (user_buffers s) (senders s) n' bs cs nb"
    using ack_loop_post [OF cap le] by blast
  define bs' where
    "bs' = (if n' = 0 then bs else (drop (unat n') (fst (hd bs)), snd (hd bs)) # tl bs)"
  define s' where
    "s' = s\<lparr>unacked_size := unacked_size s - n, senders := cs, user_buffers := bs'\<rparr>"
  from post have ack: "acknowledge n s = Inr (s', stale)"
    by (cases bs) (auto simp: acknowledge_def res n s'_def bs'_def ack_post_def)
  from post have bytes: "stream_bytes s' = drop (unat n) (stream_bytes s) @ bufs_bytes nb"
    by (cases bs) (auto simp: s'_def bs'_def stream_bytes_def ack_post_def)
  have unacked': "unat (unacked_size s') = unat (unacked_size s) - unat n"
    using n by (simp add: s'_def unat_sub)
  have len: "length (stream_bytes s') =
      length (bufs_bytes (user_buffers s)) - unat n + length (bufs_bytes nb)"
    by (simp add: bytes stream_bytes_def [of s])
  have rel: "senders s' = cs" "released (senders s) nb cs"
    using post by (simp_all add: s'_def ack_post_def)
  with len unacked' ua cap le released_total [OF rel(2)] have "stream_inv s'"
    by (auto simp: stream_inv_def)
  with ack bytes unacked' rel show ?thesis by blast
qed

lemma acknowledge_frame:
  assumes "acknowledge n s = Inr (s', stale)"
  shows "stream_id s' = stream_id s \<and> is_closing s' = is_closing s \<and> is_shutdown s' = is_shutdown s \<and>
    sent_fin s' = sent_fin s \<and> ready s' = ready s \<and> data_callback s' = data_callback s \<and>
    close_callback s' = close_callback s"
  using assms by (auto simp: acknowledge_def Let_def split: if_splits sum.splits list.splits)

subsection \<open>Pending data is the unsent suffix\<close>

lemma get_buffer_it_correct:
  assumes "unat off < length (bufs_bytes bs)" and "length (bufs_bytes bs) < 2 ^ 64"
  shows "\<exists>b it off'. get_buffer_it bs off = Inr (b # it, off') \<and>
           drop (unat off') (fst b) @ bufs_bytes it = drop (unat off) (bufs_bytes bs) \<and>
           unat off' \<le> length (fst b)"
  using assms
proof (induction bs off rule: get_buffer_it.induct)
  case (1 off)
  then show ?case by simp
next
  case (2 b bs off)
  from "2.prems"(2) have len: "length (fst b) < 2 ^ 64" by simp
  show ?case
  proof (cases "buf_size b \<le> off \<and> off \<noteq> 0")
    case True
    then have le: "length (fst b) \<le> unat off" using buf_size_le_iff [OF len] by blast
    have "unat (off - buf_size b) < length (bufs_bytes bs)" and "length (bufs_bytes bs) < 2 ^ 64"
      using "2.prems" le by (simp_all add: unat_minus_buf_size)
    from "2.IH" [OF True this] True le show ?thesis
      by (simp add: unat_minus_buf_size)
  next
    case False
    then have "unat off \<le> length (fst b)" using buf_size_le_iff [OF len, of off] by auto
    with False show ?thesis by (cases b) auto
  qed
qed

lemma pending_correct:
  assumes inv: "stream_inv s"
  shows "\<exists>vs. pending s = Inr vs \<and> concat vs = drop (unat (unacked_size s)) (stream_bytes s) \<and>
           (vs = [] \<longleftrightarrow> unsent s = 0)"
proof (cases "user_buffers s = [] \<or> unsent s = 0")
  case True
  with inv have "length (stream_bytes s) \<le> unat (unacked_size s)" and "unsent s = 0"
    by (auto simp: unsent_0_iff stream_bytes_def stream_inv_def)
  with True show ?thesis by (simp add: pending_def)
next
  case False
  with inv have lt: "unat (unacked_size s) < length (bufs_bytes (user_buffers s))"
    and cap: "length (bufs_bytes (user_buffers s)) < 2 ^ 64"
    by (auto simp: unsent_0_iff stream_inv_def stream_bytes_def)
  from get_buffer_it_correct [OF lt cap] obtain b it off where
    it: "get_buffer_it (user_buffers s) (unacked_size s) = Inr (b # it, off)" and
    eq: "drop (unat off) (fst b) @ bufs_bytes it =
      drop (unat (unacked_size s)) (bufs_bytes (user_buffers s))" by blast
  from False it have "pending s = Inr (drop (unat off) (fst b) # map fst it)"
    by (simp add: pending_def)
  with eq False show ?thesis by (simp add: stream_bytes_def bufs_bytes_def)
qed


section \<open>The abstract byte pipe\<close>

text \<open>
  A sending pipe splits its contents into the bytes in flight (handed on, not acknowledged) and the
  bytes queued behind them.  The interface the connection relies on: pushing appends to the queued
  bytes, the offer is the queued bytes, consuming moves a prefix of them into flight, releasing
  drops a prefix of the flight (and may append new data, as a chunk sender does).
\<close>

locale byte_pipe =
  fixes inv :: "'s \<Rightarrow> bool"
    and flight :: "'s \<Rightarrow> bytes"
    and queued :: "'s \<Rightarrow> bytes"
    and fits :: "bytes \<Rightarrow> 's \<Rightarrow> bool"
    and push :: "bytes \<Rightarrow> 's \<Rightarrow> 's"
    and offer :: "'s \<Rightarrow> bytes list result"
    and consume :: "nat \<Rightarrow> 's \<Rightarrow> 's"
    and release :: "nat \<Rightarrow> 's \<Rightarrow> 's result"
  assumes push_inv: "inv s \<Longrightarrow> fits b s \<Longrightarrow> inv (push b s)"
    and push_flight: "inv s \<Longrightarrow> fits b s \<Longrightarrow> flight (push b s) = flight s"
    and push_queued: "inv s \<Longrightarrow> fits b s \<Longrightarrow> queued (push b s) = queued s @ b"
    and offer_queued: "inv s \<Longrightarrow> \<exists>vs. offer s = Inr vs \<and> concat vs = queued s"
    and consume_inv: "inv s \<Longrightarrow> n \<le> length (queued s) \<Longrightarrow> inv (consume n s)"
    and consume_flight:
      "inv s \<Longrightarrow> n \<le> length (queued s) \<Longrightarrow> flight (consume n s) = flight s @ take n (queued s)"
    and consume_queued: "inv s \<Longrightarrow> n \<le> length (queued s) \<Longrightarrow> queued (consume n s) = drop n (queued s)"
    and release_law: "inv s \<Longrightarrow> n \<le> length (flight s) \<Longrightarrow>
      \<exists>s' new. release n s = Inr s' \<and> inv s' \<and> flight s' = drop n (flight s) \<and> queued s' = queued s @ new"
begin

text \<open>The ledger: everything handed on is acknowledged or in flight, everything accepted is handed
  on or queued, in order.\<close>

lemma push_ledger:
  assumes "inv s" and "fits b s" and "wire = acked @ flight s" and "accepted = wire @ queued s"
  shows "wire = acked @ flight (push b s) \<and> accepted @ b = wire @ queued (push b s)"
  using assms by (simp add: push_flight push_queued)

lemma consume_ledger:
  assumes "inv s" and "n \<le> length (queued s)"
    and "wire = acked @ flight s" and "accepted = wire @ queued s" and "offer s = Inr vs"
  shows "wire @ take n (concat vs) = acked @ flight (consume n s) \<and>
    accepted = (wire @ take n (concat vs)) @ queued (consume n s)"
  using assms offer_queued [of s] by (auto simp: consume_flight consume_queued)

lemma release_ledger:
  assumes "inv s" and "n \<le> length (flight s)"
    and "wire = acked @ flight s" and "accepted = wire @ queued s" and "release n s = Inr s'"
  shows "wire = (acked @ take n (flight s)) @ flight s' \<and>
    (\<exists>new. queued s' = queued s @ new \<and> accepted @ new = wire @ queued s') \<and> inv s'"
  using assms release_law [of s n] by auto

lemma release_total:
  "inv s \<Longrightarrow> n \<le> length (flight s) \<Longrightarrow> \<exists>s'. release n s = Inr s'"
  using release_law by blast

end

definition stream_flight :: "stream \<Rightarrow> bytes" where
  "stream_flight s = take (unat (unacked_size s)) (stream_bytes s)"

definition stream_queued :: "stream \<Rightarrow> bytes" where
  "stream_queued s = drop (unat (unacked_size s)) (stream_bytes s)"

definition stream_fits :: "bytes \<Rightarrow> stream \<Rightarrow> bool" where
  "stream_fits b s \<longleftrightarrow> length (stream_bytes s) + length b + script_total (senders s) < 2 ^ 64"

lemma append_buffer_bytes [simp]:
  "stream_bytes (fst (append_buffer b k s)) = stream_bytes s @ b"
  "unacked_size (fst (append_buffer b k s)) = unacked_size s"
  "senders (fst (append_buffer b k s)) = senders s"
  by (simp_all add: append_buffer_def stream_bytes_def)

lemma wrote_fields [simp]:
  "stream_bytes (wrote n s) = stream_bytes s"
  "senders (wrote n s) = senders s"
  "unacked_size (wrote n s) = unacked_size s + n"
  by (simp_all add: wrote_def stream_bytes_def)

lemma stream_inv_append: "stream_inv s \<Longrightarrow> stream_fits b s \<Longrightarrow> stream_inv (fst (append_buffer b k s))"
  by (auto simp: stream_inv_def stream_fits_def)

lemma length_stream_queued:
  "length (stream_queued s) = length (stream_bytes s) - unat (unacked_size s)"
  by (simp add: stream_queued_def)

lemma length_stream_flight: "stream_inv s \<Longrightarrow> length (stream_flight s) = unat (unacked_size s)"
  by (simp add: stream_flight_def stream_inv_def)

lemma unat_wrote:
  assumes "stream_inv s" and "n \<le> length (stream_queued s)"
  shows "unat (unacked_size s + of_nat n) = unat (unacked_size s) + n"
proof -
  from assms have b: "unat (unacked_size s) + n < 2 ^ 64"
    by (auto simp: stream_inv_def length_stream_queued)
  then have "unat (of_nat n :: u64) = n" by (simp add: unat_of_nat_u64)
  with b show ?thesis by (subst unat_add_lem [THEN iffD1]) simp_all
qed

lemma stream_inv_wrote:
  "stream_inv s \<Longrightarrow> n \<le> length (stream_queued s) \<Longrightarrow> stream_inv (wrote (of_nat n) s)"
  using unat_wrote [of s n] by (auto simp: stream_inv_def length_stream_queued)

lemma acknowledge_release:
  assumes inv: "stream_inv s" and n: "n \<le> length (stream_flight s)"
  shows "\<exists>s' stale new. acknowledge (of_nat n) s = Inr (s', stale) \<and> stream_inv s' \<and>
    stream_flight s' = drop n (stream_flight s) \<and> stream_queued s' = stream_queued s @ bufs_bytes new \<and>
    released (senders s) new (senders s')"
proof -
  from n inv have le: "n \<le> unat (unacked_size s)" by (simp add: length_stream_flight)
  then have lt: "n < 2 ^ 64" using unat_u64_less [of "unacked_size s"] by simp
  then have un: "unat (of_nat n :: u64) = n" by (rule unat_of_nat_u64)
  with le have "of_nat n \<le> unacked_size s" by (simp add: word_le_nat_alt)
  from acknowledge_correct [OF inv this] un obtain s' stale new where
    res: "acknowledge (of_nat n) s = Inr (s', stale)" "stream_inv s'"
      "released (senders s) new (senders s')"
    and bytes: "stream_bytes s' = drop n (stream_bytes s) @ bufs_bytes new"
    and ua: "unat (unacked_size s') = unat (unacked_size s) - n"
    by auto
  from inv le have len: "unat (unacked_size s) \<le> length (stream_bytes s)" by (simp add: stream_inv_def)
  have "stream_flight s' = drop n (stream_flight s)"
    using le len by (simp add: stream_flight_def bytes ua drop_take)
  moreover have "stream_queued s' = stream_queued s @ bufs_bytes new"
    using le len by (simp add: stream_queued_def bytes ua)
  ultimately show ?thesis using res by blast
qed

interpretation sp: byte_pipe stream_inv stream_flight stream_queued stream_fits
  "\<lambda>b s. fst (append_buffer b Owned s)" pending "\<lambda>n s. wrote (of_nat n) s"
  "\<lambda>n s. map_sum id fst (acknowledge (of_nat n) s)"
proof (unfold_locales, goal_cases)
  case (1 s b) then show ?case by (rule stream_inv_append)
next
  case (2 s b) then show ?case by (simp add: stream_flight_def stream_inv_def)
next
  case (3 s b) then show ?case by (simp add: stream_queued_def stream_inv_def)
next
  case (4 s) then show ?case using pending_correct [of s] by (auto simp: stream_queued_def)
next
  case (5 s n) then show ?case by (rule stream_inv_wrote)
next
  case (6 s n)
  then have "unat (unacked_size s + of_nat n) = unat (unacked_size s) + n" by (rule unat_wrote)
  then show ?case by (simp add: stream_flight_def stream_queued_def take_add)
next
  case (7 s n)
  then have "unat (unacked_size s + of_nat n) = unat (unacked_size s) + n" by (rule unat_wrote)
  then show ?case by (simp add: stream_queued_def add.commute)
next
  case (8 s n) then show ?case using acknowledge_release [of s n] by fastforce
qed


section \<open>Histories of a stream\<close>

text \<open>
  A history of one stream: the application pushes buffers and starts chunk senders, the connection
  writes a prefix of the pending bytes, the peer acknowledges.  \<open>wire\<close> is what was handed to ngtcp2
  so far, \<open>acked\<close> what was acknowledged, \<open>accepted\<close> all bytes that entered the queue.  An operation
  outside its contract (more bytes than the address space holds, more written than was offered,
  more acknowledged than is in flight) does not happen and leaves the history as it is.
\<close>

datatype pipe_op = Push bytes | Chunks "bytes list" bool int | Write nat | Ack nat

record ledger =
  l_stream :: stream
  wire :: bytes
  acked :: bytes
  accepted :: bytes

definition ledger_new :: "stream \<Rightarrow> ledger" where
  "ledger_new s = \<lparr>l_stream = s, wire = [], acked = [], accepted = []\<rparr>"

fun ledger_step :: "pipe_op \<Rightarrow> ledger \<Rightarrow> ledger result" where
  "ledger_step (Push b) l =
     (if stream_fits b (l_stream l)
      then Inr (l\<lparr>l_stream := fst (append_buffer b Owned (l_stream l)), accepted := accepted l @ b\<rparr>)
      else Inr l)"
| "ledger_step (Chunks script d k) l =
     (if stream_fits (concat script) (l_stream l) \<and> 1 \<le> k
      then and_then (send_chunks script d k (l_stream l)) (\<lambda>(s', _).
        Inr (l\<lparr>l_stream := s', accepted := accepted l @
               drop (length (stream_bytes (l_stream l))) (stream_bytes s')\<rparr>))
      else Inr l)"
| "ledger_step (Write n) l =
     and_then (pending (l_stream l)) (\<lambda>vs.
       if n \<le> length (concat vs)
       then Inr (l\<lparr>l_stream := wrote (of_nat n) (l_stream l), wire := wire l @ take n (concat vs)\<rparr>)
       else Inr l)"
| "ledger_step (Ack n) l =
     (if n \<le> unat (unacked_size (l_stream l))
      then and_then (acknowledge (of_nat n) (l_stream l)) (\<lambda>(s', _).
        Inr (l\<lparr>l_stream := s', acked := acked l @ take n (stream_bytes (l_stream l)),
               accepted := accepted l @
                 drop (length (stream_bytes (l_stream l)) - n) (stream_bytes s')\<rparr>))
      else Inr l)"

fun ledger_run :: "pipe_op list \<Rightarrow> ledger \<Rightarrow> ledger result" where
  "ledger_run [] l = Inr l"
| "ledger_run (x # xs) l = and_then (ledger_step x l) (ledger_run xs)"

definition balanced :: "ledger \<Rightarrow> bool" where
  "balanced l \<longleftrightarrow> stream_inv (l_stream l) \<and>
     wire l = acked l @ stream_flight (l_stream l) \<and>
     accepted l = wire l @ stream_queued (l_stream l)"

lemma queue_next_chunk_drop_keep: "queue_next_chunk c cs = drop_keep (Chunk c) cs"
  by (simp add: drop_keep_def)

lemma chunk_make_released:
  "\<exists>nb. user_buffers (chunk_make c n s) = user_buffers s @ nb \<and>
     released (senders s) nb (senders (chunk_make c n s)) \<and>
     length nb \<le> n \<and> unacked_size (chunk_make c n s) = unacked_size s"
proof (induction c n s rule: chunk_make.induct)
  case (1 c s)
  then show ?case by (simp add: released_none)
next
  case (2 c n s)
  obtain new cs where q: "queue_next_chunk c (senders s) = (new, cs)" by fastforce
  then have dk: "drop_keep (Chunk c) (senders s) = (new, cs)" by (simp add: queue_next_chunk_drop_keep)
  from drop_keep_cases [OF dk] have "length new \<le> 1" by auto
  moreover from "2.IH" [OF q [symmetric] refl] obtain nb where
    "user_buffers (chunk_make c (Suc n) s) = user_buffers s @ new @ nb"
    "released cs nb (senders (chunk_make c (Suc n) s))" "length nb \<le> n"
    "unacked_size (chunk_make c (Suc n) s) = unacked_size s"
    using q by auto
  ultimately show ?case using released_keep [OF dk] by (intro exI [of _ "new @ nb"]) auto
qed

lemma send_chunks_correct:
  assumes "stream_inv s" and "stream_fits (concat script) s" and "1 \<le> k"
  shows "\<exists>s' e nb. send_chunks script d k s = Inr (s', e) \<and> stream_inv s' \<and>
    user_buffers s' = user_buffers s @ nb \<and> unacked_size s' = unacked_size s \<and> length nb \<le> nat k \<and>
    released (senders s @ [\<lparr>next_chunk = Some script, has_done = d, done_calls = 0, chunks_sent = 0\<rparr>]) nb (senders s')"
proof -
  let ?x = "\<lparr>next_chunk = Some script, has_done = d, done_calls = 0, chunks_sent = 0\<rparr>"
  let ?s = "s\<lparr>senders := senders s @ [?x]\<rparr>"
  let ?s' = "chunk_make (length (senders s)) (nat k) ?s"
  from chunk_make_released [of "length (senders s)" "nat k" ?s] obtain nb where
    r: "user_buffers ?s' = user_buffers s @ nb" "released (senders s @ [?x]) nb (senders ?s')"
    "length nb \<le> nat k" "unacked_size ?s' = unacked_size s"
    by auto
  from released_total [OF r(2)] have "length (bufs_bytes nb) + script_total (senders ?s')
      \<le> script_total (senders s) + length (concat script)"
    by (simp add: script_total_def sender_total_def)
  with assms r show ?thesis
    by (auto simp: send_chunks_def Let_def stream_inv_def stream_fits_def stream_bytes_def)
qed

lemma balanced_new: "balanced (ledger_new (stream_new d c i))"
  by (simp add: balanced_def ledger_new_def stream_new_def stream_inv_def stream_bytes_def
      stream_flight_def stream_queued_def script_total_def)

lemma flight_queued: "stream_flight s @ stream_queued s = stream_bytes s"
  by (simp add: stream_flight_def stream_queued_def)

lemma ledger_step_push:
  assumes "balanced l"
  shows "\<exists>l'. ledger_step (Push b) l = Inr l' \<and> balanced l'"
  using assms sp.push_inv sp.push_ledger
  by (cases "stream_fits b (l_stream l)") (fastforce simp: balanced_def)+

lemma ledger_step_chunks:
  assumes bal: "balanced l"
  shows "\<exists>l'. ledger_step (Chunks script d k) l = Inr l' \<and> balanced l'"
proof (cases "stream_fits (concat script) (l_stream l) \<and> 1 \<le> k")
  case True
  let ?s = "l_stream l"
  from bal have inv: "stream_inv ?s" by (simp add: balanced_def)
  with True send_chunks_correct obtain s' e nb where
    s': "send_chunks script d k ?s = Inr (s', e)" "stream_inv s'"
    "stream_bytes s' = stream_bytes ?s @ bufs_bytes nb" "unacked_size s' = unacked_size ?s"
    by (metis bufs_bytes_simps(3) stream_bytes_def)
  from inv have "unat (unacked_size ?s) \<le> length (stream_bytes ?s)" by (simp add: stream_inv_def)
  with s' have "stream_flight s' = stream_flight ?s" "stream_queued s' = stream_queued ?s @ bufs_bytes nb"
    by (simp_all add: stream_flight_def stream_queued_def)
  with True bal s' show ?thesis by (simp add: balanced_def)
next
  case False
  with bal show ?thesis by auto
qed

lemma ledger_step_write:
  assumes bal: "balanced l"
  shows "\<exists>l'. ledger_step (Write n) l = Inr l' \<and> balanced l'"
proof -
  let ?s = "l_stream l"
  from bal have inv: "stream_inv ?s" by (simp add: balanced_def)
  from sp.offer_queued [OF inv] obtain vs where
    vs: "pending ?s = Inr vs" "concat vs = stream_queued ?s" by blast
  show ?thesis
  proof (cases "n \<le> length (concat vs)")
    case True
    with vs inv have "stream_inv (wrote (of_nat n) ?s)" by (simp add: sp.consume_inv)
    moreover have "wire l @ take n (concat vs) = acked l @ stream_flight (wrote (of_nat n) ?s) \<and>
        accepted l = (wire l @ take n (concat vs)) @ stream_queued (wrote (of_nat n) ?s)"
      using bal True vs by (intro sp.consume_ledger [OF inv]) (simp_all add: balanced_def)
    ultimately show ?thesis
      using True vs by (auto simp: balanced_def simp del: append_assoc)
  next
    case False
    with bal vs show ?thesis by simp
  qed
qed

lemma ledger_step_ack:
  assumes bal: "balanced l"
  shows "\<exists>l'. ledger_step (Ack n) l = Inr l' \<and> balanced l'"
proof (cases "n \<le> unat (unacked_size (l_stream l))")
  case False
  with bal show ?thesis by simp
next
  case True
  let ?s = "l_stream l"
  from bal have inv: "stream_inv ?s" by (simp add: balanced_def)
  with True have n: "n \<le> length (stream_flight ?s)" by (simp add: length_stream_flight)
  from acknowledge_release [OF inv n] obtain s' stale new where
    s': "acknowledge (of_nat n) ?s = Inr (s', stale)" "stream_inv s'"
    and fl: "stream_flight s' = drop n (stream_flight ?s)"
    and qu: "stream_queued s' = stream_queued ?s @ bufs_bytes new" by blast
  have "stream_bytes s' = drop n (stream_bytes ?s) @ bufs_bytes new"
    using fl qu n flight_queued [of s'] by (simp add: flight_queued [of ?s, symmetric])
  then have "drop (length (stream_bytes ?s) - n) (stream_bytes s') = bufs_bytes new"
    by simp
  moreover have "take n (stream_bytes ?s) @ drop n (stream_flight ?s) = stream_flight ?s"
    using n by (simp add: flight_queued [of ?s, symmetric])
  ultimately show ?thesis using True bal s' fl qu by (simp add: balanced_def)
qed

lemma ledger_step_balanced:
  "balanced l \<Longrightarrow> \<exists>l'. ledger_step x l = Inr l' \<and> balanced l'"
  by (cases x) (simp_all only: ledger_step_push ledger_step_chunks ledger_step_write ledger_step_ack)

lemma ledger_run_balanced:
  "balanced l \<Longrightarrow> \<exists>l'. ledger_run xs l = Inr l' \<and> balanced l'"
proof (induction xs arbitrary: l)
  case Nil
  then show ?case by simp
next
  case (Cons x xs)
  from ledger_step_balanced [OF Cons.prems] obtain l' where
    "ledger_step x l = Inr l'" "balanced l'" by blast
  with Cons.IH [of l'] show ?case by simp
qed

text \<open>
  C1: End to end behaviour of a stream's send queue.  Over any history of sends, chunked sends,
  writes and acknowledgements, no operation faults (no assertion, no read past the queue), and the
  bytes handed to ngtcp2 are exactly the acknowledged bytes followed by those in flight; followed by
  the queued bytes they are exactly the bytes the application handed over, in order: nothing is
  lost, duplicated or reordered.
\<close>

theorem stream_delivers_in_order:
  "\<exists>l. ledger_run ops (ledger_new (stream_new data_cb close_cb sid)) = Inr l \<and>
     wire l = acked l @ stream_flight (l_stream l) \<and>
     accepted l = wire l @ stream_queued (l_stream l)"
  using ledger_run_balanced [OF balanced_new] by (fastforce simp: balanced_def)

text \<open>
  C25: \<^verbatim>\<open>Stream::pending\<close> never dereferences the end of the queue and returns buffers whose
  concatenation is exactly the bytes not yet handed to ngtcp2; it returns no buffer precisely when
  nothing is unsent.
\<close>

theorem pending_is_unsent_suffix:
  assumes "stream_inv s"
  shows "\<exists>vs. pending s = Inr vs \<and> concat vs = drop (unat (unacked s)) (stream_bytes s) \<and>
    length (concat vs) = unat (unsent s) \<and> (vs = [] \<longleftrightarrow> unsent s = 0)"
  using pending_correct [OF assms] unsent_eq [OF assms] by (fastforce simp: unacked_def)

text \<open>
  C19: \<^verbatim>\<open>Stream::acknowledge\<close> of at most the unacknowledged bytes succeeds, removes exactly that many
  bytes from the front of the queue (dropping whole buffers and trimming the first remaining one),
  reduces the unacknowledged count by as much, leaves every unsent byte in place, and may only
  append data at the end (the next chunks of chunk senders).
\<close>

theorem acknowledge_drops_prefix:
  assumes "stream_inv s" and "n \<le> unacked_size s"
  shows "\<exists>s' stale new. acknowledge n s = Inr (s', stale) \<and>
    stream_bytes s' = drop (unat n) (stream_bytes s) @ new \<and>
    unat (unacked_size s') = unat (unacked_size s) - unat n \<and>
    stream_queued s' = stream_queued s @ new \<and> stream_inv s'"
proof -
  from assms obtain s' stale new where
    r: "acknowledge n s = Inr (s', stale)" "stream_bytes s' = drop (unat n) (stream_bytes s) @ new"
    "unat (unacked_size s') = unat (unacked_size s) - unat n" "stream_inv s'"
    using acknowledge_correct by blast
  moreover have "unat n \<le> unat (unacked_size s)" "unat (unacked_size s) \<le> length (stream_bytes s)"
    using assms by (simp_all add: word_le_nat_alt stream_inv_def)
  ultimately have "stream_queued s' = stream_queued s @ new" by (simp add: stream_queued_def)
  with r show ?thesis by blast
qed

text \<open>
  Acknowledging more than is in flight is an assertion failure.
\<close>

theorem acknowledge_too_much:
  "acknowledge n s = Inl Assertion_failed \<longleftrightarrow> unacked_size s < n"
  if "stream_inv s"
  using that acknowledge_correct [OF that, of n]
  by (cases "n \<le> unacked_size s") (auto simp: acknowledge_def not_le)

theorem acknowledge_too_much_witness:
  "acknowledge 5 ((stream_new None None 4)\<lparr>unacked_size := 0\<rparr>) = Inl Assertion_failed"
  using acknowledge_too_much [of "(stream_new None None 4)\<lparr>unacked_size := 0\<rparr>" 5]
  by (simp add: stream_new_def stream_inv_def stream_bytes_def bufs_bytes_def script_total_def)


section \<open>Chunked sending\<close>

text \<open>What a sender will still produce: its script up to the first empty chunk.\<close>

definition script_data :: "bytes list \<Rightarrow> bytes" where
  "script_data sc = concat (takeWhile (\<lambda>d. d \<noteq> []) sc)"

definition chunk_rest :: "chunk_sender \<Rightarrow> bytes" where
  "chunk_rest x = (case next_chunk x of None \<Rightarrow> [] | Some sc \<Rightarrow> script_data sc)"

definition chunk_count :: "nat \<Rightarrow> user_buffer list \<Rightarrow> nat" where
  "chunk_count c bs = length (filter (\<lambda>b. snd b = Chunk c) bs)"

text \<open>A sender's \<^verbatim>\<open>done\<close> callback has run exactly once when it is finished, never before.\<close>

definition sender_ok :: "bool \<Rightarrow> chunk_sender \<Rightarrow> bool" where
  "sender_ok d x \<longleftrightarrow> has_done x = d \<and> done_calls x = (if next_chunk x = None \<and> d then 1 else 0)"

lemma chunk_count_simps [simp]:
  "chunk_count c [] = 0"
  "chunk_count c (b # bs) = (if snd b = Chunk c then 1 else 0) + chunk_count c bs"
  "chunk_count c (bs @ bs') = chunk_count c bs + chunk_count c bs'"
  by (simp_all add: chunk_count_def)

lemma drop_keep_count:
  "drop_keep k cs = (new, cs') \<Longrightarrow> chunk_count c new \<le> (if k = Chunk c then 1 else 0)"
  by (auto simp: drop_keep_def queue_next_chunk_def Let_def
      split: keep_alive.splits option.splits if_splits)

lemma ack_loop_count:
  "ack_loop n bs cs = Inr (n', bs', cs', stale) \<Longrightarrow> chunk_count c bs' \<le> chunk_count c bs"
proof (induction n bs cs rule: ack_loop.induct)
  case (2 n b bs cs)
  show ?case
  proof (cases "buf_size b \<le> n \<and> n \<noteq> 0")
    case True
    obtain new cs1 where dk: "drop_keep (snd b) cs = (new, cs1)" by fastforce
    with "2.IH" [OF True dk [symmetric] refl] "2.prems" True
    have "chunk_count c bs' \<le> chunk_count c (bs @ new)" by auto
    with drop_keep_count [OF dk, of c] show ?thesis by (auto split: if_splits)
  next
    case False
    with "2.prems" show ?thesis by auto
  qed
qed (simp split: if_splits)

lemma acknowledge_count:
  "acknowledge n s = Inr (s', stale) \<Longrightarrow>
   chunk_count c (user_buffers s') \<le> chunk_count c (user_buffers s)"
  by (auto simp: acknowledge_def Let_def dest!: ack_loop_count [of _ _ _ _ _ _ _ c]
      split: if_splits sum.splits list.splits)

lemma drop_keep_single:
  assumes "drop_keep k [x] = (new, cs')" and "sender_total x < 2 ^ 64" and "sender_ok d x"
  shows "\<exists>x'. cs' = [x'] \<and> bufs_bytes new @ chunk_rest x' = chunk_rest x \<and>
    sender_total x' \<le> sender_total x \<and> sender_ok d x'"
proof (cases "\<exists>script. k = Chunk 0 \<and> next_chunk x = Some script")
  case True
  then obtain script where "k = Chunk 0" "next_chunk x = Some script" by blast
  with assms show ?thesis
    by (cases script) (auto simp: drop_keep_def queue_next_chunk_def sender_total_def chunk_rest_def
        script_data_def sender_ok_def of_nat_eq_0_u64 split: if_splits)
next
  case False
  with assms(1) have "new = []" "cs' = [x]"
    by (auto simp: drop_keep_def queue_next_chunk_def Suc_le_eq Let_def
        split: keep_alive.splits if_splits option.splits)
  with assms show ?thesis by simp
qed

lemma released_single:
  assumes "released cs nb cs'" and "cs = [x]" and "sender_total x < 2 ^ 64" and "sender_ok d x"
  shows "\<exists>x'. cs' = [x'] \<and> bufs_bytes nb @ chunk_rest x' = chunk_rest x \<and> sender_ok d x'"
  using assms
proof (induction arbitrary: x rule: released.induct)
  case (released_none cs)
  then show ?case by simp
next
  case (released_keep k cs new cs1 nb cs2)
  then obtain x1 where x1: "cs1 = [x1]" "bufs_bytes new @ chunk_rest x1 = chunk_rest x"
    "sender_total x1 \<le> sender_total x" "sender_ok d x1"
    using drop_keep_single [of k x new cs1 d] by auto
  with released_keep.prems have "sender_total x1 < 2 ^ 64" by simp
  from released_keep.IH [OF x1(1) this x1(4)] x1(2) show ?case by force
qed

text \<open>The invariant of a stream that was given one chunk sender and nothing else.\<close>

definition chunk_ledger :: "bytes list \<Rightarrow> bool \<Rightarrow> nat \<Rightarrow> ledger \<Rightarrow> bool" where
  "chunk_ledger script d k l \<longleftrightarrow> balanced l \<and> chunk_count 0 (user_buffers (l_stream l)) \<le> k \<and>
     (\<exists>x. senders (l_stream l) = [x] \<and> sender_ok d x \<and> accepted l @ chunk_rest x = script_data script)"

definition transport_op :: "pipe_op \<Rightarrow> bool" where
  "transport_op x \<longleftrightarrow> (case x of Write _ \<Rightarrow> True | Ack _ \<Rightarrow> True | _ \<Rightarrow> False)"

lemma stream_inv_sender: "stream_inv s \<Longrightarrow> senders s = [x] \<Longrightarrow> sender_total x < 2 ^ 64"
  by (simp add: stream_inv_def script_total_def)

lemma chunk_ledger_ack:
  assumes cl: "chunk_ledger script d k l" and step: "ledger_step (Ack n) l = Inr l'"
  shows "chunk_ledger script d k l'"
proof (cases "n \<le> unat (unacked_size (l_stream l))")
  case False
  with assms show ?thesis by simp
next
  case True
  let ?s = "l_stream l"
  from cl have bal: "balanced l" and inv: "stream_inv ?s"
    by (simp_all add: chunk_ledger_def balanced_def)
  from cl obtain x where x: "senders ?s = [x]" "sender_ok d x"
    "accepted l @ chunk_rest x = script_data script" by (auto simp: chunk_ledger_def)
  from True inv have n: "n \<le> length (stream_flight ?s)" by (simp add: length_stream_flight)
  from acknowledge_release [OF inv n] obtain s' stale nb where
    s': "acknowledge (of_nat n) ?s = Inr (s', stale)"
    and fl: "stream_flight s' = drop n (stream_flight ?s)"
    and qu: "stream_queued s' = stream_queued ?s @ bufs_bytes nb"
    and rel: "released (senders ?s) nb (senders s')" by blast
  from released_single [OF rel x(1) stream_inv_sender [OF inv x(1)] x(2)] obtain x' where
    x': "senders s' = [x']" "bufs_bytes nb @ chunk_rest x' = chunk_rest x" "sender_ok d x'" by blast
  have "stream_bytes s' = drop n (stream_bytes ?s) @ bufs_bytes nb"
    using fl qu n flight_queued [of s'] by (simp add: flight_queued [of ?s, symmetric])
  then have acc: "accepted l' = accepted l @ bufs_bytes nb" and l': "l_stream l' = s'"
    using step True s' by auto
  have "balanced l'" using ledger_step_ack [OF bal, of n] step by auto
  moreover have "chunk_count 0 (user_buffers s') \<le> k"
    using acknowledge_count [OF s', of 0] cl by (simp add: chunk_ledger_def)
  ultimately show ?thesis
    using x x' acc l' by (auto simp: chunk_ledger_def)
qed

lemma chunk_ledger_write:
  assumes cl: "chunk_ledger script d k l" and step: "ledger_step (Write n) l = Inr l'"
  shows "chunk_ledger script d k l'"
proof -
  from cl have bal: "balanced l" by (simp add: chunk_ledger_def)
  have "balanced l'" using ledger_step_write [OF bal, of n] step by auto
  with cl step show ?thesis
    by (auto simp: chunk_ledger_def wrote_def elim!: and_then_InrE split: if_splits)
qed

lemma chunk_ledger_run:
  "chunk_ledger script d k l \<Longrightarrow> list_all transport_op ops \<Longrightarrow>
   \<exists>l'. ledger_run ops l = Inr l' \<and> chunk_ledger script d k l'"
proof (induction ops arbitrary: l)
  case Nil
  then show ?case by simp
next
  case (Cons x xs)
  from Cons.prems(1) have "balanced l" by (simp add: chunk_ledger_def)
  from ledger_step_balanced [OF this] obtain l' where l': "ledger_step x l = Inr l'" by blast
  from Cons.prems(2) have "(\<exists>n. x = Write n) \<or> (\<exists>n. x = Ack n)"
    by (cases x) (auto simp: transport_op_def)
  with l' Cons.prems(1) have "chunk_ledger script d k l'"
    using chunk_ledger_ack chunk_ledger_write by blast
  with Cons.IH [of l'] Cons.prems(2) l' show ?case by simp
qed

lemma chunk_ledger_start:
  assumes "length (concat script) < 2 ^ 64" and "1 \<le> k"
  shows "\<exists>l. ledger_step (Chunks script d k) (ledger_new (stream_new data_cb close_cb sid)) = Inr l \<and>
    chunk_ledger script d (nat k) l"
proof -
  let ?s = "stream_new data_cb close_cb sid"
  have inv: "stream_inv ?s" and fits: "stream_fits (concat script) ?s"
    and emp: "stream_bytes ?s = []" "senders ?s = []" "user_buffers ?s = []"
    using assms(1)
    by (simp_all add: stream_new_def stream_inv_def stream_bytes_def script_total_def stream_fits_def)
  from send_chunks_correct [OF inv fits assms(2), of d] emp obtain s' e nb where
    s': "send_chunks script d k ?s = Inr (s', e)" "user_buffers s' = nb" "length nb \<le> nat k"
    "released [\<lparr>next_chunk = Some script, has_done = d, done_calls = 0, chunks_sent = 0\<rparr>] nb (senders s')"
    by auto
  from released_single [OF s'(4) refl, of d] assms(1) obtain x where
    x: "senders s' = [x]" "bufs_bytes nb @ chunk_rest x = script_data script" "sender_ok d x"
    by (auto simp: sender_total_def sender_ok_def chunk_rest_def)
  have "chunk_count 0 nb \<le> nat k"
    using s'(3) length_filter_le [of _ nb] order_trans unfolding chunk_count_def by blast
  moreover have step: "ledger_step (Chunks script d k) (ledger_new ?s) =
      Inr \<lparr>l_stream = s', wire = [], acked = [], accepted = stream_bytes s'\<rparr>"
    using s' fits assms(2) emp by (simp add: ledger_new_def)
  moreover have "balanced \<lparr>l_stream = s', wire = [], acked = [], accepted = stream_bytes s'\<rparr>"
    using ledger_step_chunks [OF balanced_new, of script d k data_cb close_cb sid] step by auto
  ultimately show ?thesis
    using x s' by (auto simp: chunk_ledger_def stream_bytes_def)
qed

text \<open>
  C26: \<^verbatim>\<open>Stream::send_chunks\<close> transmits the chunks in order.  After any interleaving of writes and
  acknowledgements, the bytes accepted into the queue followed by what the chunk callback still has
  to give are exactly the chunks up to the first empty one, so that once the sender is finished all
  of them, and nothing else, went into the stream.
\<close>

theorem send_chunks_in_order:
  assumes "length (concat script) < 2 ^ 64" and "1 \<le> k" and "list_all transport_op ops"
  shows "\<exists>l x. ledger_run (Chunks script d k # ops) (ledger_new (stream_new data_cb close_cb sid)) = Inr l \<and>
    senders (l_stream l) = [x] \<and> accepted l @ chunk_rest x = script_data script"
  using chunk_ledger_start [OF assms(1,2), of d data_cb close_cb sid] chunk_ledger_run [OF _ assms(3)]
  by (fastforce simp: chunk_ledger_def)

theorem send_chunks_in_order_witness:
  "\<exists>l x. ledger_run (Chunks [[1, 2], [3], [4, 5]] True 2 # [Write 2, Ack 2])
     (ledger_new (stream_new None None 0)) = Inr l \<and>
     senders (l_stream l) = [x] \<and> accepted l @ chunk_rest x = script_data [[1, 2], [3], [4, 5]]"
  by (rule send_chunks_in_order) (simp_all add: transport_op_def)

text \<open>
  At most \<open>simultaneous\<close> chunks of a chunk sender are in the queue at any time, and its \<^verbatim>\<open>done\<close>
  callback runs exactly once, at the moment the chunk callback returns an empty chunk, and never
  before.
\<close>

theorem send_chunks_bounded:
  assumes "length (concat script) < 2 ^ 64" and "1 \<le> k" and "list_all transport_op ops"
  shows "\<exists>l x. ledger_run (Chunks script d k # ops) (ledger_new (stream_new data_cb close_cb sid)) = Inr l \<and>
    senders (l_stream l) = [x] \<and> chunk_count 0 (user_buffers (l_stream l)) \<le> nat k \<and>
    done_calls x = (if next_chunk x = None \<and> d then 1 else 0)"
  using chunk_ledger_start [OF assms(1,2), of d data_cb close_cb sid] chunk_ledger_run [OF _ assms(3)]
  by (fastforce simp: chunk_ledger_def sender_ok_def)

theorem send_chunks_bounded_witness:
  "\<exists>l x. ledger_run (Chunks [[1, 2], [3], [4, 5]] True 2 # [Write 2, Ack 2])
     (ledger_new (stream_new None None 0)) = Inr l \<and>
     senders (l_stream l) = [x] \<and> chunk_count 0 (user_buffers (l_stream l)) \<le> nat 2 \<and>
     done_calls x = (if next_chunk x = None \<and> True then 1 else 0)"
  by (rule send_chunks_bounded) (simp_all add: transport_op_def)


section \<open>Closing\<close>

text \<open>
  What \<^verbatim>\<open>Connection::stream_closed\<close> does to the stream object: mark it closed and call the close
  callback unless the stream was closing already.
\<close>

definition stream_mark_closed :: "u64 \<Rightarrow> stream \<Rightarrow> stream \<times> close_call list" where
  "stream_mark_closed code s =
     (s\<lparr>is_closing := True, is_shutdown := True\<rparr>,
      if is_closing s then [] else [Close_call (close_callback s) code])"

text \<open>
  The life of a stream object as seen by its close callback: the application closes it, ngtcp2
  reports it closed or reset, the object is destroyed; \<open>None\<close> is the destroyed object and the list
  collects the calls of the close callback.
\<close>

inductive lifecycle :: "stream option \<times> close_call list \<Rightarrow> stream option \<times> close_call list \<Rightarrow> bool" where
  app_close: "lifecycle (Some s, cs) (Some (fst (stream_close code s)), cs)"
| peer_close: "stream_mark_closed code s = (s', new) \<Longrightarrow> lifecycle (Some s, cs) (Some s', cs @ new)"
| destroyed: "stream_destroy s = Inr new \<Longrightarrow> lifecycle (Some s, cs) (None, cs @ new)"

inductive_cases lifecycle_SomeE: "lifecycle (Some s, cs) y"
inductive_cases lifecycle_NoneE [elim!]: "lifecycle (None, cs) y"

definition closing_inv :: "stream option \<times> close_call list \<Rightarrow> bool" where
  "closing_inv x \<longleftrightarrow> length (snd x) \<le> 1 \<and>
     (\<forall>s. fst x = Some s \<longrightarrow> is_closing s = is_shutdown s \<and> (snd x \<noteq> [] \<longrightarrow> is_closing s))"

lemma stream_close_flags [simp]:
  "is_closing s = is_shutdown s \<Longrightarrow> is_closing (fst (stream_close code s))"
  "is_closing s = is_shutdown s \<Longrightarrow> is_shutdown (fst (stream_close code s))"
  by (auto simp: stream_close_def Let_def)

lemma stream_destroy_calls:
  "stream_destroy s = Inr new \<Longrightarrow>
   new = (if is_closing s then [] else [Close_call (close_callback s) STREAM_ERROR_CONNECTION_EXPIRED])"
  by (auto simp: stream_destroy_def split: sum.splits if_splits)

lemma lifecycle_inv: "lifecycle x y \<Longrightarrow> closing_inv x \<Longrightarrow> closing_inv y"
  by (induction rule: lifecycle.induct)
    (auto simp: closing_inv_def stream_mark_closed_def dest!: stream_destroy_calls split: if_splits)

lemma lifecycle_star_inv: "lifecycle\<^sup>*\<^sup>* x y \<Longrightarrow> closing_inv x \<Longrightarrow> closing_inv y"
  by (induction rule: rtranclp_induct) (auto intro: lifecycle_inv)

definition quiet :: "close_call list \<Rightarrow> stream option \<times> close_call list \<Rightarrow> bool" where
  "quiet cs x \<longleftrightarrow> snd x = cs \<and> (\<forall>s. fst x = Some s \<longrightarrow> is_closing s \<and> is_shutdown s)"

lemma lifecycle_quiet: "lifecycle x y \<Longrightarrow> quiet cs x \<Longrightarrow> quiet cs y"
  by (induction rule: lifecycle.induct)
    (auto simp: quiet_def stream_mark_closed_def dest!: stream_destroy_calls)

lemma lifecycle_star_quiet: "lifecycle\<^sup>*\<^sup>* x y \<Longrightarrow> quiet cs x \<Longrightarrow> quiet cs y"
  by (induction rule: rtranclp_induct) (auto intro: lifecycle_quiet)

text \<open>
  Whatever happens to a stream (closed by the application, closed or reset by the peer, closed
  several times, destroyed), its close callback is called at most once.
\<close>

theorem close_callback_at_most_once:
  assumes "lifecycle\<^sup>*\<^sup>* (Some (stream_new data_cb close_cb sid), []) (x, calls)"
  shows "length calls \<le> 1"
  using lifecycle_star_inv [OF assms] by (simp add: closing_inv_def stream_new_def)

theorem close_callback_at_most_once_witness:
  "length [Close_call Default_close 7] \<le> 1"
proof (rule close_callback_at_most_once)
  let ?s = "stream_new None None 4"
  have "lifecycle (Some ?s, []) (Some (fst (stream_mark_closed 7 ?s)), [] @ snd (stream_mark_closed 7 ?s))"
    by (rule lifecycle.peer_close) simp
  moreover have "[] @ snd (stream_mark_closed 7 ?s) = [Close_call Default_close 7]"
    by (simp add: stream_mark_closed_def stream_new_def)
  ultimately show "lifecycle\<^sup>*\<^sup>* (Some ?s, [])
      (Some (fst (stream_mark_closed 7 ?s)), [Close_call Default_close 7])"
    by (metis r_into_rtranclp)
qed

text \<open>
  Once the application has closed a stream itself, no later event (a second close, the peer's
  close or reset, destruction) makes a close callback: \<^verbatim>\<open>Stream::close\<close> sets the flag that
  \<^verbatim>\<open>stream_closed\<close> and the destructor test before they call it.
\<close>

theorem application_close_is_silent:
  assumes "is_closing s = is_shutdown s"
    and "lifecycle\<^sup>*\<^sup>* (Some (fst (stream_close code s)), calls) (x, calls')"
  shows "calls' = calls"
  using lifecycle_star_quiet [OF assms(2), of calls] assms(1) by (simp add: quiet_def)

theorem application_close_is_silent_witness:
  "snd (stream_mark_closed 7 (fst (stream_close 0 (stream_new None (Some 1) 4)))) = []"
proof -
  let ?s = "stream_new None (Some 1) 4"
  let ?c = "fst (stream_close 0 ?s)"
  have "lifecycle (Some ?c, []) (Some (fst (stream_mark_closed 7 ?c)), [] @ snd (stream_mark_closed 7 ?c))"
    by (rule lifecycle.peer_close) simp
  then have "lifecycle\<^sup>*\<^sup>* (Some ?c, []) (Some (fst (stream_mark_closed 7 ?c)), [] @ snd (stream_mark_closed 7 ?c))"
    by (rule r_into_rtranclp)
  from application_close_is_silent [OF _ this] show ?thesis by (simp add: stream_new_def)
qed

text \<open>
  A local close shuts the ngtcp2 stream down exactly once, however often it is repeated, drops
  the data callback so that no further data reaches the application, and always wakes the
  connection.
\<close>

theorem stream_close_effects:
  "stream_close code s =
     (if is_closing s \<or> is_shutdown s
      then ((if is_shutdown s then s\<lparr>data_callback := None\<rparr> else s), [Io_ready])
      else (s\<lparr>is_closing := True, is_shutdown := True, data_callback := None\<rparr>,
            [Shutdown_stream (stream_id s) code, Io_ready])) \<and>
   (is_closing s = is_shutdown s \<longrightarrow>
      snd (stream_close code' (fst (stream_close code s))) = [Io_ready])"
  by (auto simp: stream_close_def Let_def)

theorem stream_close_effects_witness:
  "snd (stream_close 9 (fst (stream_close 5 (stream_new None None 4)))) = [Io_ready]"
  by (rule stream_close_effects [THEN conjunct2, rule_format]) (simp add: stream_new_def)








lemma ack_loop_all_plain:
  "list_all (\<lambda>b. fst b \<noteq> [] \<and> snd b \<in> {No_keep, Owned}) bs \<Longrightarrow> length (bufs_bytes bs) < 2 ^ 64 \<Longrightarrow>
   ack_loop (of_nat (length (bufs_bytes bs))) bs cs = Inr (0, [], cs, True)"
proof (induction bs)
  case Nil
  then show ?case by simp
next
  case (Cons b bs)
  let ?n = "of_nat (length (bufs_bytes (b # bs))) :: u64"
  from Cons.prems have len: "length (fst b) < 2 ^ 64" and pos: "0 < length (fst b)"
    by auto
  have un: "unat ?n = length (bufs_bytes (b # bs))"
    by (rule unat_of_nat_u64 [OF Cons.prems(2)])
  have le: "buf_size b \<le> ?n" using buf_size_le_iff [OF len, of ?n] un by simp
  moreover have nz: "?n \<noteq> 0" using un pos by (auto simp flip: unat_eq_zero)
  moreover have "?n - buf_size b = of_nat (length (bufs_bytes bs))" by (simp add: buf_size_def)
  moreover have "drop_keep (snd b) cs = ([], cs)"
    using Cons.prems by (auto simp: drop_keep_def)
  ultimately have "ack_loop ?n (b # bs) cs = ack_loop (of_nat (length (bufs_bytes bs))) bs cs"
    by simp
  with Cons show ?case by simp
qed

text \<open>
  When an acknowledgement empties the queue, the loop condition of \<^verbatim>\<open>Stream::acknowledge\<close> still
  evaluates \<^verbatim>\<open>user_buffers.front()\<close> once more, on the empty queue.
\<close>

theorem acknowledge_all_reads_empty_front:
  assumes "stream_inv s" and "list_all (\<lambda>b. fst b \<noteq> [] \<and> snd b \<in> {No_keep, Owned}) (user_buffers s)"
    and "unsent s = 0"
  shows "\<exists>s'. acknowledge (unacked_size s) s = Inr (s', True) \<and> user_buffers s' = []"
proof -
  from assms(1,3) have "unat (unacked_size s) = length (bufs_bytes (user_buffers s))"
    by (simp add: unsent_0_iff stream_bytes_def)
  then have eq: "unacked_size s = of_nat (length (bufs_bytes (user_buffers s)))"
    by (metis of_nat_u64_unat)
  from assms(1) have "length (bufs_bytes (user_buffers s)) < 2 ^ 64"
    by (simp add: stream_inv_def stream_bytes_def)
  from ack_loop_all_plain [OF assms(2) this, of "senders s"] show ?thesis
    by (simp add: acknowledge_def eq)
qed

definition sample_sent :: stream where
  "sample_sent = wrote 3 (fst (append_buffer [1, 2, 3] Owned (stream_new None None 0)))"

theorem acknowledge_all_reads_empty_front_witness:
  "\<exists>s'. acknowledge (unacked_size sample_sent) sample_sent = Inr (s', True) \<and> user_buffers s' = []"
  by (rule acknowledge_all_reads_empty_front)
    (simp_all add: sample_sent_def stream_inv_def stream_new_def script_total_def unsent_def
      stream_size_def unacked_def buf_size_def append_buffer_def wrote_def stream_bytes_def)

theorem pending_is_unsent_suffix_witness:
  "\<exists>vs. pending sample_sent = Inr vs \<and>
     concat vs = drop (unat (unacked sample_sent)) (stream_bytes sample_sent) \<and>
     length (concat vs) = unat (unsent sample_sent) \<and> (vs = [] \<longleftrightarrow> unsent sample_sent = 0)"
  by (rule pending_is_unsent_suffix)
    (simp add: sample_sent_def stream_inv_def stream_new_def script_total_def stream_bytes_def
      append_buffer_def wrote_def)

theorem acknowledge_drops_prefix_witness:
  "\<exists>s' stale new. acknowledge 2 sample_sent = Inr (s', stale) \<and>
    stream_bytes s' = drop (unat (2 :: u64)) (stream_bytes sample_sent) @ new \<and>
    unat (unacked_size s') = unat (unacked_size sample_sent) - unat (2 :: u64) \<and>
    stream_queued s' = stream_queued sample_sent @ new \<and> stream_inv s'"
  by (rule acknowledge_drops_prefix)
    (simp_all add: sample_sent_def stream_inv_def stream_new_def script_total_def stream_bytes_def
      append_buffer_def wrote_def)

end
