(* ===== verification/Quic_Stream_Spec.thy ===== *)
theory Quic_Stream_Spec
  imports Quic_Stream
begin

text \<open>
  What a stream promises, without its buffers, counters and chunk senders: an abstract pipe of three byte
  strings that the stream refines, and the progress of a chunked send once the transport keeps writing
  and acknowledging.
\<close>

section \<open>The abstract pipe\<close>

record pipe =
  p_acked :: bytes
  p_flight :: bytes
  p_queued :: bytes

text \<open>Operations outside their contract leave the pipe alone, as in the histories of a stream.\<close>

fun pipe_step :: "pipe_op \<Rightarrow> pipe \<Rightarrow> pipe" where
  "pipe_step (Push b) p = p\<lparr>p_queued := p_queued p @ b\<rparr>"
| "pipe_step (Chunks script d k) p = p"
| "pipe_step (Write n) p =
     (if n \<le> length (p_queued p)
      then p\<lparr>p_flight := p_flight p @ take n (p_queued p), p_queued := drop n (p_queued p)\<rparr> else p)"
| "pipe_step (Ack n) p =
     (if n \<le> length (p_flight p)
      then p\<lparr>p_acked := p_acked p @ take n (p_flight p), p_flight := drop n (p_flight p)\<rparr> else p)"

definition pipe_run :: "pipe_op list \<Rightarrow> pipe \<Rightarrow> pipe" where
  "pipe_run ops p = fold pipe_step ops p"

definition pipe_empty :: pipe where
  "pipe_empty = \<lparr>p_acked = [], p_flight = [], p_queued = []\<rparr>"

definition pipe_of :: "ledger \<Rightarrow> pipe" where
  "pipe_of l = \<lparr>p_acked = acked l, p_flight = stream_flight (l_stream l), p_queued = stream_queued (l_stream l)\<rparr>"

fun pushed_size :: "pipe_op \<Rightarrow> nat" where
  "pushed_size (Push b) = length b"
| "pushed_size _ = 0"

fun is_chunks :: "pipe_op \<Rightarrow> bool" where
  "is_chunks (Chunks _ _ _) = True"
| "is_chunks _ = False"

definition total_pushed :: "pipe_op list \<Rightarrow> nat" where
  "total_pushed ops = sum_list (map pushed_size ops)"

text \<open>The simulation: one step of the stream is one step of the pipe.\<close>

definition plain :: "nat \<Rightarrow> ledger \<Rightarrow> bool" where
  "plain room l \<longleftrightarrow> balanced l \<and> senders (l_stream l) = [] \<and> length (stream_bytes (l_stream l)) + room < 2 ^ 64"

lemma released_no_senders: "released cs nb cs' \<Longrightarrow> cs = [] \<Longrightarrow> nb = [] \<and> cs' = []"
  by (induction rule: released.induct)
    (auto simp: drop_keep_def queue_next_chunk_def split: keep_alive.splits if_splits)

lemma plain_push:
  assumes "plain (length b + room) l"
  shows "\<exists>l'. ledger_step (Push b) l = Inr l' \<and> plain room l' \<and>
    pipe_of l' = pipe_step (Push b) (pipe_of l)"
proof -
  let ?s = "l_stream l"
  from assms have fits: "stream_fits b ?s" and inv: "stream_inv ?s"
    by (simp_all add: plain_def stream_fits_def script_total_def balanced_def)
  obtain l' where l': "ledger_step (Push b) l = Inr l'" "balanced l'"
    using ledger_step_push assms unfolding plain_def by blast
  with fits have s': "l_stream l' = fst (append_buffer b Owned ?s)" "acked l' = acked l" by auto
  with assms l' have "plain room l'" by (simp add: plain_def)
  moreover have "pipe_of l' = pipe_step (Push b) (pipe_of l)"
    using sp.push_flight [OF inv fits] sp.push_queued [OF inv fits] by (simp add: s' pipe_of_def)
  ultimately show ?thesis using l' by blast
qed

lemma plain_write:
  assumes "plain room l"
  shows "\<exists>l'. ledger_step (Write n) l = Inr l' \<and> plain room l' \<and>
    pipe_of l' = pipe_step (Write n) (pipe_of l)"
proof -
  let ?s = "l_stream l"
  from assms have inv: "stream_inv ?s" and bal: "balanced l" by (simp_all add: plain_def balanced_def)
  from sp.offer_queued [OF inv] obtain vs where vs: "pending ?s = Inr vs" "concat vs = stream_queued ?s" by blast
  obtain l' where l': "ledger_step (Write n) l = Inr l'" "balanced l'" using ledger_step_write [OF bal] by blast
  show ?thesis
  proof (cases "n \<le> length (stream_queued ?s)")
    case True
    with l' vs have s': "l_stream l' = wrote (of_nat n) ?s" "acked l' = acked l" by auto
    with assms l' have "plain room l'" by (simp add: plain_def)
    moreover have "pipe_of l' = pipe_step (Write n) (pipe_of l)"
      using True sp.consume_flight [OF inv True] sp.consume_queued [OF inv True] by (simp add: s' pipe_of_def)
    ultimately show ?thesis using l' by blast
  next
    case False
    with l' vs assms show ?thesis by (auto simp: pipe_of_def)
  qed
qed

lemma plain_ack:
  assumes "plain room l"
  shows "\<exists>l'. ledger_step (Ack n) l = Inr l' \<and> plain room l' \<and>
    pipe_of l' = pipe_step (Ack n) (pipe_of l)"
proof -
  let ?s = "l_stream l"
  from assms have inv: "stream_inv ?s" and bal: "balanced l" by (simp_all add: plain_def balanced_def)
  show ?thesis
  proof (cases "n \<le> length (stream_flight ?s)")
    case False
    with inv assms show ?thesis by (simp add: length_stream_flight pipe_of_def)
  next
    case True
    from acknowledge_release [OF inv True] obtain s' stale nb where
      s': "acknowledge (of_nat n) ?s = Inr (s', stale)" "stream_flight s' = drop n (stream_flight ?s)"
        "stream_queued s' = stream_queued ?s @ bufs_bytes nb" and rel: "released (senders ?s) nb (senders s')" by blast
    from rel assms released_no_senders have nb: "nb = []" "senders s' = []" by (auto simp: plain_def)
    obtain l' where l': "ledger_step (Ack n) l = Inr l'" "balanced l'" using ledger_step_ack [OF bal] by blast
    with True inv s' have ls: "l_stream l' = s'" "acked l' = acked l @ take n (stream_bytes ?s)"
      by (auto simp: length_stream_flight)
    have "take n (stream_bytes ?s) = take n (stream_flight ?s)" using True by (simp add: flight_queued [symmetric])
    have "length (stream_bytes s') \<le> length (stream_bytes ?s)"
      using s' nb by (simp add: flight_queued [symmetric])
    with assms l' nb ls have "plain room l'" by (simp add: plain_def)
    with \<open>take n (stream_bytes ?s) = _\<close> l' ls s' nb True show ?thesis by (simp add: pipe_of_def)
  qed
qed

lemma plain_run:
  assumes "plain (total_pushed ops) l" and "\<not> list_ex is_chunks ops"
  shows "\<exists>l'. ledger_run ops l = Inr l' \<and> pipe_of l' = pipe_run ops (pipe_of l)"
  using assms
proof (induction ops arbitrary: l)
  case (Cons x ops)
  have "\<exists>l'. ledger_step x l = Inr l' \<and> plain (total_pushed ops) l' \<and>
      pipe_of l' = pipe_step x (pipe_of l)"
    using Cons.prems plain_push plain_write plain_ack by (cases x) (simp_all add: total_pushed_def)
  then obtain l' where l': "ledger_step x l = Inr l'" "plain (total_pushed ops) l'"
    "pipe_of l' = pipe_step x (pipe_of l)" by blast
  from Cons.IH [OF l'(2)] Cons.prems(2) l' show ?case by (simp add: pipe_run_def)
qed (simp add: pipe_run_def)

text \<open>
  C20: A stream refines the abstract pipe: over any history of plain sends (no chunk senders), writes and
  acknowledgements of a fresh stream whose data is less than \<open>2 ^ 64\<close> bytes in all, no operation fails, and what was
  acknowledged, with the deque of buffers and its wrapping 64-bit count, stands for exactly the three byte
  strings the pipe has after the same operations.
\<close>

theorem stream_refines_pipe:
  assumes "total_pushed ops < 2 ^ 64" and "\<not> list_ex is_chunks ops"
  shows "\<exists>l. ledger_run ops (ledger_new (stream_new data_cb close_cb sid)) = Inr l \<and>
    pipe_of l = pipe_run ops pipe_empty"
proof -
  let ?l = "ledger_new (stream_new data_cb close_cb sid)"
  have "plain (total_pushed ops) ?l"
    using assms(1) balanced_new by (simp add: plain_def) (simp add: ledger_new_def stream_new_def stream_bytes_def)
  moreover have "pipe_of ?l = pipe_empty"
    by (simp add: pipe_of_def pipe_empty_def ledger_new_def stream_new_def stream_flight_def stream_queued_def stream_bytes_def)
  ultimately show ?thesis using plain_run [OF _ assms(2)] by metis
qed

theorem stream_refines_pipe_witness:
  "\<exists>l. ledger_run [Push [1, 2], Push [3, 4, 5], Write 3, Ack 2, Write 9] (ledger_new (stream_new None None 0)) = Inr l \<and>
    pipe_of l = \<lparr>p_acked = [1, 2], p_flight = [3], p_queued = [4, 5]\<rparr>"
  using stream_refines_pipe [of "[Push [1, 2], Push [3, 4, 5], Write 3, Ack 2, Write 9]" None None 0]
  by (simp add: total_pushed_def pipe_run_def pipe_empty_def)

section \<open>A chunked send completes\<close>

text \<open>
  One round of a transport that makes progress: everything queued is written and everything in flight
  is acknowledged.
\<close>

definition drain_round :: "ledger \<Rightarrow> ledger result" where
  "drain_round l = ledger_run [Write (length (stream_queued (l_stream l))), Ack (length (stream_bytes (l_stream l)))] l"

fun drain_rounds :: "nat \<Rightarrow> ledger \<Rightarrow> ledger result" where
  "drain_rounds 0 l = Inr l"
| "drain_rounds (Suc n) l = and_then (drain_round l) (drain_rounds n)"

text \<open>How many more times the sender can be asked before it is finished.\<close>

definition chunks_left :: "chunk_sender \<Rightarrow> nat" where
  "chunks_left x = (case next_chunk x of None \<Rightarrow> 0 | Some sc \<Rightarrow> Suc (length sc))"

definition all_chunks :: "user_buffer list \<Rightarrow> bool" where
  "all_chunks bs \<longleftrightarrow> list_all (\<lambda>b. snd b = Chunk 0 \<and> fst b \<noteq> []) bs"

lemma all_chunks_simps [simp]:
  "all_chunks []" "all_chunks (b # bs) \<longleftrightarrow> snd b = Chunk 0 \<and> fst b \<noteq> [] \<and> all_chunks bs"
  "all_chunks (bs @ bs') \<longleftrightarrow> all_chunks bs \<and> all_chunks bs'"
  by (simp_all add: all_chunks_def)

lemma drop_chunk:
  assumes "drop_keep (Chunk 0) [x] = (new, cs)" and "sender_total x < 2 ^ 64"
  shows "\<exists>x'. cs = [x'] \<and> all_chunks new \<and> (chunks_left x' = 0 \<or> new \<noteq> []) \<and>
    (chunks_left x = 0 \<longrightarrow> x' = x \<and> new = []) \<and> (0 < chunks_left x \<longrightarrow> chunks_left x' < chunks_left x) \<and>
    length (bufs_bytes new) + sender_total x' \<le> sender_total x"
proof (cases "next_chunk x")
  case None
  with assms show ?thesis by (simp add: drop_keep_def queue_next_chunk_def chunks_left_def)
next
  case (Some script)
  with assms show ?thesis
    by (cases script) (auto simp: drop_keep_def queue_next_chunk_def chunks_left_def sender_total_def of_nat_eq_0_u64
        split: if_splits)
qed

lemma ack_loop_progress:
  assumes "ack_loop n bs cs = Inr (n', bs', cs', stale)" and "cs = [x]" and "all_chunks bs"
    and "length (bufs_bytes bs) + sender_total x < 2 ^ 64"
    and "chunks_left x = 0 \<or> bs \<noteq> []"
  shows "\<exists>x'. cs' = [x'] \<and> all_chunks bs' \<and> (chunks_left x' = 0 \<or> bs' \<noteq> []) \<and> chunks_left x' \<le> chunks_left x \<and>
    (0 < chunks_left x \<and> length (fst (hd bs)) \<le> unat n \<longrightarrow> chunks_left x' < chunks_left x) \<and>
    (n' \<noteq> 0 \<longrightarrow> bs' \<noteq> [] \<and> unat n' < length (fst (hd bs')))"
  using assms
proof (induction n bs cs arbitrary: x rule: ack_loop.induct)
  case (1 n cs)
  then show ?case by (auto split: if_splits)
next
  case (2 n b bs cs)
  from "2.prems" have len: "length (fst b) < 2 ^ 64" and chunk: "snd b = Chunk 0" "fst b \<noteq> []" by simp_all
  show ?case
  proof (cases "buf_size b \<le> n \<and> n \<noteq> 0")
    case False
    moreover have "unat n < length (fst b)"
      using False chunk(2) buf_size_le_iff [OF len, of n] by auto
    ultimately show ?thesis using "2.prems" by auto
  next
    case True
    obtain new cs1 where dk: "drop_keep (snd b) cs = (new, cs1)" by fastforce
    from drop_chunk [of x new cs1] dk chunk "2.prems" obtain x1 where
      x1: "cs1 = [x1]" "all_chunks new" "chunks_left x1 = 0 \<or> new \<noteq> []" "chunks_left x = 0 \<longrightarrow> x1 = x \<and> new = []"
        "0 < chunks_left x \<longrightarrow> chunks_left x1 < chunks_left x"
        "length (bufs_bytes new) + sender_total x1 \<le> sender_total x" by auto
    from "2.prems"(1) True dk have run: "ack_loop (n - buf_size b) (bs @ new) cs1 = Inr (n', bs', cs', stale)" by auto
    have "length (bufs_bytes (bs @ new)) + sender_total x1 < 2 ^ 64" using "2.prems"(4) x1(6) by simp
    from "2.IH" [OF True dk [symmetric] refl run x1(1) _ this] x1 "2.prems" obtain x2 where
      "cs' = [x2]" "all_chunks bs'" "chunks_left x2 = 0 \<or> bs' \<noteq> []" "chunks_left x2 \<le> chunks_left x1"
      "n' \<noteq> 0 \<longrightarrow> bs' \<noteq> [] \<and> unat n' < length (fst (hd bs'))" by auto
    with x1 show ?thesis by (cases "chunks_left x = 0") auto
  qed
qed

lemma acknowledge_progress:
  assumes ack: "acknowledge n s = Inr (s', stale)" and x: "senders s = [x]" and inv: "stream_inv s"
    and ch: "all_chunks (user_buffers s)" "chunks_left x = 0 \<or> user_buffers s \<noteq> []"
  shows "\<exists>x'. senders s' = [x'] \<and> all_chunks (user_buffers s') \<and> (chunks_left x' = 0 \<or> user_buffers s' \<noteq> []) \<and>
    chunks_left x' \<le> chunks_left x \<and>
    (0 < chunks_left x \<and> length (fst (hd (user_buffers s))) \<le> unat n \<longrightarrow> chunks_left x' < chunks_left x)"
proof -
  from ack obtain n' bs cs st where r: "ack_loop n (user_buffers s) (senders s) = Inr (n', bs, cs, st)"
    by (auto simp: acknowledge_def split: if_splits sum.splits)
  from inv x have room: "length (bufs_bytes (user_buffers s)) + sender_total x < 2 ^ 64"
    by (simp add: stream_inv_def stream_bytes_def script_total_def)
  from ack_loop_progress [OF r x ch(1) room ch(2)] obtain x' where
    x': "cs = [x']" "all_chunks bs" "chunks_left x' = 0 \<or> bs \<noteq> []" "chunks_left x' \<le> chunks_left x"
      "0 < chunks_left x \<and> length (fst (hd (user_buffers s))) \<le> unat n \<longrightarrow> chunks_left x' < chunks_left x"
      "n' \<noteq> 0 \<longrightarrow> bs \<noteq> [] \<and> unat n' < length (fst (hd bs))" by blast
  have "senders s' = cs" and "user_buffers s' = bs \<or> (\<exists>b bs1. n' \<noteq> 0 \<and> bs = b # bs1 \<and> user_buffers s' = (drop (unat n') (fst b), snd b) # bs1)"
    using ack r by (auto simp: acknowledge_def Let_def split: if_splits list.splits)
  with x' show ?thesis by auto
qed

definition chunk_inv :: "bytes list \<Rightarrow> bool \<Rightarrow> nat \<Rightarrow> ledger \<Rightarrow> chunk_sender \<Rightarrow> bool" where
  "chunk_inv script d k l x \<longleftrightarrow> chunk_ledger script d k l \<and> senders (l_stream l) = [x] \<and>
     all_chunks (user_buffers (l_stream l)) \<and> (chunks_left x = 0 \<or> user_buffers (l_stream l) \<noteq> [])"

lemma drop_finished:
  assumes "drop_keep k [x] = (new, cs)" and "chunks_left x = 0"
  shows "new = [] \<and> cs = [x]"
proof (cases "k = Chunk 0")
  case True
  with assms show ?thesis by (simp add: drop_keep_def queue_next_chunk_def chunks_left_def split: option.splits)
next
  case False
  with assms(1) show ?thesis by (cases k) (auto simp: drop_keep_def queue_next_chunk_def Suc_le_eq)
qed

lemma released_finished: "released cs nb cs' \<Longrightarrow> cs = [x] \<Longrightarrow> chunks_left x = 0 \<Longrightarrow> nb = [] \<and> cs' = [x]"
  by (induction rule: released.induct) (auto dest: drop_finished)

lemma drain_round_progress:
  assumes ci: "chunk_inv script d k l x"
  shows "\<exists>l' x'. drain_round l = Inr l' \<and> chunk_inv script d k l' x' \<and>
    (0 < chunks_left x \<longrightarrow> chunks_left x' < chunks_left x) \<and>
    (chunks_left x = 0 \<longrightarrow> x' = x \<and> acked l' = accepted l')"
proof -
  let ?s = "l_stream l"
  let ?n = "length (stream_bytes ?s)"
  let ?w = "Write (length (stream_queued ?s))"
  from ci have cl: "chunk_ledger script d k l" and x: "senders ?s = [x]" by (simp_all add: chunk_inv_def)
  from cl have bal: "balanced l" and inv: "stream_inv ?s" by (simp_all add: chunk_ledger_def balanced_def)
  from sp.offer_queued [OF inv] obtain vs where vs: "pending ?s = Inr vs" "concat vs = stream_queued ?s" by blast
  obtain l1 where l1: "ledger_step ?w l = Inr l1" "balanced l1" using ledger_step_write [OF bal] by blast
  with vs have s1: "l_stream l1 = wrote (of_nat (length (stream_queued ?s))) ?s" by auto
  have b1: "user_buffers (l_stream l1) = user_buffers ?s" "senders (l_stream l1) = [x]"
    "stream_bytes (l_stream l1) = stream_bytes ?s" using x by (simp_all add: s1 wrote_def stream_bytes_def)
  from l1 have inv1: "stream_inv (l_stream l1)" by (simp add: balanced_def)
  have q1: "stream_queued (l_stream l1) = []" using sp.consume_queued [OF inv, of "length (stream_queued ?s)"] by (simp add: s1)
  with flight_queued [of "l_stream l1"] b1 have f1: "stream_flight (l_stream l1) = stream_bytes ?s" by simp
  then have n1: "?n \<le> length (stream_flight (l_stream l1))" by simp
  from acknowledge_release [OF inv1 n1] obtain s2 stale nb where
    a: "acknowledge (of_nat ?n) (l_stream l1) = Inr (s2, stale)" "stream_flight s2 = []"
      "stream_queued s2 = bufs_bytes nb" and rel: "released [x] nb (senders s2)"
    using q1 f1 b1 by auto
  obtain l2 where l2: "ledger_step (Ack ?n) l1 = Inr l2" "balanced l2" using ledger_step_ack [OF l1(2)] by blast
  with a n1 inv1 have s2: "l_stream l2 = s2" by (auto simp: length_stream_flight)
  from chunk_ledger_ack [OF chunk_ledger_write [OF cl l1(1)] l2(1)] have cl2: "chunk_ledger script d k l2" .
  have un: "unat (of_nat ?n :: u64) = ?n" using inv by (intro unat_of_nat_u64) (simp add: stream_inv_def)
  from acknowledge_progress [OF a(1) b1(2) inv1] ci b1 obtain x' where
    x': "senders s2 = [x']" "all_chunks (user_buffers s2)" "chunks_left x' = 0 \<or> user_buffers s2 \<noteq> []"
      "0 < chunks_left x \<and> length (fst (hd (user_buffers ?s))) \<le> ?n \<longrightarrow> chunks_left x' < chunks_left x"
    by (auto simp: chunk_inv_def un)
  have "length (fst (hd (user_buffers ?s))) \<le> ?n" if "user_buffers ?s \<noteq> []"
    using that by (cases "user_buffers ?s") (simp_all add: stream_bytes_def)
  with x' ci have dec: "0 < chunks_left x \<longrightarrow> chunks_left x' < chunks_left x" by (auto simp: chunk_inv_def)
  have fin: "x' = x \<and> acked l2 = accepted l2" if "chunks_left x = 0"
    using released_finished [OF rel refl that] x' a l2(2) s2 by (simp add: balanced_def)
  have "drain_round l = Inr l2" using l1 l2 b1 by (simp add: drain_round_def)
  moreover have "chunk_inv script d k l2 x'" using cl2 x' s2 by (simp add: chunk_inv_def)
  ultimately show ?thesis using dec fin by (intro exI [of _ l2] exI [of _ x']) simp
qed

lemma drain_rounds_complete:
  "chunk_inv script d k l x \<Longrightarrow> chunks_left x < n \<Longrightarrow>
   \<exists>l' x'. drain_rounds n l = Inr l' \<and> chunk_inv script d k l' x' \<and> chunks_left x' = 0 \<and> acked l' = accepted l'"
proof (induction n arbitrary: l x)
  case (Suc n)
  from drain_round_progress [OF Suc.prems(1)] obtain l' x' where
    l': "drain_round l = Inr l'" "chunk_inv script d k l' x'"
      "0 < chunks_left x \<longrightarrow> chunks_left x' < chunks_left x" "chunks_left x = 0 \<longrightarrow> x' = x \<and> acked l' = accepted l'" by (elim exE conjE)
  show ?case
  proof (cases "chunks_left x' < n")
    case True
    from Suc.IH [OF l'(2) True] l'(1) show ?thesis by simp
  next
    case False
    with l' Suc.prems(2) have "n = 0" "chunks_left x = 0" "x' = x" "acked l' = accepted l'" by auto
    with l' show ?thesis by auto
  qed
qed simp

lemma chunk_make_all_chunks:
  assumes "senders s = [x]" and "sender_total x < 2 ^ 64" and "all_chunks (user_buffers s)"
    and "chunks_left x = 0 \<or> user_buffers s \<noteq> [] \<or> 0 < n"
  shows "\<exists>x'. senders (chunk_make 0 n s) = [x'] \<and> all_chunks (user_buffers (chunk_make 0 n s)) \<and>
    (chunks_left x' = 0 \<or> user_buffers (chunk_make 0 n s) \<noteq> []) \<and> chunks_left x' \<le> chunks_left x"
  using assms
proof (induction n arbitrary: s x)
  case (Suc n)
  obtain new cs where q: "queue_next_chunk 0 (senders s) = (new, cs)" by fastforce
  then have "drop_keep (Chunk 0) [x] = (new, cs)" by (simp add: queue_next_chunk_drop_keep [symmetric] Suc.prems)
  from drop_chunk [OF this Suc.prems(2)] obtain x1 where x1: "cs = [x1]" "all_chunks new" "chunks_left x1 = 0 \<or> new \<noteq> []"
    "chunks_left x = 0 \<longrightarrow> x1 = x \<and> new = []" "0 < chunks_left x \<longrightarrow> chunks_left x1 < chunks_left x"
    "length (bufs_bytes new) + sender_total x1 \<le> sender_total x" by (elim exE conjE)
  let ?s = "s\<lparr>user_buffers := user_buffers s @ new, senders := cs\<rparr>"
  from Suc.IH [of ?s x1] x1 Suc.prems obtain x' where x': "senders (chunk_make 0 n ?s) = [x']"
    "all_chunks (user_buffers (chunk_make 0 n ?s))" "chunks_left x' = 0 \<or> user_buffers (chunk_make 0 n ?s) \<noteq> []"
    "chunks_left x' \<le> chunks_left x1" by auto
  moreover have "chunks_left x1 \<le> chunks_left x" using x1 by (cases "chunks_left x") auto
  ultimately show ?case using q by auto
qed simp

text \<open>
  C28: A chunked send completes: if the transport keeps writing what is queued and acknowledging what is in
  flight, then after at most two rounds more than there are chunks every chunk has been acknowledged by
  the peer, in order, the chunk callback is dropped and the \<^verbatim>\<open>done\<close> callback was called exactly once.
\<close>

theorem send_chunks_completes:
  assumes "length (concat script) < 2 ^ 64" and "1 \<le> k"
  shows "\<exists>l l' x. ledger_step (Chunks script d k) (ledger_new (stream_new data_cb close_cb sid)) = Inr l \<and>
    drain_rounds (length script + 2) l = Inr l' \<and> acked l' = script_data script \<and>
    senders (l_stream l') = [x] \<and> next_chunk x = None \<and> done_calls x = (if d then 1 else 0)"
proof -
  let ?s = "stream_new data_cb close_cb sid"
  let ?x = "\<lparr>next_chunk = Some script, has_done = d, done_calls = 0, chunks_sent = 0\<rparr>"
  let ?s1 = "?s\<lparr>senders := [?x]\<rparr>"
  obtain l where l: "ledger_step (Chunks script d k) (ledger_new ?s) = Inr l" "chunk_ledger script d (nat k) l"
    using chunk_ledger_start [OF assms] by blast
  have new: "senders ?s = []" "user_buffers ?s = []" by (simp_all add: stream_new_def)
  with l(1) assms have ls: "l_stream l = chunk_make 0 (nat k) ?s1"
    by (auto simp: ledger_new_def send_chunks_def Let_def stream_fits_def stream_bytes_def script_total_def)
  obtain x where x: "senders (l_stream l) = [x]" "all_chunks (user_buffers (l_stream l))"
    "chunks_left x = 0 \<or> user_buffers (l_stream l) \<noteq> []" "chunks_left x \<le> chunks_left ?x"
    using chunk_make_all_chunks [of ?s1 ?x "nat k"] new assms unfolding ls by (auto simp: sender_total_def)
  then have "chunk_inv script d (nat k) l x" and "chunks_left x < length script + 2"
    using l(2) by (simp_all add: chunk_inv_def chunks_left_def)
  from drain_rounds_complete [OF this] obtain l' x' where l': "drain_rounds (length script + 2) l = Inr l'"
    "chunk_inv script d (nat k) l' x'" "chunks_left x' = 0" "acked l' = accepted l'" by blast
  then have "next_chunk x' = None" by (simp add: chunks_left_def split: option.splits)
  with l' l show ?thesis
    by (auto simp: chunk_inv_def chunk_ledger_def sender_ok_def chunk_rest_def)
qed

theorem send_chunks_completes_witness:
  "\<exists>l l' x. ledger_step (Chunks [[1, 2], [3], [4, 5]] True 2) (ledger_new (stream_new None None 0)) = Inr l \<and>
    drain_rounds 5 l = Inr l' \<and> acked l' = [1, 2, 3, 4, 5] \<and>
    senders (l_stream l') = [x] \<and> next_chunk x = None \<and> done_calls x = 1"
proof -
  have a: "length (concat [[1, 2], [3], [4, 5 :: byte]]) < 2 ^ 64" "1 \<le> (2 :: int)" by simp_all
  have e: "script_data [[1, 2], [3], [4, 5]] = [1, 2, 3, 4, 5]" by (simp add: script_data_def)
  have n: "length [[1, 2], [3], [4, 5 :: byte]] + 2 = 5" by simp
  show ?thesis by (rule send_chunks_completes [OF a, of True None None 0, unfolded e n if_True])
qed

section \<open>Sending containers\<close>

text \<open>
  \<^verbatim>\<open>send\<close> of a string or a vector that is given up to the stream.  The string is moved into the keep-alive
  first and viewed there.  For a vector, the view of its data and the move into the keep-alive are two
  arguments of one call, which the compiler may evaluate in either order: \<open>view_first\<close> says which.  A vector
  that was moved from is empty.
\<close>

definition send_string :: "bytes \<Rightarrow> stream \<Rightarrow> stream \<times> stream_effect list" where
  "send_string data s = (let keep_alive = data in append_buffer keep_alive Owned s)"

definition send_vector :: "bool \<Rightarrow> bytes \<Rightarrow> stream \<Rightarrow> stream \<times> stream_effect list" where
  "send_vector view_first buf s =
     (let view = (if view_first then buf else []) in append_buffer view Owned s)"

text \<open>
  Strings are queued as they are; what becomes of a vector depends on the order in which the compiler
  evaluates the arguments: if it moves the vector first, nothing of it is ever sent, without any error.
\<close>

theorem vector_send_depends_on_order:
  "stream_bytes (fst (send_string data s)) = stream_bytes s @ data \<and>
   stream_bytes (fst (send_vector True data s)) = stream_bytes s @ data \<and>
   stream_bytes (fst (send_vector False data s)) = stream_bytes s"
  by (simp add: send_string_def send_vector_def)

end
