(* ===== verification/Quic_Udp.thy ===== *)
theory Quic_Udp
  imports Quic_Utils
begin

text \<open>
  The UDP socket of \<^verbatim>\<open>include/quic/udp.hpp\<close> and \<^verbatim>\<open>src/udp.cpp\<close> on POSIX: building a packet from a
  received message, the receive loops (\<^verbatim>\<open>recvmmsg\<close> and \<^verbatim>\<open>recvmsg\<close> builds), and the three send
  implementations (\<^verbatim>\<open>sendmmsg\<close> with GSO, \<^verbatim>\<open>sendmmsg\<close>, \<^verbatim>\<open>sendmsg\<close>) with the sending contract they share.
  What the kernel answers to the successive system calls of one operation is an argument, a list
  consumed in call order; a result \<open>None\<close> means that the list ended inside the operation (every
  further call was interrupted).
\<close>

section \<open>Packets\<close>

definition IPPROTO_IP :: nat where "IPPROTO_IP = 0"
definition IPPROTO_IPV6 :: nat where "IPPROTO_IPV6 = 41"
definition IP_TOS :: nat where "IP_TOS = 1"
definition IPV6_TCLASS :: nat where "IPV6_TCLASS = 67"

record cmsg =
  cmsg_level :: nat
  cmsg_type :: nat
  cmsg_len :: nat
  cmsg_byte :: byte

record msg_hdr =
  msg_name :: address
  msg_trunc :: bool
  msg_control :: "cmsg list"

record packet =
  pkt_path :: path
  pkt_data :: bytes
  pkt_ecn :: byte

definition ecn_cmsg :: "address \<Rightarrow> cmsg \<Rightarrow> bool" where
  "ecn_cmsg remote c \<longleftrightarrow>
     (if is_ipv4 remote then cmsg_level c = IPPROTO_IP \<and> cmsg_type c = IP_TOS
      else cmsg_level c = IPPROTO_IPV6 \<and> cmsg_type c = IPV6_TCLASS) \<and> 0 < cmsg_len c"

fun ecn_scan :: "address \<Rightarrow> cmsg list \<Rightarrow> byte" where
  "ecn_scan remote [] = 0"
| "ecn_scan remote (c # cs) = (if ecn_cmsg remote c then cmsg_byte c else ecn_scan remote cs)"

definition packet_make :: "address \<Rightarrow> bytes \<Rightarrow> msg_hdr \<Rightarrow> packet result" where
  "packet_make local data hdr =
     (let remote = msg_name hdr in
      if is_ipv4 remote \<or> is_ipv6 remote
      then Inr \<lparr>pkt_path = \<lparr>path_local = local, path_remote = remote\<rparr>, pkt_data = data,
                pkt_ecn = ecn_scan remote (msg_control hdr)\<rparr>
      else Inl Assertion_failed)"

text \<open>\<^verbatim>\<open>process_packet\<close>: the packets handed to the receive callback (none or one).\<close>

definition process_packet :: "address \<Rightarrow> bytes \<Rightarrow> msg_hdr \<Rightarrow> packet list result" where
  "process_packet bound payload hdr =
     (if payload = [] then Inr []
      else if msg_trunc hdr then Inr []
      else and_then (packet_make bound payload hdr) (\<lambda>p. Inr [p]))"

fun process_all :: "address \<Rightarrow> (bytes \<times> msg_hdr) list \<Rightarrow> packet list result" where
  "process_all bound [] = Inr []"
| "process_all bound ((d, h) # ms) =
     and_then (process_packet bound d h) (\<lambda>ps. and_then (process_all bound ms) (\<lambda>qs. Inr (ps @ qs)))"

section \<open>Receiving\<close>

datatype recv_answer = Recv_error int | Recv_msgs "(bytes \<times> msg_hdr) list"

text \<open>
  \<^verbatim>\<open>UDPSocket::receive\<close> with \<^verbatim>\<open>recvmmsg\<close>: the io result, the packets delivered to the callback in
  order, the number of messages read and the answers left.
\<close>

fun receive_mmsg ::
  "address \<Rightarrow> nat \<Rightarrow> recv_answer list \<Rightarrow> (io_result \<times> packet list \<times> nat \<times> recv_answer list) result option" where
  "receive_mmsg bound count [] = None"
| "receive_mmsg bound count (Recv_error e # as) =
     (if e = EINTR then receive_mmsg bound count as
      else if e = EAGAIN \<or> e = EWOULDBLOCK then Some (Inr (Io_errno 0, [], count, as))
      else Some (Inr (Io_errno e, [], count, as)))"
| "receive_mmsg bound count (Recv_msgs ms # as) =
     (if ms = [] then Some (Inr (Io_errno 0, [], count, as))
      else case process_all bound ms of
        Inl f \<Rightarrow> Some (Inl f)
      | Inr ps \<Rightarrow>
          (let count' = count + length ms in
           if length ms < DATAGRAM_BATCH_SIZE then Some (Inr (Io_errno 0, ps, count', as))
           else if count' < MAX_RECEIVE_PER_LOOP
           then map_option (\<lambda>r. and_then r (\<lambda>(res, qs, n, as'). Inr (res, ps @ qs, n, as')))
                  (receive_mmsg bound count' as)
           else Some (Inr (Io_errno 0, ps, count', as))))"

text \<open>
  The same loop with the receive callback \<open>f\<close>, which is called for each packet as it is read and may change
  the state \<open>st\<close> of whatever owns the socket; \<open>dispatch_all\<close> is the loop over the messages of one call.
\<close>

fun deliver :: "(packet \<Rightarrow> 's \<Rightarrow> 's result option) \<Rightarrow> packet list \<Rightarrow> 's \<Rightarrow> 's result option" where
  "deliver f [] st = Some (Inr st)"
| "deliver f (p # ps) st = obind (f p st) (deliver f ps)"

fun dispatch_all ::
  "(packet \<Rightarrow> 's \<Rightarrow> 's result option) \<Rightarrow> address \<Rightarrow> (bytes \<times> msg_hdr) list \<Rightarrow> 's \<Rightarrow> 's result option" where
  "dispatch_all f bound [] st = Some (Inr st)"
| "dispatch_all f bound ((d, h) # ms) st =
     obind (Some (process_packet bound d h)) (\<lambda>ps. obind (deliver f ps st) (dispatch_all f bound ms))"

fun receive_with ::
  "(packet \<Rightarrow> 's \<Rightarrow> 's result option) \<Rightarrow> address \<Rightarrow> nat \<Rightarrow> recv_answer list \<Rightarrow> 's \<Rightarrow>
   (io_result \<times> 's \<times> nat \<times> recv_answer list) result option" where
  "receive_with f bound count [] st = None"
| "receive_with f bound count (Recv_error e # as) st =
     (if e = EINTR then receive_with f bound count as st
      else if e = EAGAIN \<or> e = EWOULDBLOCK then Some (Inr (Io_errno 0, st, count, as))
      else Some (Inr (Io_errno e, st, count, as)))"
| "receive_with f bound count (Recv_msgs ms # as) st =
     (if ms = [] then Some (Inr (Io_errno 0, st, count, as))
      else obind (dispatch_all f bound ms st) (\<lambda>st'.
        let count' = count + length ms in
        if length ms < DATAGRAM_BATCH_SIZE then Some (Inr (Io_errno 0, st', count', as))
        else if count' < MAX_RECEIVE_PER_LOOP then receive_with f bound count' as st'
        else Some (Inr (Io_errno 0, st', count', as))))"

text \<open>The \<^verbatim>\<open>recvmsg\<close> build: one message per call (a \<open>Recv_msgs\<close> answer of one message).\<close>

fun receive_msg ::
  "address \<Rightarrow> nat \<Rightarrow> recv_answer list \<Rightarrow> (io_result \<times> packet list \<times> nat \<times> recv_answer list) result option" where
  "receive_msg bound count [] = None"
| "receive_msg bound count (Recv_error e # as) =
     (if e = EINTR then receive_msg bound count as
      else if e = EAGAIN \<or> e = EWOULDBLOCK then Some (Inr (Io_errno 0, [], count, as))
      else Some (Inr (Io_errno e, [], count, as)))"
| "receive_msg bound count (Recv_msgs ms # as) =
     (case process_all bound ms of
        Inl f \<Rightarrow> Some (Inl f)
      | Inr ps \<Rightarrow>
          (let count' = count + 1 in
           if count' < MAX_RECEIVE_PER_LOOP
           then map_option (\<lambda>r. and_then r (\<lambda>(res, qs, n, as'). Inr (res, ps @ qs, n, as')))
                  (receive_msg bound count' as)
           else Some (Inr (Io_errno 0, ps, count', as))))"

section \<open>Sending\<close>

text \<open>
  An answer of the kernel to a send call: an errno, or the \<^verbatim>\<open>msg_len\<close> fields of the messages that
  were accepted.
\<close>

datatype send_answer = Send_error int | Send_lens "nat list"

fun eintr_retry :: "send_answer list \<Rightarrow> (send_answer \<times> send_answer list) option" where
  "eintr_retry [] = None"
| "eintr_retry (a # as) = (if a = Send_error EINTR then eintr_retry as else Some (a, as))"

subsection \<open>Generic segmentation offload\<close>

text \<open>
  One message of the \<^verbatim>\<open>sendmmsg\<close> call: \<open>seg_count\<close> packets of \<open>seg_size\<close> bytes each, at \<open>iov_off\<close> in
  the buffer; \<open>control\<close> is the index of the control buffer that announces the segment size.
\<close>

record gso_msg =
  seg_size :: nat
  seg_count :: nat
  iov_off :: nat
  iov_len :: nat
  control :: "nat option"

text \<open>
  The batching loop over the packet sizes: \<open>sz\<close> and \<open>cnt\<close> are the cells \<^verbatim>\<open>gso_sizes[msg_count]\<close> and
  \<^verbatim>\<open>gso_counts[msg_count]\<close>, zero when a new batch starts, \<open>off\<close> is \<^verbatim>\<open>next_buf\<close> and \<open>ms\<close> the messages
  finished so far, so that \<^verbatim>\<open>msg_count\<close> is their number.  The arrays have \<^verbatim>\<open>MAX_BATCH\<close> and
  \<^verbatim>\<open>DATAGRAM_BATCH_SIZE\<close> (both 24) elements; the control buffer is indexed after \<^verbatim>\<open>msg_count\<close> was
  incremented.  A size is cut to 16 bits when it is stored.
\<close>

fun gso_loop :: "nat list \<Rightarrow> nat \<Rightarrow> nat \<Rightarrow> nat \<Rightarrow> gso_msg list \<Rightarrow> gso_msg list result" where
  "gso_loop [] sz cnt off ms = Inr ms"
| "gso_loop (b # bs) sz cnt off ms =
     (if DATAGRAM_BATCH_SIZE \<le> length ms then Inl Index_out_of_bounds
      else let cnt' = cnt + 1;
               sz' = (if sz = 0 then b mod 2 ^ 16 else sz)
           in if bs \<noteq> [] \<and> hd bs = sz' then gso_loop bs sz' cnt' off ms
              else if 1 < cnt' \<and> DATAGRAM_BATCH_SIZE \<le> length ms + 1 then Inl Index_out_of_bounds
              else gso_loop bs 0 0 (off + cnt' * sz')
                     (ms @ [\<lparr>seg_size = sz', seg_count = cnt', iov_off = off, iov_len = cnt' * sz',
                             control = (if 1 < cnt' then Some (length ms + 1) else None)\<rparr>]))"

text \<open>
  Counting the packets that went out: per message its \<^verbatim>\<open>msg_len\<close> (0 beyond the answered ones), with the
  assertions of the debug build.
\<close>

fun gso_count_sent :: "bool \<Rightarrow> gso_msg list \<Rightarrow> nat list \<Rightarrow> nat result" where
  "gso_count_sent unsent [] lens = Inr 0"
| "gso_count_sent unsent (m # ms) lens =
     (let l = (case lens of [] \<Rightarrow> 0 | x # _ \<Rightarrow> x) in
      if l < iov_len m
      then if unsent \<and> l \<noteq> 0 then Inl Assertion_failed
           else if l mod seg_size m \<noteq> 0 then Inl Assertion_failed
           else and_then (gso_count_sent True ms (tl lens)) (\<lambda>n. Inr (l div seg_size m + n))
      else if unsent then Inl Assertion_failed
           else and_then (gso_count_sent unsent ms (tl lens)) (\<lambda>n. Inr (seg_count m + n)))"

type_synonym send_result = "((io_result \<times> nat) \<times> send_answer list) result option"

definition udp_send_gso :: "send_answer list \<Rightarrow> nat list \<Rightarrow> send_result" where
  "udp_send_gso as sizes =
     (case gso_loop sizes 0 0 0 [] of
        Inl f \<Rightarrow> Some (Inl f)
      | Inr ms \<Rightarrow>
          (case eintr_retry as of
             None \<Rightarrow> None
           | Some (Send_error e, as') \<Rightarrow> Some (Inr ((Io_errno e, 0), as'))
           | Some (Send_lens lens, as') \<Rightarrow>
               Some (and_then (gso_count_sent False ms lens) (\<lambda>n. Inr ((Io_errno 0, n), as')))))"

subsection \<open>Plain sendmmsg and sendmsg\<close>

definition udp_send_mmsg :: "send_answer list \<Rightarrow> nat list \<Rightarrow> send_result" where
  "udp_send_mmsg as sizes =
     (if \<not> list_all (\<lambda>b. 0 < b) sizes then Some (Inl Assertion_failed)
      else case eintr_retry as of
             None \<Rightarrow> None
           | Some (Send_error e, as') \<Rightarrow> Some (Inr ((Io_errno e, 0), as'))
           | Some (Send_lens lens, as') \<Rightarrow> Some (Inr ((Io_errno 0, length lens), as')))"

text \<open>The \<^verbatim>\<open>sendmsg\<close> loop stops at the first error, which it does not retry.\<close>

fun udp_send_loop :: "nat \<Rightarrow> send_answer list \<Rightarrow> nat list \<Rightarrow> send_result" where
  "udp_send_loop sent as [] = Some (Inr ((Io_errno 0, sent), as))"
| "udp_send_loop sent as (b # bs) =
     (if b = 0 then Some (Inl Assertion_failed)
      else case as of
        [] \<Rightarrow> None
      | Send_error e # as' \<Rightarrow> Some (Inr ((Io_errno e, sent), as'))
      | Send_lens lens # as' \<Rightarrow>
          (if lens = [b] then udp_send_loop (sent + 1) as' bs else Some (Inl Assertion_failed)))"

definition udp_send_msg :: "send_answer list \<Rightarrow> nat list \<Rightarrow> send_result" where
  "udp_send_msg as sizes = udp_send_loop 0 as sizes"

text \<open>The ECN value of the socket is updated when it changes: the new value and whether it was set.\<close>

definition update_ecn :: "byte \<Rightarrow> byte \<Rightarrow> byte \<times> bool" where
  "update_ecn ecn old = (if ecn \<noteq> old then (ecn, True) else (old, False))"

section \<open>Writeability callbacks\<close>

text \<open>
  \<^verbatim>\<open>when_writeable\<close> queues a callback and arms the write event; the event takes the whole list before
  it calls them, so that a callback that blocks again queues itself for the next event.
\<close>

record 'cb write_waiters =
  writeable_callbacks :: "'cb list"
  wev_armed :: bool

definition when_writeable :: "'cb \<Rightarrow> 'cb write_waiters \<Rightarrow> 'cb write_waiters" where
  "when_writeable cb w = w\<lparr>writeable_callbacks := writeable_callbacks w @ [cb], wev_armed := True\<rparr>"

definition take_writeable :: "'cb write_waiters \<Rightarrow> 'cb list \<times> 'cb write_waiters" where
  "take_writeable w = (writeable_callbacks w, w\<lparr>writeable_callbacks := [], wev_armed := False\<rparr>)"


section \<open>Receiving: order, bound, termination\<close>

definition answer_msgs :: "recv_answer \<Rightarrow> (bytes \<times> msg_hdr) list" where
  "answer_msgs a = (case a of Recv_error _ \<Rightarrow> [] | Recv_msgs ms \<Rightarrow> ms)"

text \<open>\<^verbatim>\<open>recvmmsg\<close> fills at most the array it is given.\<close>

definition batch_ok :: "recv_answer \<Rightarrow> bool" where
  "batch_ok a \<longleftrightarrow> length (answer_msgs a) \<le> DATAGRAM_BATCH_SIZE"

lemma answer_msgs_simps [simp]:
  "answer_msgs (Recv_error e) = []" "answer_msgs (Recv_msgs ms) = ms"
  by (simp_all add: answer_msgs_def)

lemma process_all_append:
  "process_all bound ms = Inr ps \<Longrightarrow> process_all bound ms' = Inr qs \<Longrightarrow>
   process_all bound (ms @ ms') = Inr (ps @ qs)"
proof (induction ms arbitrary: ps)
  case (Cons m ms)
  then show ?case by (cases m) (auto elim!: and_then_InrE)
qed simp

lemma process_packet_length: "process_packet bound d h = Inr ps \<Longrightarrow> length ps \<le> 1"
  by (auto simp: process_packet_def elim!: and_then_InrE split: if_splits)

lemma process_all_length: "process_all bound ms = Inr ps \<Longrightarrow> length ps \<le> length ms"
proof (induction ms arbitrary: ps)
  case (Cons m ms)
  then show ?case by (cases m) (fastforce elim!: and_then_InrE dest: process_packet_length)
qed simp

lemma receive_mmsg_consumes:
  "receive_mmsg bound count as = Some (Inr (res, ps, n, as')) \<Longrightarrow>
   \<exists>used. as = used @ as' \<and> process_all bound (concat (map answer_msgs used)) = Inr ps \<and>
     n = count + length (concat (map answer_msgs used))"
proof (induction bound count as arbitrary: ps rule: receive_mmsg.induct)
  case (2 bound count e as)
  show ?case
  proof (cases "e = EINTR")
    case True
    with 2 obtain used where "as = used @ as'"
      "process_all bound (concat (map answer_msgs used)) = Inr ps"
      "n = count + length (concat (map answer_msgs used))" by auto
    then show ?thesis by (intro exI [of _ "Recv_error e # used"]) simp
  next
    case False
    with "2.prems" show ?thesis by (intro exI [of _ "[Recv_error e]"]) (auto split: if_splits)
  qed
next
  case (3 bound count ms as)
  show ?case
  proof (cases "ms = [] \<or> length ms < DATAGRAM_BATCH_SIZE \<or> \<not> count + length ms < MAX_RECEIVE_PER_LOOP")
    case True
    with "3.prems" show ?thesis
      by (intro exI [of _ "[Recv_msgs ms]"]) (auto simp: Let_def split: if_splits sum.splits)
  next
    case False
    with "3.prems" obtain qs ps1 where
      p1: "process_all bound ms = Inr ps1" and ps: "ps = ps1 @ qs" and
      r: "receive_mmsg bound (count + length ms) as = Some (Inr (res, qs, n, as'))"
      by (auto simp: Let_def elim!: and_then_InrE split: sum.splits)
    from "3.IH" [OF _ p1 refl _ _ r] False obtain used where
      "as = used @ as'" "process_all bound (concat (map answer_msgs used)) = Inr qs"
      "n = count + length ms + length (concat (map answer_msgs used))" by auto
    then show ?thesis using p1 ps
      by (intro exI [of _ "Recv_msgs ms # used"]) (simp add: process_all_append)
  qed
qed simp

lemma receive_mmsg_count:
  "receive_mmsg bound count as = Some (Inr (res, ps, n, as')) \<Longrightarrow>
   list_all batch_ok as \<Longrightarrow> count \<in> {0, 24, 48} \<Longrightarrow> n \<le> 72"
proof (induction bound count as arbitrary: ps rule: receive_mmsg.induct)
  case (2 bound count e as)
  then show ?case by (auto split: if_splits)
next
  case (3 bound count ms as)
  from "3.prems"(2) have len: "length ms \<le> 24" by (simp add: batch_ok_def utils_consts)
  show ?case
  proof (cases "ms = [] \<or> length ms < DATAGRAM_BATCH_SIZE \<or> \<not> count + length ms < MAX_RECEIVE_PER_LOOP")
    case True
    with 3 len show ?thesis by (auto simp: Let_def split: if_splits sum.splits)
  next
    case False
    with "3.prems" obtain qs ps1 where
      p1: "process_all bound ms = Inr ps1" and
      r: "receive_mmsg bound (count + length ms) as = Some (Inr (res, qs, n, as'))"
      by (auto simp: Let_def elim!: and_then_InrE split: sum.splits)
    from False len have "length ms = 24" "count + length ms < 64" by (auto simp: utils_consts)
    with "3.IH" [OF _ p1 refl _ _ r] "3.prems" False show ?thesis by auto
  qed
qed simp

text \<open>The value of the first control message that carries the ECN bits, 0 when there is none.\<close>

definition ecn_of :: "msg_hdr \<Rightarrow> byte" where
  "ecn_of h = (case filter (ecn_cmsg (msg_name h)) (msg_control h) of [] \<Rightarrow> 0 | c # _ \<Rightarrow> cmsg_byte c)"

lemma ecn_scan_first: "ecn_scan remote cs = (case filter (ecn_cmsg remote) cs of [] \<Rightarrow> 0 | c # _ \<Rightarrow> cmsg_byte c)"
  by (induction cs) simp_all

text \<open>What is to become of a message: which ones are delivered, and as which packet.\<close>

definition deliverable :: "bytes \<times> msg_hdr \<Rightarrow> bool" where
  "deliverable m \<longleftrightarrow> fst m \<noteq> [] \<and> \<not> msg_trunc (snd m)"

definition delivered_as :: "address \<Rightarrow> bytes \<times> msg_hdr \<Rightarrow> packet \<Rightarrow> bool" where
  "delivered_as bound m p \<longleftrightarrow>
     pkt_data p = fst m \<and> path_local (pkt_path p) = bound \<and> path_remote (pkt_path p) = msg_name (snd m) \<and>
     pkt_ecn p = ecn_of (snd m)"

lemma process_all_delivers:
  "process_all bound ms = Inr ps \<Longrightarrow> list_all2 (delivered_as bound) (filter deliverable ms) ps"
proof (induction ms arbitrary: ps)
  case (Cons m ms)
  obtain d h where m: "m = (d, h)" by fastforce
  with Cons.prems obtain p1 qs where p1: "process_packet bound d h = Inr p1"
    and qs: "process_all bound ms = Inr qs" and ps: "ps = p1 @ qs" by (auto elim!: and_then_InrE)
  from p1 have "list_all2 (delivered_as bound) (filter deliverable [m]) p1"
    by (auto simp: m process_packet_def packet_make_def deliverable_def delivered_as_def ecn_of_def ecn_scan_first Let_def
        elim!: and_then_InrE split: if_splits)
  from list_all2_appendI [OF this Cons.IH [OF qs]] show ?case by (cases "deliverable m") (simp_all add: ps)
qed simp

text \<open>
  C33: A \<^verbatim>\<open>recvmmsg\<close> receive delivers to the callback, in order and once each, exactly the messages it reads
  that are neither empty nor truncated: with their bytes, the bound address as the local and the sender's address
  as the remote end of the path, and the value of the first control message that carries the ECN bits.  It reads at
  most 72 messages (64 rounded up to a whole batch) before it returns to the event loop.
\<close>

theorem receive_mmsg_in_order_bounded:
  assumes "receive_mmsg bound 0 as = Some (Inr (res, ps, n, as'))" and "list_all batch_ok as"
  shows "n \<le> 72 \<and>
    (\<exists>used. as = used @ as' \<and> n = length (concat (map answer_msgs used)) \<and>
       list_all2
         (\<lambda>(d, h) p. pkt_data p = d \<and> pkt_path p = \<lparr>path_local = bound, path_remote = msg_name h\<rparr> \<and> pkt_ecn p = ecn_of h)
         (filter (\<lambda>(d, h). d \<noteq> [] \<and> \<not> msg_trunc h) (concat (map answer_msgs used))) ps)"
proof -
  have f: "deliverable = (\<lambda>(d, h). d \<noteq> [] \<and> \<not> msg_trunc h)" by (auto simp: deliverable_def)
  have d: "delivered_as bound =
      (\<lambda>(d, h) p. pkt_data p = d \<and> pkt_path p = \<lparr>path_local = bound, path_remote = msg_name h\<rparr> \<and> pkt_ecn p = ecn_of h)"
    by (intro ext) (auto simp: delivered_as_def)
  from receive_mmsg_count [OF assms(1) assms(2)] receive_mmsg_consumes [OF assms(1)] process_all_delivers
  show ?thesis by (force simp: f d)
qed

text \<open>Calling back for each packet as it is read is delivering the packets of the whole receive in order.\<close>

lemma deliver_append: "deliver f (ps @ qs) st = obind (deliver f ps st) (deliver f qs)"
proof (induction ps arbitrary: st)
  case (Cons p ps)
  then show ?case by (cases "f p st") (auto simp: obind_def split: sum.splits)
qed simp

lemma dispatch_all_deliver: "process_all bound ms = Inr ps \<Longrightarrow> dispatch_all f bound ms st = deliver f ps st"
proof (induction ms arbitrary: ps st)
  case (Cons m ms)
  obtain d h where "m = (d, h)" by fastforce
  with Cons show ?case by (auto simp: deliver_append fun_eq_iff elim!: and_then_InrE intro!: arg_cong2 [where f = obind])
qed simp

lemma receive_with_delivers:
  "receive_mmsg bound count as = Some (Inr (res, ps, n, rest)) \<Longrightarrow>
   receive_with f bound count as st = obind (deliver f ps st) (\<lambda>st'. Some (Inr (res, st', n, rest)))"
proof (induction bound count as arbitrary: ps st rule: receive_mmsg.induct)
  case (3 bound count ms as)
  show ?case
  proof (cases "ms = [] \<or> length ms < DATAGRAM_BATCH_SIZE \<or> \<not> count + length ms < MAX_RECEIVE_PER_LOOP")
    case True
    with "3.prems" show ?thesis by (auto simp: Let_def dispatch_all_deliver split: if_splits sum.splits)
  next
    case False
    with "3.prems" obtain qs ps1 where
      p1: "process_all bound ms = Inr ps1" and ps: "ps = ps1 @ qs" and
      r: "receive_mmsg bound (count + length ms) as = Some (Inr (res, qs, n, rest))"
      by (auto simp: Let_def elim!: and_then_InrE split: sum.splits)
    from "3.IH" [OF _ p1 refl _ _ r] False
    have "receive_with f bound (count + length ms) as st' = obind (deliver f qs st') (\<lambda>st'. Some (Inr (res, st', n, rest)))" for st'
      by simp
    with False show ?thesis
      by (cases "deliver f ps1 st") (auto simp: Let_def dispatch_all_deliver [OF p1] ps deliver_append obind_def split: sum.splits)
  qed
qed (auto split: if_splits)

definition sample_hdr :: msg_hdr where
  "sample_hdr = \<lparr>msg_name = address_default, msg_trunc = False, msg_control = []\<rparr>"

lemma process_sample:
  "process_packet address_default [7] sample_hdr =
     Inr [\<lparr>pkt_path = \<lparr>path_local = address_default, path_remote = address_default\<rparr>,
           pkt_data = [7], pkt_ecn = 0\<rparr>]"
  by (simp add: process_packet_def packet_make_def sample_hdr_def address_default_def is_ipv4_def
      is_ipv6_def utils_consts Let_def)

theorem receive_mmsg_in_order_bounded_witness:
  "\<exists>p. receive_mmsg address_default 0
         [Recv_error EINTR, Recv_msgs [([7], sample_hdr), ([], sample_hdr), ([9], sample_hdr\<lparr>msg_trunc := True\<rparr>)]]
       = Some (Inr (Io_errno 0, [p], 3, [])) \<and> (3::nat) \<le> 72 \<and> pkt_data p = [7]"
proof -
  let ?as = "[Recv_error EINTR, Recv_msgs [([7], sample_hdr), ([], sample_hdr), ([9], sample_hdr\<lparr>msg_trunc := True\<rparr>)]]"
  let ?p = "\<lparr>pkt_path = \<lparr>path_local = address_default, path_remote = address_default\<rparr>,
      pkt_data = [7::byte], pkt_ecn = 0\<rparr>"
  have r: "receive_mmsg address_default 0 ?as = Some (Inr (Io_errno 0, [?p], 3, []))"
    by (simp add: process_sample utils_consts) (simp add: process_packet_def utils_consts)
  have "list_all batch_ok ?as" by (simp add: batch_ok_def utils_consts)
  from receive_mmsg_in_order_bounded [OF r this] r show ?thesis by auto
qed

lemma receive_mmsg_returns_aux:
  "count < MAX_RECEIVE_PER_LOOP \<Longrightarrow>
   MAX_RECEIVE_PER_LOOP \<le> count + DATAGRAM_BATCH_SIZE * length (filter (\<lambda>a. a \<noteq> Recv_error EINTR) as) \<Longrightarrow>
   \<exists>r. receive_mmsg bound count as = Some r"
proof (induction bound count as rule: receive_mmsg.induct)
  case (3 bound count ms as)
  show ?case
  proof (cases "ms = [] \<or> length ms < DATAGRAM_BATCH_SIZE \<or> \<not> count + length ms < MAX_RECEIVE_PER_LOOP")
    case True
    then show ?thesis by (auto simp: Let_def split: sum.splits)
  next
    case False
    show ?thesis
    proof (cases "process_all bound ms")
      case (Inr ps)
      from False "3.prems" have "MAX_RECEIVE_PER_LOOP \<le> count + length ms +
          DATAGRAM_BATCH_SIZE * length (filter (\<lambda>a. a \<noteq> Recv_error EINTR) as)" by simp
      with "3.IH" [OF _ Inr refl] False obtain r where
        "receive_mmsg bound (count + length ms) as = Some r" by auto
      with False Inr show ?thesis by (auto simp: Let_def)
    qed (use False in simp)
  qed
qed auto

text \<open>
  A \<^verbatim>\<open>recvmmsg\<close> receive returns: three answers of the kernel other than an interruption are
  enough, however many interrupted calls come in between.
\<close>

theorem receive_mmsg_returns:
  assumes "3 \<le> length (filter (\<lambda>a. a \<noteq> Recv_error EINTR) as)"
  shows "\<exists>r. receive_mmsg bound 0 as = Some r"
  using assms by (intro receive_mmsg_returns_aux) (simp_all add: utils_consts)

theorem receive_mmsg_returns_witness:
  "\<exists>r. receive_mmsg address_default 0
     [Recv_error EINTR, Recv_msgs [], Recv_error EAGAIN, Recv_error EAGAIN] = Some r"
  by (rule receive_mmsg_returns) (simp add: utils_consts)

lemma process_all_no_control:
  "process_all bound ms = Inr ps \<Longrightarrow> list_all (\<lambda>m. msg_control (snd m) = []) ms \<Longrightarrow>
   list_all (\<lambda>p. pkt_ecn p = 0) ps"
proof (induction ms arbitrary: ps)
  case (Cons m ms)
  then show ?case
    by (cases m) (auto simp: process_packet_def packet_make_def Let_def elim!: and_then_InrE split: if_splits)
qed simp

text \<open>
  The receive loops pass the kernel no control buffer, so no message carries control data, and
  then every delivered packet reports ECN 0, although the socket asked for the traffic class.
\<close>

theorem received_ecn_always_zero:
  assumes "receive_mmsg bound 0 as = Some (Inr (res, ps, n, as'))"
    and "list_all (\<lambda>a. list_all (\<lambda>m. msg_control (snd m) = []) (answer_msgs a)) as"
  shows "list_all (\<lambda>p. pkt_ecn p = 0) ps"
proof -
  from receive_mmsg_consumes [OF assms(1)] obtain used where
    used: "as = used @ as'" "process_all bound (concat (map answer_msgs used)) = Inr ps" by blast
  with assms(2) have "list_all (\<lambda>m. msg_control (snd m) = []) (concat (map answer_msgs used))"
    by (auto simp: list_all_iff)
  with used(2) show ?thesis by (rule process_all_no_control)
qed

theorem received_ecn_always_zero_witness:
  "list_all (\<lambda>p. pkt_ecn p = 0) [\<lparr>pkt_path = \<lparr>path_local = address_default, path_remote = address_default\<rparr>,
      pkt_data = [7], pkt_ecn = 0\<rparr>]"
proof (rule received_ecn_always_zero)
  show "receive_mmsg address_default 0 [Recv_msgs [([7], sample_hdr)]] =
    Some (Inr (Io_errno 0, [\<lparr>pkt_path = \<lparr>path_local = address_default, path_remote = address_default\<rparr>,
      pkt_data = [7], pkt_ecn = 0\<rparr>], 1, []))"
    by (simp add: process_sample utils_consts)
  show "list_all (\<lambda>a. list_all (\<lambda>m. msg_control (snd m) = []) (answer_msgs a)) [Recv_msgs [([7], sample_hdr)]]"
    by (simp add: sample_hdr_def)
qed


section \<open>GSO batches partition the packets\<close>

definition expand :: "gso_msg list \<Rightarrow> nat list" where
  "expand ms = concat (map (\<lambda>m. replicate (seg_count m) (seg_size m)) ms)"

text \<open>
  Messages laid out one behind the other from offset \<open>off\<close>, the first being message number \<open>k\<close>: each
  covers its segments exactly, and a message of several segments has a control buffer of its own,
  inside the array.
\<close>

fun gso_wf :: "nat \<Rightarrow> nat \<Rightarrow> gso_msg list \<Rightarrow> bool" where
  "gso_wf k off [] = True"
| "gso_wf k off (m # ms) \<longleftrightarrow>
     iov_off m = off \<and> iov_len m = seg_count m * seg_size m \<and> 0 < seg_count m \<and>
     control m = (if 1 < seg_count m then Some (k + 1) else None) \<and>
     (1 < seg_count m \<longrightarrow> k + 1 < DATAGRAM_BATCH_SIZE) \<and>
     gso_wf (k + 1) (off + iov_len m) ms"

definition payload_size :: "nat \<Rightarrow> bool" where
  "payload_size b \<longleftrightarrow> 0 < b \<and> b < 2 ^ 16"

lemma expand_simps [simp]:
  "expand [] = []"
  "expand (m # ms) = replicate (seg_count m) (seg_size m) @ expand ms"
  by (simp_all add: expand_def)

lemma gso_loop_correct:
  assumes "list_all payload_size bs"
    and "cnt = 0 \<and> sz = 0 \<or> 0 < cnt \<and> bs \<noteq> [] \<and> hd bs = sz"
    and "length ms + cnt + length bs \<le> DATAGRAM_BATCH_SIZE"
  shows "\<exists>new. gso_loop bs sz cnt off ms = Inr (ms @ new) \<and>
    expand new = replicate cnt sz @ bs \<and> gso_wf (length ms) off new"
  using assms
proof (induction bs sz cnt off ms rule: gso_loop.induct)
  case (1 sz cnt off ms)
  then show ?case by simp
next
  case (2 b bs sz cnt off ms)
  from "2.prems"(1,2) have sz': "(if sz = 0 then b mod 2 ^ 16 else sz) = b"
    by (auto simp: payload_size_def)
  have rep: "replicate cnt sz @ b # bs = replicate (cnt + 1) b @ bs"
    using "2.prems"(2) by (auto simp: replicate_append_same)
  have room: "\<not> DATAGRAM_BATCH_SIZE \<le> length ms" using "2.prems"(3) by simp
  show ?case
  proof (cases "bs \<noteq> [] \<and> hd bs = b")
    case True
    then have "\<exists>new. gso_loop bs b (cnt + 1) off ms = Inr (ms @ new) \<and>
        expand new = replicate (cnt + 1) b @ bs \<and> gso_wf (length ms) off new"
      using "2.IH"(1) [OF room refl refl] "2.prems" by (simp add: sz')
    with True room show ?thesis unfolding rep by (simp add: Let_def sz')
  next
    case False
    let ?m = "\<lparr>seg_size = b, seg_count = cnt + 1, iov_off = off, iov_len = (cnt + 1) * b,
      control = (if 1 < cnt + 1 then Some (length ms + 1) else None)\<rparr>"
    have room1: "\<not> (1 < cnt + 1 \<and> DATAGRAM_BATCH_SIZE \<le> length ms + 1)" using "2.prems"(3) by auto
    then have "\<exists>new. gso_loop bs 0 0 (off + (cnt + 1) * b) (ms @ [?m]) = Inr ((ms @ [?m]) @ new) \<and>
        expand new = replicate 0 0 @ bs \<and> gso_wf (length (ms @ [?m])) (off + (cnt + 1) * b) new"
      using "2.IH"(2) [OF room refl refl] False "2.prems" by (simp add: sz' Let_def)
    then obtain new where new: "gso_loop bs 0 0 (off + (cnt + 1) * b) (ms @ [?m]) = Inr (ms @ ?m # new)"
      "expand new = bs" "gso_wf (length ms + 1) (off + (cnt + 1) * b) new" by auto
    have "gso_loop (b # bs) sz cnt off ms = Inr (ms @ ?m # new)"
      using False room room1 new(1) by (auto simp: Let_def sz' simp del: mult_Suc)
    moreover have "expand (?m # new) = replicate cnt sz @ b # bs"
      using new(2) rep by simp
    moreover have "gso_wf (length ms) off (?m # new)"
      using new(3) room1 by (auto simp del: mult_Suc)
    ultimately show ?thesis by blast
  qed
qed

lemma gso_wf_shape:
  "gso_wf k off ms \<Longrightarrow> list_all (\<lambda>m. iov_len m = seg_count m * seg_size m \<and> 0 < seg_count m) ms"
  by (induction k off ms rule: gso_wf.induct) auto

lemma gso_partition:
  assumes "list_all payload_size sizes" and "length sizes \<le> DATAGRAM_BATCH_SIZE"
  shows "\<exists>ms. gso_loop sizes 0 0 0 [] = Inr ms \<and> expand ms = sizes \<and> gso_wf 0 0 ms"
  using gso_loop_correct [OF assms(1), of 0 0 "[]" 0] assms(2) by simp

text \<open>
  C16: The GSO batching of \<^verbatim>\<open>UDPSocket::send\<close>, for at most 24 packets of 1 to 65535 bytes, stays inside all its arrays
  (the control array included, which it indexes after it incremented the index) and partitions the packets: expanding the
  messages into their segments gives back the packet sizes in order, the messages lie one behind the other in the buffer, and
  each has exactly the length of its segments.
\<close>

theorem gso_batches_partition:
  assumes "list_all payload_size sizes" and "length sizes \<le> DATAGRAM_BATCH_SIZE"
  shows "\<exists>ms. gso_loop sizes 0 0 0 [] = Inr ms \<and> expand ms = sizes \<and> gso_wf 0 0 ms"
  using assms by (rule gso_partition)

theorem gso_batches_partition_witness:
  "\<exists>ms. gso_loop [1200, 1200, 700] 0 0 0 [] = Inr ms \<and> expand ms = [1200, 1200, 700] \<and> gso_wf 0 0 ms"
  by (rule gso_batches_partition) (simp_all add: payload_size_def utils_consts)

section \<open>Counting what was sent\<close>

text \<open>The \<^verbatim>\<open>msg_len\<close> fields when the kernel accepted exactly the first \<open>p\<close> packets.\<close>

fun lens_of :: "nat \<Rightarrow> gso_msg list \<Rightarrow> nat list" where
  "lens_of p [] = []"
| "lens_of p (m # ms) =
     (if seg_count m \<le> p then iov_len m # lens_of (p - seg_count m) ms
      else p * seg_size m # replicate (length ms) 0)"

definition seg_total :: "gso_msg list \<Rightarrow> nat" where
  "seg_total ms = sum_list (map seg_count ms)"

lemma length_expand: "length (expand ms) = seg_total ms"
  by (induction ms) (simp_all add: seg_total_def)

definition msg_ok :: "gso_msg \<Rightarrow> bool" where
  "msg_ok m \<longleftrightarrow> iov_len m = seg_count m * seg_size m \<and> 0 < seg_count m \<and> 0 < seg_size m"

lemma gso_count_none: "list_all msg_ok ms \<Longrightarrow> gso_count_sent True ms (replicate (length ms) 0) = Inr 0"
  by (induction ms) (auto simp: msg_ok_def)

lemma gso_count_lens:
  "list_all msg_ok ms \<Longrightarrow> p \<le> seg_total ms \<Longrightarrow> gso_count_sent False ms (lens_of p ms) = Inr p"
proof (induction ms arbitrary: p)
  case Nil
  then show ?case by (simp add: seg_total_def)
next
  case (Cons m ms)
  show ?case
  proof (cases "seg_count m \<le> p")
    case True
    with Cons have "gso_count_sent False ms (lens_of (p - seg_count m) ms) = Inr (p - seg_count m)"
      by (simp add: seg_total_def)
    with True show ?thesis by simp
  next
    case False
    with Cons.prems have lt: "p * seg_size m < iov_len m"
      by (simp add: msg_ok_def)
    moreover have "gso_count_sent True ms (replicate (length ms) 0) = Inr 0"
      using Cons.prems by (simp add: gso_count_none)
    ultimately show ?thesis using False Cons.prems by (simp add: msg_ok_def)
  qed
qed

text \<open>
  After a GSO send of which the kernel accepted exactly the first \<open>p\<close> packets (whole messages,
  then possibly some segments of one message, then nothing), no assertion fails and the count of
  sent packets is \<open>p\<close>, with a result that is not an error.
\<close>

theorem gso_counts_accepted_packets:
  assumes "list_all payload_size sizes" and "length sizes \<le> DATAGRAM_BATCH_SIZE" and "p \<le> length sizes"
    and "gso_loop sizes 0 0 0 [] = Inr ms"
  shows "udp_send_gso (Send_lens (lens_of p ms) # as) sizes = Some (Inr ((Io_errno 0, p), as))"
proof -
  from gso_partition [OF assms(1,2)] assms(4) have ex: "expand ms = sizes" and wf: "gso_wf 0 0 ms"
    by auto
  have "list_all (\<lambda>m. 0 < seg_count m \<longrightarrow> payload_size (seg_size m)) ms"
    using assms(1) unfolding ex [symmetric] by (auto simp: list_all_iff expand_def)
  with gso_wf_shape [OF wf] have ok: "list_all msg_ok ms"
    by (auto simp: list_all_iff msg_ok_def payload_size_def)
  from assms(3) ex have "p \<le> seg_total ms" by (simp add: length_expand [symmetric])
  with gso_count_lens [OF ok] assms(4) show ?thesis by (simp add: udp_send_gso_def)
qed


theorem gso_counts_accepted_packets_witness:
  "\<exists>ms. gso_loop [1200, 1200, 700] 0 0 0 [] = Inr ms \<and>
     udp_send_gso (Send_lens (lens_of 1 ms) # []) [1200, 1200, 700] = Some (Inr ((Io_errno 0, 1), []))"
proof -
  have sizes: "list_all payload_size [1200, 1200, 700]" "length [1200, 1200, 700::nat] \<le> DATAGRAM_BATCH_SIZE"
    by (simp_all add: payload_size_def utils_consts)
  from gso_partition [OF sizes] obtain ms where ms: "gso_loop [1200, 1200, 700] 0 0 0 [] = Inr ms" by blast
  from gso_counts_accepted_packets [OF sizes _ ms, of 1 "[]"] ms show ?thesis by simp
qed

section \<open>The sending contract\<close>

text \<open>
  What the endpoint relies on, whichever implementation was compiled in: of a non-empty list of
  packets at most all are sent, and an error means that not all were.  \<open>os_ok\<close> is what the
  implementation relies on of the kernel.
\<close>

locale udp_sender =
  fixes send :: "'os \<Rightarrow> nat list \<Rightarrow> ((io_result \<times> nat) \<times> 'os) result option"
    and os_ok :: "'os \<Rightarrow> nat list \<Rightarrow> bool"
  assumes sent_le:
      "os_ok os sizes \<Longrightarrow> send os sizes = Some (Inr ((r, sent), os')) \<Longrightarrow> sent \<le> length sizes"
    and failure_sent_less:
      "os_ok os sizes \<Longrightarrow> send os sizes = Some (Inr ((r, sent), os')) \<Longrightarrow> sizes \<noteq> [] \<Longrightarrow>
       io_failure r \<Longrightarrow> sent < length sizes"

lemma gso_loop_counts:
  "gso_loop bs sz cnt off ms = Inr ms' \<Longrightarrow> cnt = 0 \<or> bs \<noteq> [] \<Longrightarrow>
   list_all (\<lambda>m. iov_len m = seg_count m * seg_size m) ms \<Longrightarrow>
   seg_total ms' = seg_total ms + cnt + length bs \<and>
   list_all (\<lambda>m. iov_len m = seg_count m * seg_size m) ms'"
proof (induction bs sz cnt off ms rule: gso_loop.induct)
  case (2 b bs sz cnt off ms)
  then have room: "\<not> DATAGRAM_BATCH_SIZE \<le> length ms" by (auto split: if_splits)
  show ?case
  proof (cases "bs \<noteq> [] \<and> hd bs = (if sz = 0 then b mod 2 ^ 16 else sz)")
    case True
    with 2 room show ?thesis using "2.IH"(1) [OF room refl refl] by (simp add: Let_def)
  next
    case False
    with 2 room show ?thesis
      using "2.IH"(2) [OF room refl refl] by (auto simp: Let_def seg_total_def split: if_splits)
  qed
qed simp

lemma gso_count_le:
  "gso_count_sent u ms lens = Inr n \<Longrightarrow> list_all (\<lambda>m. iov_len m = seg_count m * seg_size m) ms \<Longrightarrow>
   n \<le> seg_total ms"
proof (induction u ms lens arbitrary: n rule: gso_count_sent.induct)
  case (2 u m ms lens)
  let ?l = "case lens of [] \<Rightarrow> 0 | x # _ \<Rightarrow> x"
  show ?case
  proof (cases "?l < iov_len m")
    case True
    with "2.prems" have "?l div seg_size m \<le> seg_count m"
      by (simp add: less_mult_imp_div_less less_imp_le)
    moreover from True "2.prems" obtain k where
      "gso_count_sent True ms (tl lens) = Inr k" "n = ?l div seg_size m + k"
      by (auto simp: Let_def elim!: and_then_InrE split: if_splits)
    ultimately show ?thesis
      using "2.IH"(1) [OF refl True] "2.prems" True by (auto simp: seg_total_def Let_def split: if_splits)
  next
    case False
    with 2 show ?thesis by (auto simp: seg_total_def Let_def elim!: and_then_InrE split: if_splits)
  qed
qed (simp add: seg_total_def)

lemma udp_send_gso_cases:
  assumes "udp_send_gso as sizes = Some (Inr ((r, sent), as'))"
  shows "sent \<le> length sizes \<and> (io_failure r \<longrightarrow> sent = 0)"
proof -
  from assms obtain ms where ms: "gso_loop sizes 0 0 0 [] = Inr ms"
    by (auto simp: udp_send_gso_def split: sum.splits)
  from gso_loop_counts [OF ms] have
    tot: "seg_total ms = length sizes" and
    shape: "list_all (\<lambda>m. iov_len m = seg_count m * seg_size m) ms"
    by (simp_all add: seg_total_def)
  from assms ms consider "sent = 0"
    | lens where "gso_count_sent False ms lens = Inr sent" "r = Io_errno 0"
    by (auto simp: udp_send_gso_def elim!: and_then_InrE split: option.splits send_answer.splits)
  then show ?thesis
    using gso_count_le [OF _ shape] tot by cases (auto simp: io_failure_def)
qed

interpretation gso: udp_sender udp_send_gso "\<lambda>_ _. True"
  by unfold_locales (auto dest!: udp_send_gso_cases)

definition mmsg_ok :: "send_answer list \<Rightarrow> nat list \<Rightarrow> bool" where
  "mmsg_ok as sizes \<longleftrightarrow>
     list_all (\<lambda>a. case a of Send_lens lens \<Rightarrow> length lens \<le> length sizes | _ \<Rightarrow> True) as"

lemma eintr_retry_in: "eintr_retry as = Some (a, as') \<Longrightarrow> a \<in> set as"
  by (induction as) (auto split: if_splits)

lemma udp_send_mmsg_cases:
  assumes "udp_send_mmsg as sizes = Some (Inr ((r, sent), as'))" and "mmsg_ok as sizes"
  shows "sent \<le> length sizes \<and> (io_failure r \<longrightarrow> sent = 0)"
  using assms
  by (auto simp: udp_send_mmsg_def mmsg_ok_def list_all_iff io_failure_def dest!: eintr_retry_in
      split: if_splits option.splits send_answer.splits)

interpretation mmsg: udp_sender udp_send_mmsg mmsg_ok
  by unfold_locales (auto dest!: udp_send_mmsg_cases)

lemma udp_send_loop_cases:
  "udp_send_loop k as sizes = Some (Inr ((r, sent), as')) \<Longrightarrow>
   k \<le> sent \<and> sent \<le> k + length sizes \<and> (io_failure r \<longrightarrow> sent < k + length sizes)"
proof (induction k as sizes rule: udp_send_loop.induct)
  case (1 k as)
  then show ?case by (auto simp: io_failure_def)
next
  case (2 k as b bs)
  then show ?case
    by (fastforce split: if_splits list.splits send_answer.splits)
qed

interpretation msg: udp_sender udp_send_msg "\<lambda>_ _. True"
  by unfold_locales (auto simp: udp_send_msg_def dest!: udp_send_loop_cases)

end
