(* ===== verification/Quic_Send.thy ===== *)
theory Quic_Send
  imports Quic_Udp
begin

text \<open>
  The sending side of the endpoint (\<^verbatim>\<open>Endpoint::send_packets\<close> and \<^verbatim>\<open>Endpoint::send_or_queue_packet\<close> in
  \<^verbatim>\<open>src/endpoint.cpp\<close>) on top of any UDP sender: a batch of packets packed into one buffer, of which
  the socket takes a prefix, and the shift of the unsent rest to the front of the buffer.  The
  batch is specified by the list of its packets, and one call drops a prefix of that list.
\<close>

section \<open>Batches\<close>

datatype send_mode = Send_GSO | Send_MMSG | Send_MSG

definition MAX_BATCH :: "send_mode \<Rightarrow> nat" where
  "MAX_BATCH m = (case m of Send_MSG \<Rightarrow> 1 | _ \<Rightarrow> DATAGRAM_BATCH_SIZE)"

definition udp_send :: "send_mode \<Rightarrow> send_answer list \<Rightarrow> nat list \<Rightarrow> send_result" where
  "udp_send m = (case m of Send_GSO \<Rightarrow> udp_send_gso | Send_MMSG \<Rightarrow> udp_send_mmsg | Send_MSG \<Rightarrow> udp_send_msg)"

definition udp_os_ok :: "send_mode \<Rightarrow> send_answer list \<Rightarrow> nat list \<Rightarrow> bool" where
  "udp_os_ok m as sizes \<longleftrightarrow> (m = Send_MMSG \<longrightarrow> mmsg_ok as sizes)"

interpretation usend: udp_sender "udp_send m" "udp_os_ok m" for m
proof (unfold_locales, goal_cases)
  case (1 os sizes r sent os')
  then show ?case
    by (cases m) (auto simp: udp_send_def udp_os_ok_def intro: gso.sent_le mmsg.sent_le msg.sent_le)
next
  case (2 os sizes r sent os')
  then show ?case
    by (cases m) (auto simp: udp_send_def udp_os_ok_def
        intro: gso.failure_sent_less mmsg.failure_sent_less msg.failure_sent_less)
qed

text \<open>The send buffer, the sizes array and the number of packets in them.\<close>

record send_batch =
  sb_buf :: bytes
  sb_sizes :: "nat list"
  sb_n :: nat

text \<open>
  The shift after a partial send, \<^verbatim>\<open>memmove\<close> on the buffer and \<^verbatim>\<open>copy\<close> on the sizes: the tails of both
  arrays keep their old contents.
\<close>

definition shift_batch :: "nat \<Rightarrow> send_batch \<Rightarrow> send_batch" where
  "shift_batch sent b =
     (let offset = sum_list (take sent (sb_sizes b));
          len = sum_list (take (sb_n b - sent) (drop sent (sb_sizes b)))
      in b\<lparr>sb_buf := take len (drop offset (sb_buf b)) @ drop len (sb_buf b),
           sb_sizes := take (sb_n b - sent) (drop sent (sb_sizes b)) @ drop (sb_n b - sent) (sb_sizes b),
           sb_n := sb_n b - sent\<rparr>)"

definition send_packets ::
  "bool \<Rightarrow> nat \<Rightarrow> ('os \<Rightarrow> nat list \<Rightarrow> ((io_result \<times> nat) \<times> 'os) result option) \<Rightarrow>
   send_batch \<Rightarrow> 'os \<Rightarrow> (io_result \<times> send_batch \<times> 'os) result option" where
  "send_packets socket max_batch send b os =
     (if \<not> socket then Some (Inr (Io_errno EBADF, b, os))
      else if \<not> (1 \<le> sb_n b \<and> sb_n b \<le> max_batch) then Some (Inl Assertion_failed)
      else case send os (take (sb_n b) (sb_sizes b)) of
        None \<Rightarrow> None
      | Some (Inl f) \<Rightarrow> Some (Inl f)
      | Some (Inr ((ret, sent), os')) \<Rightarrow>
          (if io_failure ret \<and> \<not> io_blocked ret
           then Some (Inr (ret, b\<lparr>sb_n := 0\<rparr>, os'))
           else if sent < sb_n b
           then Some (Inr (Io_errno EAGAIN, if sent = 0 then b else shift_batch sent b, os'))
           else Some (Inr (ret, b\<lparr>sb_n := 0\<rparr>, os'))))"

text \<open>
  \<^verbatim>\<open>send_or_queue_packet\<close>: whether the packet was queued for a retry, the calls of the callback, and
  the kernel's state.
\<close>

definition send_or_queue_packet ::
  "bool \<Rightarrow> nat \<Rightarrow> ('os \<Rightarrow> nat list \<Rightarrow> ((io_result \<times> nat) \<times> 'os) result option) \<Rightarrow>
   bytes \<Rightarrow> bool \<Rightarrow> 'os \<Rightarrow> (bool \<times> io_result list \<times> 'os) result option" where
  "send_or_queue_packet socket max_batch send buf has_cb os =
     (if \<not> socket then Some (Inr (False, if has_cb then [Io_errno EBADF] else [], os))
      else case send_packets socket max_batch send
                  \<lparr>sb_buf = buf, sb_sizes = [length buf], sb_n = 1\<rparr> os of
        None \<Rightarrow> None
      | Some (Inl f) \<Rightarrow> Some (Inl f)
      | Some (Inr (res, b, os')) \<Rightarrow> Some (Inr (io_blocked res, [], os')))"

section \<open>The batch as a list of packets\<close>

fun split_packets :: "bytes \<Rightarrow> nat list \<Rightarrow> bytes list" where
  "split_packets buf [] = []"
| "split_packets buf (n # ns) = take n buf # split_packets (drop n buf) ns"

definition batch_packets :: "send_batch \<Rightarrow> bytes list" where
  "batch_packets b = split_packets (sb_buf b) (take (sb_n b) (sb_sizes b))"

definition batch_wf :: "send_batch \<Rightarrow> bool" where
  "batch_wf b \<longleftrightarrow> sb_n b \<le> length (sb_sizes b) \<and> sum_list (take (sb_n b) (sb_sizes b)) \<le> length (sb_buf b)"

lemma split_packets_append:
  "split_packets buf (ns @ ms) = split_packets buf ns @ split_packets (drop (sum_list ns) buf) ms"
  by (induction ns arbitrary: buf) (simp_all add: add.commute)

lemma length_split_packets [simp]: "length (split_packets buf ns) = length ns"
  by (induction ns arbitrary: buf) simp_all

lemma split_packets_prefix:
  "sum_list ns \<le> length buf \<Longrightarrow> split_packets (buf @ rest) ns = split_packets buf ns"
  by (induction ns arbitrary: buf) simp_all

lemma split_packets_take:
  "sum_list ns \<le> k \<Longrightarrow> split_packets (take k buf) ns = split_packets buf ns"
  by (induction ns arbitrary: buf k) (simp_all add: min_absorb1 drop_take)

lemma shift_batch_n [simp]: "sb_n (shift_batch sent b) = sb_n b - sent"
  by (simp add: shift_batch_def Let_def)

lemma shift_batch_lengths:
  assumes "batch_wf b" and "sent \<le> sb_n b"
  shows "length (sb_sizes (shift_batch sent b)) = length (sb_sizes b)"
    and "length (sb_buf (shift_batch sent b)) = length (sb_buf b)"
proof -
  let ?n = "sb_n b" and ?ss = "sb_sizes b"
  have split: "take ?n ?ss = take sent ?ss @ take (?n - sent) (drop sent ?ss)"
    using assms(2) by (metis le_add_diff_inverse take_add)
  show "length (sb_sizes (shift_batch sent b)) = length ?ss"
    using assms by (auto simp: shift_batch_def Let_def batch_wf_def)
  from assms(1) split have "sum_list (take sent ?ss) + sum_list (take (?n - sent) (drop sent ?ss))
      \<le> length (sb_buf b)"
    by (simp add: batch_wf_def)
  then show "length (sb_buf (shift_batch sent b)) = length (sb_buf b)"
    by (simp add: shift_batch_def Let_def)
qed

lemma shift_batch_packets:
  assumes wf: "batch_wf b" and sent: "sent \<le> sb_n b"
  shows "batch_packets (shift_batch sent b) = drop sent (batch_packets b) \<and> batch_wf (shift_batch sent b)"
proof -
  let ?n = "sb_n b" and ?ss = "sb_sizes b"
  define rest where "rest = take (?n - sent) (drop sent ?ss)"
  define off where "off = sum_list (take sent ?ss)"
  have split: "take ?n ?ss = take sent ?ss @ rest"
    unfolding rest_def using sent by (metis le_add_diff_inverse take_add)
  have len: "length (take sent ?ss) = sent" "length rest = ?n - sent"
    using wf sent by (auto simp: batch_wf_def rest_def)
  have tot: "off + sum_list rest \<le> length (sb_buf b)"
    using wf by (simp add: batch_wf_def split off_def)
  have buf': "sb_buf (shift_batch sent b) = take (sum_list rest) (drop off (sb_buf b)) @ drop (sum_list rest) (sb_buf b)"
    and ss': "sb_sizes (shift_batch sent b) = rest @ drop (?n - sent) ?ss"
    by (simp_all add: shift_batch_def Let_def rest_def off_def)
  have take': "take (?n - sent) (sb_sizes (shift_batch sent b)) = rest"
    by (simp add: ss' len(2))
  have "batch_packets (shift_batch sent b) = split_packets (drop off (sb_buf b)) rest"
    using tot by (simp add: batch_packets_def take' buf' split_packets_prefix split_packets_take)
  also have "\<dots> = drop sent (batch_packets b)"
    using len(1) by (simp add: batch_packets_def split split_packets_append off_def)
  finally have "batch_packets (shift_batch sent b) = drop sent (batch_packets b)" .
  moreover have "batch_wf (shift_batch sent b)"
    using shift_batch_lengths [OF wf sent] wf tot by (auto simp: batch_wf_def take')
  ultimately show ?thesis by blast
qed

section \<open>One call on any conforming sender\<close>

text \<open>The outcome of \<^verbatim>\<open>send_packets\<close> in terms of the packets, given what the socket returned.\<close>

definition send_outcome :: "io_result \<Rightarrow> nat \<Rightarrow> send_batch \<Rightarrow> io_result \<Rightarrow> send_batch \<Rightarrow> bool" where
  "send_outcome ret sent b res b' \<longleftrightarrow>
     length (sb_buf b') = length (sb_buf b) \<and> length (sb_sizes b') = length (sb_sizes b) \<and> batch_wf b' \<and>
     (if io_failure ret \<and> \<not> io_blocked ret then res = ret \<and> batch_packets b' = []
      else batch_packets b' = drop sent (batch_packets b) \<and>
           (if sent < sb_n b then io_blocked res \<and> 0 < sb_n b' else io_success res \<and> sb_n b' = 0))"

context udp_sender
begin

lemma send_packets_outcome:
  assumes wf: "batch_wf b" and n: "1 \<le> sb_n b" "sb_n b \<le> max_batch"
    and ok: "os_ok os (take (sb_n b) (sb_sizes b))"
    and ret: "send os (take (sb_n b) (sb_sizes b)) = Some (Inr ((ret, sent), os'))"
  shows "\<exists>res b'. send_packets True max_batch send b os = Some (Inr (res, b', os')) \<and>
    send_outcome ret sent b res b'"
proof -
  have len: "length (take (sb_n b) (sb_sizes b)) = sb_n b" using wf by (simp add: batch_wf_def)
  then have ne: "take (sb_n b) (sb_sizes b) \<noteq> []" using n(1) by auto
  from sent_le [OF ok ret] len have sent: "sent \<le> sb_n b" by simp
  have zero: "batch_wf (b\<lparr>sb_n := 0\<rparr>)" "batch_packets (b\<lparr>sb_n := 0\<rparr>) = []"
    by (simp_all add: batch_wf_def batch_packets_def)
  have all: "length (batch_packets b) = sb_n b" using len by (simp add: batch_packets_def)
  consider (fail) "io_failure ret \<and> \<not> io_blocked ret"
    | (part) "\<not> (io_failure ret \<and> \<not> io_blocked ret)" "sent < sb_n b"
    | (full) "\<not> (io_failure ret \<and> \<not> io_blocked ret)" "sent = sb_n b"
    using sent by linarith
  then show ?thesis
  proof cases
    case fail
    with n ret zero show ?thesis by (simp add: send_packets_def send_outcome_def)
  next
    case part
    let ?b' = "if sent = 0 then b else shift_batch sent b"
    have "send_packets True max_batch send b os = Some (Inr (Io_errno EAGAIN, ?b', os'))"
      using part n ret by (auto simp: send_packets_def)
    moreover have "send_outcome ret sent b (Io_errno EAGAIN) ?b'"
      using part wf n shift_batch_packets [OF wf sent] shift_batch_lengths [OF wf sent]
      by (auto simp: send_outcome_def)
    ultimately show ?thesis by blast
  next
    case full
    with failure_sent_less [OF ok ret ne] len have "io_success ret" by (auto simp: io_failure_def)
    with full n ret zero all show ?thesis by (simp add: send_packets_def send_outcome_def)
  qed
qed

end

text \<open>
  C7: \<^verbatim>\<open>Endpoint::send_packets\<close>, with any of the three UDP send implementations: if the socket takes
  the first \<open>sent\<close> of the queued packets, the batch left behind holds exactly the remaining packets,
  byte for byte and in order, moved to the front of the buffer; the result is blocked exactly when
  packets are left and a success when none are; on any other error the batch is emptied and that
  error returned.  The arrays keep their lengths.
\<close>

theorem send_packets_drops_sent_prefix:
  assumes "batch_wf b" and "1 \<le> sb_n b" and "sb_n b \<le> MAX_BATCH m"
    and "udp_os_ok m as (take (sb_n b) (sb_sizes b))"
    and "udp_send m as (take (sb_n b) (sb_sizes b)) = Some (Inr ((ret, sent), as'))"
  shows "\<exists>res b'. send_packets True (MAX_BATCH m) (udp_send m) b as = Some (Inr (res, b', as')) \<and>
    send_outcome ret sent b res b'"
  using assms by (rule usend.send_packets_outcome)

definition sample_batch :: send_batch where
  "sample_batch = \<lparr>sb_buf = [1, 2, 3, 4, 5, 0, 0], sb_sizes = [2, 2, 1, 9], sb_n = 3\<rparr>"

theorem send_packets_drops_sent_prefix_witness:
  "\<exists>res b'. send_packets True (MAX_BATCH Send_MMSG) (udp_send Send_MMSG) sample_batch [Send_lens [2]]
      = Some (Inr (res, b', [])) \<and> send_outcome (Io_errno 0) 1 sample_batch res b'"
  by (rule send_packets_drops_sent_prefix)
    (simp_all add: batch_wf_def sample_batch_def MAX_BATCH_def utils_consts udp_os_ok_def mmsg_ok_def
      udp_send_def udp_send_mmsg_def)

text \<open>
  \<^verbatim>\<open>send_or_queue_packet\<close> calls its callback only when the socket is gone: after a successful send
  and after a failed one alike the callback is never called.
\<close>

theorem send_or_queue_callback_only_when_dead:
  assumes "send_or_queue_packet socket mb send buf has_cb os = Some (Inr (queued, calls, os'))"
  shows "calls \<noteq> [] \<longleftrightarrow> \<not> socket \<and> has_cb"
  using assms by (auto simp: send_or_queue_packet_def split: if_splits option.splits sum.splits)

theorem send_or_queue_callback_only_when_dead_witness:
  "send_or_queue_packet True 1 (udp_send Send_MSG) [1, 2] True [Send_error 5] = Some (Inr (False, [], [])) \<and>
   \<not> (([] :: io_result list) \<noteq> [])"
proof -
  have r: "send_or_queue_packet True 1 (udp_send Send_MSG) [1, 2] True [Send_error 5] = Some (Inr (False, [], []))"
    by (simp add: send_or_queue_packet_def send_packets_def udp_send_def udp_send_msg_def utils_consts
        io_failure_def)
  from send_or_queue_callback_only_when_dead [OF r] r show ?thesis by simp
qed

end
