(* ===== verification/Quic_Connection.thy ===== *)
theory Quic_Connection
  imports Quic_Stream Quic_Send
begin

text \<open>
  The connection of \<^verbatim>\<open>include/quic/connection.hpp\<close> and \<^verbatim>\<open>src/connection.cpp\<close>: the map of active streams
  and the queue of streams that wait for a stream id, the loop that turns stream data into batches
  of packets (\<^verbatim>\<open>flush_streams\<close>, \<^verbatim>\<open>send\<close>), the retransmission timer and the callbacks ngtcp2 makes.

  ngtcp2 and the application are parameters: ngtcp2 is a record of functions over its own opaque
  state, and the application answers each of its callbacks with a list of calls into the library.
  Stream objects live in a heap and are named by their index in it, so that the map, the pending
  queue and the application share one object as their \<^verbatim>\<open>shared_ptr\<close>s do.
\<close>

section \<open>The interfaces of the connection\<close>

text \<open>One call of \<^verbatim>\<open>ngtcp2_conn_writev_stream\<close> (always with the \<^verbatim>\<open>MORE\<close> flag) and what it returns: a
  negative code, or the datagram it wrote (empty when congested or done), each with \<^verbatim>\<open>ndatalen\<close>.\<close>

record write_req =
  wr_stream_id :: int
  wr_fin :: bool
  wr_bufs :: "bytes list"
  wr_destlen :: nat
  wr_ts :: u64

datatype write_res = Write_error ng_rv int | Wrote bytes int byte

text \<open>The callbacks ngtcp2 makes while it reads a packet.\<close>

datatype ng_event =
    Recv_stream_data bool int bytes
  | Acked_stream_data_offset int u64
  | Stream_open int
  | Stream_close int u64
  | Stream_reset int u64
  | Extend_max_local_streams_bidi u64

record 'ng ngtcp2 =
  ng_open_bidi_stream :: "'ng \<Rightarrow> int option \<times> 'ng"
  ng_streams_bidi_left :: "'ng \<Rightarrow> u64"
  ng_max_tx_udp_payload_size :: "'ng \<Rightarrow> u64"
  ng_send_quantum :: "'ng \<Rightarrow> u64"
  ng_writev_stream :: "write_req \<Rightarrow> 'ng \<Rightarrow> write_res \<times> 'ng"
  ng_update_pkt_tx_time :: "u64 \<Rightarrow> 'ng \<Rightarrow> 'ng"
  ng_get_expiry :: "'ng \<Rightarrow> u64"
  ng_handle_expiry :: "u64 \<Rightarrow> 'ng \<Rightarrow> ng_rv \<times> 'ng"
  ng_is_local_stream :: "int \<Rightarrow> 'ng \<Rightarrow> bool"
  ng_extend_max_streams_bidi :: "u64 \<Rightarrow> 'ng \<Rightarrow> 'ng"
  ng_extend_max_stream_offset :: "int \<Rightarrow> u64 \<Rightarrow> 'ng \<Rightarrow> 'ng"
  ng_extend_max_offset :: "u64 \<Rightarrow> 'ng \<Rightarrow> 'ng"
  ng_shutdown_stream :: "int \<Rightarrow> u64 \<Rightarrow> 'ng \<Rightarrow> 'ng"
  ng_in_closing_period :: "'ng \<Rightarrow> bool"
  ng_get_pto :: "'ng \<Rightarrow> u64"
  ng_write_connection_close :: "ng_rv \<Rightarrow> string \<Rightarrow> nat \<Rightarrow> u64 \<Rightarrow> 'ng \<Rightarrow> int \<times> bytes \<times> 'ng"
  ng_strerror :: "ng_rv \<Rightarrow> string"
  ng_read_pkt :: "packet \<Rightarrow> u64 \<Rightarrow> 'ng \<Rightarrow> ng_event list \<times> ng_rv \<times> 'ng"

text \<open>
  The calls the library makes into the application, and what the application does in return: a list
  of library calls, with the value it returns from \<^verbatim>\<open>stream_open_callback\<close> and whether the data
  callback returns (rather than throws).  The answers may depend on every call made so far.
\<close>

datatype app_call =
    Open_called nat int
  | Data_called nat int bytes
  | Close_called close_cb int u64
  | Closing_called nat

datatype app_action =
    Act_send nat bytes keep_alive
  | Act_send_chunks nat "bytes list" bool int
  | Act_close nat u64
  | Act_set_data_callback nat "nat option"
  | Act_open_stream "nat option" "nat option"

record app =
  on_open :: "app_call list \<Rightarrow> app_action list \<times> u64"
  on_data :: "app_call list \<Rightarrow> app_action list \<times> bool"
  on_close :: "app_call list \<Rightarrow> app_action list"

text \<open>The callbacks and the configuration of \<^verbatim>\<open>ContextBase\<close> that a connection uses.\<close>

record conn_ctx =
  ctx_stream_data_cb :: "nat option"
  ctx_stream_open_cb :: "nat option"
  ctx_stream_close_cb :: "nat option"
  ctx_max_streams :: u64

text \<open>The endpoint's socket as the connection sees it.\<close>

record 'os udp_env =
  ue_socket :: bool
  ue_max_batch :: nat
  ue_send :: "'os \<Rightarrow> nat list \<Rightarrow> ((io_result \<times> nat) \<times> 'os) result option"

section \<open>State\<close>

text \<open>
  The libevent timer: \<open>None\<close> when not pending with a timeout.  \<^verbatim>\<open>event_add\<close> with a null timeout leaves
  the timeout that is scheduled, if any, as it is.
\<close>

record timeval =
  tv_sec :: u64
  tv_usec :: u64

record 'ng connection =
  cn_ng :: 'ng
  cn_ctx :: conn_ctx
  cn_dir :: direction
  cn_source_cid :: connection_id
  cn_dest_cid :: connection_id
  cn_path :: path
  on_closing :: "nat option"
  heap :: "stream list"
  streams :: "(int \<times> nat) list"
  pending_streams :: "nat list"
  batch :: send_batch
  send_ecn :: byte
  draining :: bool
  closing :: bool
  io_trigger :: bool
  retransmit_timer :: "timeval option"
  write_waits :: nat
  sent_counter :: int
  calls :: "app_call list"

definition n_packets :: "'ng connection \<Rightarrow> nat" where
  "n_packets c = sb_n (batch c)"

definition io_ready :: "'ng connection \<Rightarrow> 'ng connection" where
  "io_ready c = c\<lparr>io_trigger := True\<rparr>"

definition put_stream :: "nat \<Rightarrow> stream \<Rightarrow> 'ng connection \<Rightarrow> 'ng connection" where
  "put_stream r s c = c\<lparr>heap := (heap c)[r := s]\<rparr>"

text \<open>What a stream operation asks of its connection.\<close>

fun stream_effect :: "'ng ngtcp2 \<Rightarrow> stream_effect \<Rightarrow> 'ng connection \<Rightarrow> 'ng connection" where
  "stream_effect ng Io_ready c = io_ready c"
| "stream_effect ng (Shutdown_stream sid code) c = c\<lparr>cn_ng := ng_shutdown_stream ng sid code (cn_ng c)\<rparr>"

definition stream_effects :: "'ng ngtcp2 \<Rightarrow> stream_effect list \<Rightarrow> 'ng connection \<Rightarrow> 'ng connection" where
  "stream_effects ng es c = fold (stream_effect ng) es c"

section \<open>Opening streams\<close>

text \<open>
  \<^verbatim>\<open>check_pending_streams\<close>: the third argument is the pending queue, the second the streams popped
  so far.
\<close>

fun check_pending_loop ::
  "'ng ngtcp2 \<Rightarrow> int \<Rightarrow> int \<Rightarrow> nat list \<Rightarrow> 'ng connection \<Rightarrow> 'ng connection" where
  "check_pending_loop ng avail popped [] c = c\<lparr>pending_streams := []\<rparr>"
| "check_pending_loop ng avail popped (r # rs) c =
     (if popped < avail
      then case ng_open_bidi_stream ng (cn_ng c) of
          (Some sid, g) \<Rightarrow>
            check_pending_loop ng avail (popped + 1) rs
              ((put_stream r (set_ready ((heap c ! r)\<lparr>stream_id := sid\<rparr>)) c)
                 \<lparr>cn_ng := g, streams := omap_put sid r (streams c)\<rparr>)
        | (None, g) \<Rightarrow> c\<lparr>cn_ng := g, pending_streams := r # rs\<rparr>
      else c\<lparr>pending_streams := r # rs\<rparr>)"

definition check_pending_streams :: "'ng ngtcp2 \<Rightarrow> int \<Rightarrow> 'ng connection \<Rightarrow> 'ng connection" where
  "check_pending_streams ng avail c = check_pending_loop ng avail 0 (pending_streams c) c"

text \<open>The count of remaining streams is a \<^verbatim>\<open>uint64_t\<close>; the parameter of \<^verbatim>\<open>check_pending_streams\<close> is an \<^verbatim>\<open>int\<close>.\<close>

definition to_int32 :: "u64 \<Rightarrow> int" where
  "to_int32 w = sint (ucast w :: 32 word)"

definition extend_max_local_streams_bidi :: "'ng ngtcp2 \<Rightarrow> 'ng connection \<Rightarrow> 'ng connection" where
  "extend_max_local_streams_bidi ng c =
     (let remaining = ng_streams_bidi_left ng (cn_ng c)
      in if 0 < remaining then check_pending_streams ng (to_int32 remaining) c else c)"

definition get_streams_available :: "'ng ngtcp2 \<Rightarrow> 'ng connection \<Rightarrow> int" where
  "get_streams_available ng c =
     (let open = ng_streams_bidi_left ng (cn_ng c)
      in if open > - 1 then - 1 else to_int32 open)"

text \<open>\<^verbatim>\<open>get_new_stream\<close>: the new stream object is the last one of the heap.\<close>

definition get_new_stream ::
  "'ng ngtcp2 \<Rightarrow> nat option \<Rightarrow> nat option \<Rightarrow> 'ng connection \<Rightarrow> nat \<times> 'ng connection" where
  "get_new_stream ng data_cb close_cb c =
     (let data_cb' = (case data_cb of None \<Rightarrow> ctx_stream_data_cb (cn_ctx c) | Some d \<Rightarrow> Some d);
          s = stream_new data_cb' close_cb (- 1);
          r = length (heap c)
      in case ng_open_bidi_stream ng (cn_ng c) of
           (None, g) \<Rightarrow>
             (r, c\<lparr>cn_ng := g, heap := heap c @ [set_not_ready s], pending_streams := pending_streams c @ [r]\<rparr>)
         | (Some sid, g) \<Rightarrow>
             (r, c\<lparr>cn_ng := g, heap := heap c @ [set_ready (s\<lparr>stream_id := sid\<rparr>)],
                   streams := omap_put sid r (streams c)\<rparr>))"

section \<open>Calls of the application into the library\<close>

text \<open>
  On the event loop thread \<^verbatim>\<open>Network::call\<close> runs its job at once.  The application can only name stream
  objects it holds, so a name outside the heap is a use of an object that does not exist.
\<close>

fun do_action :: "'ng ngtcp2 \<Rightarrow> app_action \<Rightarrow> 'ng connection \<Rightarrow> 'ng connection result" where
  "do_action ng (Act_send r buf keep) c =
     (if length (heap c) \<le> r then Inl Use_of_destroyed_object
      else let (s, es) = append_buffer buf keep (heap c ! r) in Inr (stream_effects ng es (put_stream r s c)))"
| "do_action ng (Act_send_chunks r script d simultaneous) c =
     (if length (heap c) \<le> r then Inl Use_of_destroyed_object
      else and_then (send_chunks script d simultaneous (heap c ! r)) (\<lambda>(s, es).
        Inr (stream_effects ng es (put_stream r s c))))"
| "do_action ng (Act_close r code) c =
     (if length (heap c) \<le> r then Inl Use_of_destroyed_object
      else let (s, es) = stream_close code (heap c ! r) in Inr (stream_effects ng es (put_stream r s c)))"
| "do_action ng (Act_set_data_callback r cb) c =
     (if length (heap c) \<le> r then Inl Use_of_destroyed_object
      else Inr (put_stream r ((heap c ! r)\<lparr>data_callback := cb\<rparr>) c))"
| "do_action ng (Act_open_stream data_cb close_cb) c = Inr (snd (get_new_stream ng data_cb close_cb c))"

fun do_actions :: "'ng ngtcp2 \<Rightarrow> app_action list \<Rightarrow> 'ng connection \<Rightarrow> 'ng connection result" where
  "do_actions ng [] c = Inr c"
| "do_actions ng (a # as) c = and_then (do_action ng a c) (do_actions ng as)"

section \<open>The callbacks of ngtcp2\<close>

text \<open>Callbacks return 0 or \<^verbatim>\<open>NGTCP2_ERR_CALLBACK_FAILURE\<close>.\<close>

definition call_open_callback ::
  "'ng ngtcp2 \<Rightarrow> app \<Rightarrow> int \<Rightarrow> 'ng connection \<Rightarrow> (u64 \<times> 'ng connection) result" where
  "call_open_callback ng ap sid c =
     (case ctx_stream_open_cb (cn_ctx c) of
        None \<Rightarrow> Inr (0, c)
      | Some f \<Rightarrow>
          (let c1 = c\<lparr>calls := calls c @ [Open_called f sid]\<rparr>;
               (as, code) = on_open ap (calls c1)
           in and_then (do_actions ng as c1) (\<lambda>c2. Inr (code, c2))))"

text \<open>\<^verbatim>\<open>stream_opened\<close> once the application has answered: refused, or entered into the map.\<close>

definition enter_stream ::
  "'ng ngtcp2 \<Rightarrow> nat \<Rightarrow> int \<Rightarrow> u64 \<Rightarrow> 'ng connection \<Rightarrow> (ng_rv \<times> 'ng connection) result" where
  "enter_stream ng r sid code c =
     (if code \<noteq> 0
      then let (s, es) = stream_close code (heap c ! r)
           in Inr (NG_OK, stream_effects ng es (put_stream r s c))
      else case omap_emplace sid r (streams c) of
          (m, True) \<Rightarrow> Inr (NG_OK, c\<lparr>streams := m\<rparr>)
        | (m, False) \<Rightarrow> Inl Assertion_failed)"

definition stream_opened :: "'ng ngtcp2 \<Rightarrow> app \<Rightarrow> int \<Rightarrow> 'ng connection \<Rightarrow> (ng_rv \<times> 'ng connection) result" where
  "stream_opened ng ap sid c =
     (let s = set_ready (stream_new (ctx_stream_data_cb (cn_ctx c)) (ctx_stream_close_cb (cn_ctx c)) sid)
      in and_then (call_open_callback ng ap sid (c\<lparr>heap := heap c @ [s]\<rparr>)) (\<lambda>(code, c1).
           enter_stream ng (length (heap c)) sid code c1))"

text \<open>The close callback of a stream object: the default one only logs.\<close>

definition call_close_callback ::
  "'ng ngtcp2 \<Rightarrow> app \<Rightarrow> close_cb \<Rightarrow> int \<Rightarrow> u64 \<Rightarrow> 'ng connection \<Rightarrow> 'ng connection result" where
  "call_close_callback ng ap cb sid code c =
     (case cb of
        Default_close \<Rightarrow> Inr c
      | User_close f \<Rightarrow>
          (let c1 = c\<lparr>calls := calls c @ [Close_called cb sid code]\<rparr>
           in do_actions ng (on_close ap (calls c1)) c1))"

text \<open>\<^verbatim>\<open>ngtcp2_is_bidi_stream\<close>: bit 1 of the stream id is clear.\<close>

definition is_bidi_stream :: "int \<Rightarrow> bool" where
  "is_bidi_stream sid \<longleftrightarrow> \<not> bit sid 1"

text \<open>The end of \<^verbatim>\<open>stream_closed\<close>: the stream leaves the map, and the peer may open another one.\<close>

definition erase_stream :: "'ng ngtcp2 \<Rightarrow> int \<Rightarrow> 'ng connection \<Rightarrow> 'ng connection" where
  "erase_stream ng sid c =
     io_ready (c\<lparr>streams := assoc_erase sid (streams c),
       cn_ng := (if ng_is_local_stream ng sid (cn_ng c) then cn_ng c
                 else ng_extend_max_streams_bidi ng 1 (cn_ng c))\<rparr>)"

definition stream_closed ::
  "'ng ngtcp2 \<Rightarrow> app \<Rightarrow> int \<Rightarrow> u64 \<Rightarrow> 'ng connection \<Rightarrow> 'ng connection result" where
  "stream_closed ng ap sid code c =
     (if \<not> is_bidi_stream sid then Inl Assertion_failed
      else case map_of (streams c) sid of
        None \<Rightarrow> Inr c
      | Some r \<Rightarrow>
          (case stream_mark_closed code (heap c ! r) of
             (s, []) \<Rightarrow> Inr (erase_stream ng sid (put_stream r s c))
           | (s, Close_call cb _ # _) \<Rightarrow>
               and_then (call_close_callback ng ap cb (stream_id s) code (put_stream r s c))
                 (\<lambda>c1. Inr (erase_stream ng sid c1))))"

definition stream_ack :: "'ng ngtcp2 \<Rightarrow> int \<Rightarrow> u64 \<Rightarrow> 'ng connection \<Rightarrow> (ng_rv \<times> 'ng connection) result" where
  "stream_ack ng sid n c =
     (case map_of (streams c) sid of
        None \<Rightarrow> Inr (NG_CALLBACK_FAILURE, c)
      | Some r \<Rightarrow>
          and_then (acknowledge n (heap c ! r)) (\<lambda>(s, _).
            Inr (NG_OK, stream_effects ng (chunk_wakeups (heap c ! r) s) (put_stream r s c))))"

text \<open>\<^verbatim>\<open>get_stream\<close> is \<^verbatim>\<open>streams.at\<close>, which throws for an unknown id.\<close>

definition get_stream :: "int \<Rightarrow> 'ng connection \<Rightarrow> nat result" where
  "get_stream sid c = (case map_of (streams c) sid of None \<Rightarrow> Inl Out_of_range | Some r \<Rightarrow> Inr r)"

text \<open>The data callback of a stream: whether it returned normally.\<close>

definition call_data_callback ::
  "'ng ngtcp2 \<Rightarrow> app \<Rightarrow> nat \<Rightarrow> int \<Rightarrow> bytes \<Rightarrow> 'ng connection \<Rightarrow> (bool \<times> 'ng connection) result" where
  "call_data_callback ng ap r sid data c =
     (case data_callback (heap c ! r) of
        None \<Rightarrow> Inr (True, c)
      | Some f \<Rightarrow>
          (let c1 = c\<lparr>calls := calls c @ [Data_called f sid data]\<rparr>;
               (as, good) = on_data ap (calls c1)
           in and_then (do_actions ng as c1) (\<lambda>c2. Inr (good, c2))))"

text \<open>What follows it: a stream whose callback threw is closed, otherwise the flow control windows grow.\<close>

definition receive_done ::
  "'ng ngtcp2 \<Rightarrow> nat \<Rightarrow> int \<Rightarrow> bytes \<Rightarrow> bool \<Rightarrow> bool \<Rightarrow> 'ng connection \<Rightarrow> ng_rv \<times> 'ng connection" where
  "receive_done ng r sid data fin good c =
     (if \<not> good
      then let (s, es) = stream_close STREAM_ERROR_EXCEPTION (heap c ! r)
           in (NG_CALLBACK_FAILURE, stream_effects ng es (put_stream r s c))
      else if fin then (NG_OK, c)
      else let n = of_nat (length data)
           in (NG_OK, c\<lparr>cn_ng := ng_extend_max_offset ng n (ng_extend_max_stream_offset ng sid n (cn_ng c))\<rparr>))"

definition stream_receive ::
  "'ng ngtcp2 \<Rightarrow> app \<Rightarrow> int \<Rightarrow> bytes \<Rightarrow> bool \<Rightarrow> 'ng connection \<Rightarrow> (ng_rv \<times> 'ng connection) result" where
  "stream_receive ng ap sid data fin c =
     and_then (get_stream sid c) (\<lambda>r.
     and_then (call_data_callback ng ap r sid data c) (\<lambda>(good, c2).
       Inr (receive_done ng r sid data fin good c2)))"

text \<open>The functions registered in \<^verbatim>\<open>Connection::init\<close>, one per event.\<close>

fun ng_callback ::
  "'ng ngtcp2 \<Rightarrow> app \<Rightarrow> ng_event \<Rightarrow> 'ng connection \<Rightarrow> (ng_rv \<times> 'ng connection) result" where
  "ng_callback ng ap (Recv_stream_data fin sid data) c = stream_receive ng ap sid data fin c"
| "ng_callback ng ap (Acked_stream_data_offset sid n) c = stream_ack ng sid n c"
| "ng_callback ng ap (Stream_open sid) c = stream_opened ng ap sid c"
| "ng_callback ng ap (Stream_close sid code) c = and_then (stream_closed ng ap sid code c) (\<lambda>c'. Inr (NG_OK, c'))"
| "ng_callback ng ap (Stream_reset sid code) c = and_then (stream_closed ng ap sid code c) (\<lambda>c'. Inr (NG_OK, c'))"
| "ng_callback ng ap (Extend_max_local_streams_bidi n) c = Inr (NG_OK, extend_max_local_streams_bidi ng c)"

text \<open>ngtcp2 makes its callbacks one after the other and gives up at the first that fails.\<close>

fun ng_callbacks ::
  "'ng ngtcp2 \<Rightarrow> app \<Rightarrow> ng_event list \<Rightarrow> 'ng connection \<Rightarrow> (ng_rv \<times> 'ng connection) result" where
  "ng_callbacks ng ap [] c = Inr (NG_OK, c)"
| "ng_callbacks ng ap (e # es) c =
     and_then (ng_callback ng ap e c) (\<lambda>(rv, c').
       if rv = NG_OK then ng_callbacks ng ap es c' else Inr (rv, c'))"

definition call_closing :: "'ng connection \<Rightarrow> 'ng connection" where
  "call_closing c =
     (case on_closing c of
        None \<Rightarrow> c
      | Some f \<Rightarrow> c\<lparr>calls := calls c @ [Closing_called f], on_closing := None\<rparr>)"

section \<open>Sending\<close>

text \<open>
  \<^verbatim>\<open>send\<close>: whether the caller can keep on sending, and whether it cancelled the packet timer update.
  When the socket blocks, one retry is registered with \<^verbatim>\<open>when_writeable\<close>.  \<open>sent_counter\<close> is the
  connection's share of the global counter of that name.
\<close>

definition conn_send ::
  "'os udp_env \<Rightarrow> 'ng connection \<Rightarrow> 'os \<Rightarrow> (bool \<times> bool \<times> 'ng connection \<times> 'os) result option" where
  "conn_send env c os =
     (if \<not> (0 < n_packets c \<and> n_packets c \<le> ue_max_batch env) then Some (Inl Assertion_failed)
      else let c1 = c\<lparr>sent_counter := sent_counter c + int (n_packets c)\<rparr>
      in case send_packets (ue_socket env) (ue_max_batch env) (ue_send env) (batch c1) os of
        None \<Rightarrow> None
      | Some (Inl f) \<Rightarrow> Some (Inl f)
      | Some (Inr (rv, b, os')) \<Rightarrow>
          (let c2 = c1\<lparr>batch := b\<rparr>
           in if io_blocked rv
              then if 0 < n_packets c2
                   then Some (Inr (False, False, c2\<lparr>write_waits := write_waits c2 + 1\<rparr>, os'))
                   else Some (Inl Assertion_failed)
              else if io_failure rv then Some (Inr (False, True, c2, os'))
              else Some (Inr (True, False, c2, os'))))"

text \<open>
  The state of the loop of \<^verbatim>\<open>flush_streams\<close>: \<open>fl_strs\<close> holds the streams still to be visited and, last,
  the null pointer that stands for non-stream data.  \<open>fl_made\<close> and \<open>fl_handed\<close> record the datagrams
  ngtcp2 wrote and the batches given to \<^verbatim>\<open>send\<close>.
\<close>

record ('ng, 'os) flush =
  fl_conn :: "'ng connection"
  fl_os :: 'os
  fl_strs :: "nat option list"
  fl_pos :: nat
  fl_packets :: nat
  fl_cancelled :: bool
  fl_made :: "bytes list"
  fl_handed :: "bytes list list"

datatype ('ng, 'os) flush_next =
    Next "('ng, 'os) flush"
  | Leave_loop "('ng, 'os) flush"
  | Return "('ng, 'os) flush"

definition flush_send :: "'os udp_env \<Rightarrow> ('ng, 'os) flush \<Rightarrow> (bool \<times> ('ng, 'os) flush) result option" where
  "flush_send env st =
     (case conn_send env (fl_conn st) (fl_os st) of
        None \<Rightarrow> None
      | Some (Inl f) \<Rightarrow> Some (Inl f)
      | Some (Inr (ok, cancel, c, os)) \<Rightarrow>
          Some (Inr (ok, st\<lparr>fl_conn := c, fl_os := os, fl_cancelled := fl_cancelled st \<or> cancel,
                            fl_handed := fl_handed st @ [batch_packets (batch (fl_conn st))]\<rparr>)))"

definition stream_wrote :: "nat option \<Rightarrow> int \<Rightarrow> 'ng connection \<Rightarrow> 'ng connection" where
  "stream_wrote stream ndatalen c =
     (case stream of
        None \<Rightarrow> c
      | Some r \<Rightarrow> put_stream r (wrote (of_int ndatalen) (heap c ! r)) c)"

text \<open>
  The end of a round that wrote a datagram: stop at the packet limit, or put the stream back if it has
  more to give.
\<close>

definition flush_requeue ::
  "nat \<Rightarrow> nat option \<Rightarrow> ('ng, 'os) flush \<Rightarrow> ('ng, 'os) flush_next result" where
  "flush_requeue max_packets stream st =
     (if fl_packets st = max_packets then Inr (Leave_loop st)
      else case stream of
        None \<Rightarrow>
          if fl_strs st = [] then Inr (Next (st\<lparr>fl_strs := [None]\<rparr>)) else Inl Assertion_failed
      | Some r \<Rightarrow>
          if 0 < unsent (heap (fl_conn st) ! r)
          then if fl_strs st = [] then Inl Assertion_failed
               else Inr (Next (st\<lparr>fl_strs := butlast (fl_strs st) @ [Some r, last (fl_strs st)]\<rparr>))
          else Inr (Next st))"

text \<open>A datagram was written at the write position: store its size and send a full batch.\<close>

definition add_datagram :: "nat \<Rightarrow> bytes \<Rightarrow> send_batch \<Rightarrow> send_batch" where
  "add_datagram pos pkt b = b\<lparr>sb_buf := take pos (sb_buf b) @ pkt @ drop (pos + length pkt) (sb_buf b),
     sb_sizes := (sb_sizes b)[sb_n b := length pkt], sb_n := sb_n b + 1\<rparr>"

definition flush_packet ::
  "'os udp_env \<Rightarrow> nat \<Rightarrow> nat option \<Rightarrow> bytes \<Rightarrow> byte \<Rightarrow> ('ng, 'os) flush \<Rightarrow> ('ng, 'os) flush_next result option" where
  "flush_packet env max_packets stream pkt ecn st =
     (let c = fl_conn st; b = batch c in
      if length (sb_sizes b) \<le> sb_n b then Some (Inl Index_out_of_bounds)
      else
        let st1 = st\<lparr>fl_conn := c\<lparr>batch := add_datagram (fl_pos st) pkt b, send_ecn := ecn\<rparr>,
                     fl_pos := fl_pos st + length pkt, fl_packets := fl_packets st + 1,
                     fl_made := fl_made st @ [pkt]\<rparr>
        in if n_packets (fl_conn st1) = ue_max_batch env
           then case flush_send env st1 of
               None \<Rightarrow> None
             | Some (Inl f) \<Rightarrow> Some (Inl f)
             | Some (Inr (ok, st2)) \<Rightarrow>
                 if \<not> ok then Some (Inr (Return st2))
                 else if n_packets (fl_conn st2) \<noteq> 0 then Some (Inl Assertion_failed)
                 else Some (flush_requeue max_packets stream (st2\<lparr>fl_pos := 0\<rparr>))
           else Some (flush_requeue max_packets stream st1))"

text \<open>One call of \<^verbatim>\<open>ngtcp2_conn_writev_stream\<close> into the buffer and the handling of its result.\<close>

definition flush_write ::
  "'ng ngtcp2 \<Rightarrow> 'os udp_env \<Rightarrow> nat \<Rightarrow> u64 \<Rightarrow> nat option \<Rightarrow> bool \<Rightarrow> bytes list \<Rightarrow> ('ng, 'os) flush \<Rightarrow>
   ('ng, 'os) flush_next result option" where
  "flush_write ng env max_packets ts stream fin bufs st =
     (let c = fl_conn st;
          sid = (case stream of None \<Rightarrow> - 1 | Some r \<Rightarrow> stream_id (heap c ! r))
      in if length (sb_buf (batch c)) < fl_pos st + NGTCP2_MAX_PMTUD_UDP_PAYLOAD_SIZE
         then Some (Inl Index_out_of_bounds)
         else case ng_writev_stream ng
                \<lparr>wr_stream_id = sid, wr_fin = fin, wr_bufs = bufs,
                 wr_destlen = NGTCP2_MAX_PMTUD_UDP_PAYLOAD_SIZE, wr_ts = ts\<rparr> (cn_ng c) of
           (Write_error rv ndatalen, g) \<Rightarrow>
             (let c1 = c\<lparr>cn_ng := g\<rparr>
              in if rv = NG_WRITE_MORE
                 then if ndatalen < 0 then Some (Inl Assertion_failed)
                      else Some (Inr (Next (st\<lparr>fl_conn := stream_wrote stream ndatalen c1\<rparr>)))
                 else Some (Inr (Next (st\<lparr>fl_conn := c1\<rparr>))))
         | (Wrote pkt ndatalen ecn, g) \<Rightarrow>
             (let c1 = c\<lparr>cn_ng := g\<rparr>
              in if pkt = []
                 then Some (Inr (Next (st\<lparr>fl_conn := c1,
                        fl_strs := (if stream = None then fl_strs st else filter (\<lambda>x. x = None) (fl_strs st))\<rparr>)))
                 else flush_packet env max_packets stream pkt ecn
                        (st\<lparr>fl_conn := (if 0 < ndatalen then stream_wrote stream ndatalen c1 else c1)\<rparr>)))"

text \<open>One round of the loop.\<close>

definition flush_step ::
  "'ng ngtcp2 \<Rightarrow> 'os udp_env \<Rightarrow> nat \<Rightarrow> u64 \<Rightarrow> ('ng, 'os) flush \<Rightarrow> ('ng, 'os) flush_next result option" where
  "flush_step ng env max_packets ts st =
     (let stream = hd (fl_strs st); st1 = st\<lparr>fl_strs := tl (fl_strs st)\<rparr>
      in case stream of
           None \<Rightarrow>
             if fl_strs st1 \<noteq> [] then Some (Inl Assertion_failed)
             else flush_write ng env max_packets ts None False [] st1
         | Some r \<Rightarrow>
             (let s = heap (fl_conn st) ! r
              in case pending s of
                   Inl f \<Rightarrow> Some (Inl f)
                 | Inr bufs \<Rightarrow>
                     if is_closing s \<and> \<not> sent_fin s \<and> unsent s = 0
                     then flush_write ng env max_packets ts stream True bufs
                            (st1\<lparr>fl_conn := put_stream r (s\<lparr>sent_fin := True\<rparr>) (fl_conn st)\<rparr>)
                     else if bufs = [] then Some (Inr (Next st1))
                     else flush_write ng env max_packets ts stream False bufs st1))"

fun flush_loop ::
  "nat \<Rightarrow> 'ng ngtcp2 \<Rightarrow> 'os udp_env \<Rightarrow> nat \<Rightarrow> u64 \<Rightarrow> ('ng, 'os) flush \<Rightarrow> ('ng, 'os) flush_next result option" where
  "flush_loop 0 ng env max_packets ts st = None"
| "flush_loop (Suc fuel) ng env max_packets ts st =
     (if fl_strs st = [] then Some (Inr (Leave_loop st))
      else case flush_step ng env max_packets ts st of
          None \<Rightarrow> None
        | Some (Inl f) \<Rightarrow> Some (Inl f)
        | Some (Inr (Next st')) \<Rightarrow> flush_loop fuel ng env max_packets ts st'
        | Some (Inr x) \<Rightarrow> Some (Inr x))"

text \<open>The streams to visit: those without a sent FIN, from a random one on and round to it.\<close>

definition flush_order :: "nat \<Rightarrow> 'ng connection \<Rightarrow> nat option list" where
  "flush_order start c =
     (let rs = map snd (streams c);
          mid = (if rs = [] then 0 else start mod length rs)
      in map Some (filter (\<lambda>r. \<not> sent_fin (heap c ! r)) (drop mid rs @ take mid rs)) @ [None])"

definition flush_start :: "nat \<Rightarrow> 'ng connection \<Rightarrow> 'os \<Rightarrow> ('ng, 'os) flush" where
  "flush_start start c os =
     \<lparr>fl_conn = c, fl_os = os, fl_strs = flush_order start c, fl_pos = 0, fl_packets = 0,
      fl_cancelled = False, fl_made = [], fl_handed = []\<rparr>"

text \<open>The destructor of \<^verbatim>\<open>pkt_tx_timer_updater\<close>, at every exit.\<close>

definition flush_done :: "'ng ngtcp2 \<Rightarrow> u64 \<Rightarrow> ('ng, 'os) flush \<Rightarrow> ('ng, 'os) flush" where
  "flush_done ng ts st =
     (if fl_cancelled st then st
      else st\<lparr>fl_conn := (fl_conn st)\<lparr>cn_ng := ng_update_pkt_tx_time ng ts (cn_ng (fl_conn st))\<rparr>\<rparr>)"

definition max_stream_packets :: "'ng ngtcp2 \<Rightarrow> 'ng connection \<Rightarrow> nat" where
  "max_stream_packets ng c = unat (ng_send_quantum ng (cn_ng c) div ng_max_tx_udp_payload_size ng (cn_ng c))"

definition flush_streams ::
  "nat \<Rightarrow> 'ng ngtcp2 \<Rightarrow> 'os udp_env \<Rightarrow> nat \<Rightarrow> u64 \<Rightarrow> 'ng connection \<Rightarrow> 'os \<Rightarrow> ('ng, 'os) flush result option" where
  "flush_streams fuel ng env start ts c os =
     (if ng_max_tx_udp_payload_size ng (cn_ng c) = 0 then Some (Inl Division_by_zero)
      else if 0 < n_packets c
      then Some (Inr ((flush_start start c os)\<lparr>fl_strs := []\<rparr>))
      else case flush_loop fuel ng env (max_stream_packets ng c) ts (flush_start start c os) of
        None \<Rightarrow> None
      | Some (Inl f) \<Rightarrow> Some (Inl f)
      | Some (Inr (Next st)) \<Rightarrow> None
      | Some (Inr (Return st)) \<Rightarrow> Some (Inr (flush_done ng ts st))
      | Some (Inr (Leave_loop st)) \<Rightarrow>
          if 0 < n_packets (fl_conn st)
          then (case flush_send env st of
                  None \<Rightarrow> None
                | Some (Inl f) \<Rightarrow> Some (Inl f)
                | Some (Inr (_, st')) \<Rightarrow> Some (Inr (flush_done ng ts st')))
          else Some (Inr (flush_done ng ts st)))"

section \<open>Timers and the io event\<close>

text \<open>
  \<^verbatim>\<open>schedule_retransmit\<close>.  The expiry is an unsigned nanosecond count, so \<^verbatim>\<open>delta\<close> is a duration over
  \<^verbatim>\<open>uint64_t\<close>: the subtraction and the rounding wrap around, and the comparison with zero is unsigned.
\<close>

definition NS_PER_S :: u64 where "NS_PER_S = 1000000000"
definition NS_PER_US :: u64 where "NS_PER_US = 1000"

definition retransmit_timeval :: "u64 \<Rightarrow> timeval" where
  "retransmit_timeval delta =
     (let d = delta + 999 in \<lparr>tv_sec = d div NS_PER_S, tv_usec = (d mod NS_PER_S) div NS_PER_US\<rparr>)"

definition schedule_retransmit :: "'ng ngtcp2 \<Rightarrow> u64 \<Rightarrow> 'ng connection \<Rightarrow> 'ng connection" where
  "schedule_retransmit ng ts c =
     (let exp_ns = ng_get_expiry ng (cn_ng c)
      in if exp_ns = - 1 then c\<lparr>retransmit_timer := None\<rparr>
         else let delta = exp_ns - ts
              in if 0 < delta then c\<lparr>retransmit_timer := Some (retransmit_timeval delta)\<rparr> else c)"

definition on_io_ready ::
  "nat \<Rightarrow> 'ng ngtcp2 \<Rightarrow> 'os udp_env \<Rightarrow> nat \<Rightarrow> u64 \<Rightarrow> 'ng connection \<Rightarrow> 'os \<Rightarrow>
   ('ng connection \<times> 'os) result option" where
  "on_io_ready fuel ng env start ts c os =
     (case flush_streams fuel ng env start ts c os of
        None \<Rightarrow> None
      | Some (Inl f) \<Rightarrow> Some (Inl f)
      | Some (Inr st) \<Rightarrow> Some (Inr (schedule_retransmit ng ts (fl_conn st), fl_os st)))"

text \<open>The io event: libevent clears the activation before it runs the handler.\<close>

definition io_event ::
  "nat \<Rightarrow> 'ng ngtcp2 \<Rightarrow> 'os udp_env \<Rightarrow> nat \<Rightarrow> u64 \<Rightarrow> 'ng connection \<Rightarrow> 'os \<Rightarrow>
   ('ng connection \<times> 'os) result option" where
  "io_event fuel ng env start ts c os = on_io_ready fuel ng env start ts (c\<lparr>io_trigger := False\<rparr>) os"

text \<open>The callback a blocked \<^verbatim>\<open>send\<close> registered: finish the batch, then start over.\<close>

definition writeable_event ::
  "nat \<Rightarrow> 'ng ngtcp2 \<Rightarrow> 'os udp_env \<Rightarrow> nat \<Rightarrow> u64 \<Rightarrow> 'ng connection \<Rightarrow> 'os \<Rightarrow>
   ('ng connection \<times> 'os) result option" where
  "writeable_event fuel ng env start ts c os =
     (case conn_send env (c\<lparr>write_waits := write_waits c - 1\<rparr>) os of
        None \<Rightarrow> None
      | Some (Inl f) \<Rightarrow> Some (Inl f)
      | Some (Inr (ok, _, c', os')) \<Rightarrow>
          if ok then on_io_ready fuel ng env start ts c' os' else Some (Inr (c', os')))"

text \<open>
  The retransmission timer: on an error of \<^verbatim>\<open>ngtcp2_conn_handle_expiry\<close> the endpoint is asked to close
  the connection, which the first component of the result says.
\<close>

definition retransmit_event ::
  "nat \<Rightarrow> 'ng ngtcp2 \<Rightarrow> 'os udp_env \<Rightarrow> nat \<Rightarrow> u64 \<Rightarrow> 'ng connection \<Rightarrow> 'os \<Rightarrow>
   (ng_rv option \<times> 'ng connection \<times> 'os) result option" where
  "retransmit_event fuel ng env start ts c os =
     (let (rv, g) = ng_handle_expiry ng ts (cn_ng c);
          c1 = c\<lparr>cn_ng := g, retransmit_timer := None\<rparr>
      in if rv \<noteq> NG_OK then Some (Inr (Some rv, c1, os))
         else case on_io_ready fuel ng env start ts c1 os of
             None \<Rightarrow> None
           | Some (Inl f) \<Rightarrow> Some (Inl f)
           | Some (Inr (c2, os')) \<Rightarrow> Some (Inr (None, c2, os')))"

section \<open>Construction\<close>

text \<open>The settings and transport parameters \<^verbatim>\<open>Connection::init\<close> sets over ngtcp2's defaults.\<close>

datatype cc_algo = NGTCP2_CC_ALGO_RENO | NGTCP2_CC_ALGO_CUBIC | NGTCP2_CC_ALGO_BBR

record settings =
  initial_ts :: u64
  max_tx_udp_payload_size :: nat
  cc_algo :: cc_algo
  initial_rtt :: u64
  max_window :: u64
  max_stream_window :: u64
  token :: bytes

record transport_params =
  initial_max_data :: u64
  initial_max_streams_uni :: u64
  initial_max_stream_data_bidi_local :: u64
  initial_max_stream_data_bidi_remote :: u64
  initial_max_stream_data_uni :: u64
  max_idle_timeout :: u64
  active_connection_id_limit :: u64
  initial_max_streams_bidi :: u64
  original_dcid :: "connection_id option"

definition NGTCP2_DEFAULT_INITIAL_RTT :: u64 where "NGTCP2_DEFAULT_INITIAL_RTT = 333000000"

definition conn_init :: "u64 \<Rightarrow> conn_ctx \<Rightarrow> settings \<times> transport_params" where
  "conn_init now ctx =
     (\<lparr>initial_ts = now, max_tx_udp_payload_size = NGTCP2_MAX_PMTUD_UDP_PAYLOAD_SIZE,
       cc_algo = NGTCP2_CC_ALGO_CUBIC, initial_rtt = NGTCP2_DEFAULT_INITIAL_RTT, max_window = lit_Mi 24, max_stream_window = lit_Mi 16, token = []\<rparr>,
      \<lparr>initial_max_data = lit_Mi 15, initial_max_streams_uni = 0,
       initial_max_stream_data_bidi_local = lit_Mi 6, initial_max_stream_data_bidi_remote = lit_Mi 6,
       initial_max_stream_data_uni = lit_Mi 6, max_idle_timeout = 5 * 60 * NS_PER_S,
       active_connection_id_limit = 8,
       initial_max_streams_bidi =
         (if ctx_max_streams ctx \<noteq> 0 then ctx_max_streams ctx else DEFAULT_MAX_BIDI_STREAMS),
       original_dcid = None\<rparr>)"

text \<open>
  The packet header an inbound connection is made from; \<open>conn_new\<close> stands for \<^verbatim>\<open>ngtcp2_conn_client_new\<close>
  and \<^verbatim>\<open>ngtcp2_conn_server_new\<close>, \<open>None\<close> being an error, and \<open>tls\<close> for the creation of the TLS session,
  which may throw.  After an error the constructor goes on to store and to use the pointer that was
  never set, and only then looks at the return code.  \<open>junk\<close> is what the uninitialised send arrays held.
\<close>

record pkt_hd =
  hd_dcid :: connection_id
  hd_scid :: connection_id
  hd_token :: bytes
  hd_is_initial :: bool
  hd_is_0rtt :: bool

definition conn_fresh ::
  "'ng \<Rightarrow> conn_ctx \<Rightarrow> direction \<Rightarrow> connection_id \<Rightarrow> connection_id \<Rightarrow> path \<Rightarrow> bytes \<Rightarrow> nat list \<Rightarrow> 'ng connection" where
  "conn_fresh g ctx dir scid dcid p junk junk_sizes =
     \<lparr>cn_ng = g, cn_ctx = ctx, cn_dir = dir, cn_source_cid = scid, cn_dest_cid = dcid, cn_path = p,
      on_closing = None, heap = [], streams = [], pending_streams = [],
      batch = \<lparr>sb_buf = junk, sb_sizes = junk_sizes, sb_n = 0\<rparr>, send_ecn = 0,
      draining = False, closing = False, io_trigger = False, retransmit_timer = None,
      write_waits = 0, sent_counter = 0, calls = []\<rparr>"

definition conn_construct ::
  "(direction \<Rightarrow> connection_id \<Rightarrow> connection_id \<Rightarrow> path \<Rightarrow> settings \<Rightarrow> transport_params \<Rightarrow> 'ng option) \<Rightarrow>
   (bool \<Rightarrow> 'ng \<Rightarrow> 'ng result) \<Rightarrow> u64 \<Rightarrow> bytes \<Rightarrow> nat list \<Rightarrow>
   connection_id \<Rightarrow> connection_id \<Rightarrow> path \<Rightarrow> conn_ctx \<Rightarrow> direction \<Rightarrow> pkt_hd option \<Rightarrow> 'ng connection result" where
  "conn_construct conn_new tls now junk junk_sizes scid dcid p ctx dir hdr =
     (let (st, ps) = conn_init now ctx
      in and_then
          (case dir of
             OUTBOUND \<Rightarrow> Inr (st, ps)
           | INBOUND \<Rightarrow>
               (case hdr of
                  None \<Rightarrow> Inl Null_dereference
                | Some h \<Rightarrow> Inr (st\<lparr>token := hd_token h\<rparr>, ps\<lparr>original_dcid := Some (hd_dcid h)\<rparr>)))
          (\<lambda>(st', ps').
             case conn_new dir dcid scid p st' ps' of
               None \<Rightarrow> Inl Uninitialised_pointer
             | Some g \<Rightarrow>
                 and_then (tls (dir = OUTBOUND) g) (\<lambda>g'.
                   Inr (conn_fresh g' ctx dir scid dcid p junk junk_sizes))))"

definition make_conn ::
  "(direction \<Rightarrow> connection_id \<Rightarrow> connection_id \<Rightarrow> path \<Rightarrow> settings \<Rightarrow> transport_params \<Rightarrow> 'ng option) \<Rightarrow>
   (bool \<Rightarrow> 'ng \<Rightarrow> 'ng result) \<Rightarrow> u64 \<Rightarrow> bytes \<Rightarrow> nat list \<Rightarrow>
   connection_id \<Rightarrow> connection_id \<Rightarrow> path \<Rightarrow> conn_ctx \<Rightarrow> direction \<Rightarrow> pkt_hd option \<Rightarrow> 'ng connection result" where
  "make_conn conn_new tls now junk junk_sizes scid dcid p ctx dir hdr =
     and_then (conn_construct conn_new tls now junk junk_sizes scid dcid p ctx dir hdr) (\<lambda>c. Inr (io_ready c))"

end
