(* ===== verification/Quic_Context.thy ===== *)
theory Quic_Context
  imports Quic_Connection
begin

text \<open>
  The contexts of \<^verbatim>\<open>include/quic/context.hpp\<close> and \<^verbatim>\<open>src/context.cpp\<close>: what \<^verbatim>\<open>listen\<close> and \<^verbatim>\<open>connect\<close> are called
  with, given in any order and any number, becomes the callbacks and the configuration the connections
  of an endpoint share.
\<close>

section \<open>Options\<close>

text \<open>
  The types \<^verbatim>\<open>handle_inbound_opt\<close> and \<^verbatim>\<open>handle_outbound_opt\<close> are overloaded on.  Credentials and callbacks
  are names, \<open>None\<close> is a null pointer or an empty function; \<open>Opt_max_streams\<close> holds an \<^verbatim>\<open>int\<close>.
\<close>

datatype opt =
    Opt_tls "nat option"
  | Opt_max_streams "32 word"
  | Opt_stream_data "nat option"
  | Opt_stream_open "nat option"
  | Opt_stream_close "nat option"

definition max_streams_default :: opt where
  "max_streams_default = Opt_max_streams (ucast DEFAULT_MAX_BIDI_STREAMS)"

record context_base =
  tls_creds :: "nat option"
  stream_data_cb :: "nat option"
  stream_open_cb :: "nat option"
  stream_close_cb :: "nat option"
  config_max_streams :: "32 word"

definition context_base_default :: context_base where
  "context_base_default = \<lparr>tls_creds = None, stream_data_cb = None, stream_open_cb = None, stream_close_cb = None,
     config_max_streams = 0\<rparr>"

fun handle_outbound_opt :: "opt \<Rightarrow> context_base \<Rightarrow> context_base" where
  "handle_outbound_opt (Opt_tls tls) c = c\<lparr>tls_creds := tls\<rparr>"
| "handle_outbound_opt (Opt_max_streams ms) c = c\<lparr>config_max_streams := ms\<rparr>"
| "handle_outbound_opt (Opt_stream_close f) c = c\<lparr>stream_close_cb := f\<rparr>"
| "handle_outbound_opt (Opt_stream_data f) c = c\<lparr>stream_data_cb := f\<rparr>"
| "handle_outbound_opt (Opt_stream_open f) c = c\<lparr>stream_open_cb := f\<rparr>"

fun handle_inbound_opt :: "opt \<Rightarrow> context_base \<Rightarrow> context_base" where
  "handle_inbound_opt (Opt_tls tls) c = c\<lparr>tls_creds := tls\<rparr>"
| "handle_inbound_opt (Opt_stream_data f) c = c\<lparr>stream_data_cb := f\<rparr>"
| "handle_inbound_opt (Opt_stream_open f) c = c\<lparr>stream_open_cb := f\<rparr>"
| "handle_inbound_opt (Opt_stream_close f) c = c\<lparr>stream_close_cb := f\<rparr>"
| "handle_inbound_opt (Opt_max_streams ms) c = c\<lparr>config_max_streams := ms\<rparr>"

text \<open>The constructors fold over their arguments from left to right.\<close>

definition outbound_context :: "opt list \<Rightarrow> context_base" where
  "outbound_context opts = fold handle_outbound_opt opts context_base_default"

definition inbound_context :: "opt list \<Rightarrow> context_base" where
  "inbound_context opts = fold handle_inbound_opt opts context_base_default"

text \<open>What a connection reads of its context; the \<^verbatim>\<open>int\<close> is converted to \<^verbatim>\<open>uint64_t\<close> when it is used.\<close>

definition conn_ctx_of :: "context_base \<Rightarrow> conn_ctx" where
  "conn_ctx_of c = \<lparr>ctx_stream_data_cb = stream_data_cb c, ctx_stream_open_cb = stream_open_cb c,
     ctx_stream_close_cb = stream_close_cb c, ctx_max_streams = scast (config_max_streams c)\<rparr>"

section \<open>The last option of each kind counts\<close>

fun opt_kind :: "opt \<Rightarrow> nat" where
  "opt_kind (Opt_tls _) = 0"
| "opt_kind (Opt_max_streams _) = 1"
| "opt_kind (Opt_stream_data _) = 2"
| "opt_kind (Opt_stream_open _) = 3"
| "opt_kind (Opt_stream_close _) = 4"

lemma handle_opts_same: "handle_outbound_opt = handle_inbound_opt"
proof (intro ext)
  show "handle_outbound_opt p c = handle_inbound_opt p c" for p c by (cases p) simp_all
qed

lemma handle_opt_comm:
  "opt_kind p \<noteq> opt_kind q \<Longrightarrow> handle_inbound_opt p (handle_inbound_opt q c) = handle_inbound_opt q (handle_inbound_opt p c)"
  by (cases p; cases q) simp_all

lemma handle_opt_last:
  "opt_kind p = opt_kind q \<Longrightarrow> handle_inbound_opt p (handle_inbound_opt q c) = handle_inbound_opt p c"
  by (cases p; cases q) simp_all

text \<open>An option that a later one of its kind overrides can be left out.\<close>

lemma fold_overridden:
  assumes "opt_kind p \<in> opt_kind ` set ps"
  shows "fold handle_inbound_opt ps (handle_inbound_opt p c) = fold handle_inbound_opt ps c"
  using assms
proof (induction ps arbitrary: c)
  case (Cons q ps)
  show ?case
  proof (cases "opt_kind p = opt_kind q")
    case True
    then show ?thesis by (simp add: handle_opt_last)
  next
    case False
    with Cons.prems have "opt_kind p \<in> opt_kind ` set ps" by auto
    from Cons.IH [OF this, of "handle_inbound_opt q c"] False show ?thesis by (simp add: handle_opt_comm)
  qed
qed simp

text \<open>The specification: the value of the last option of a kind, or the default.\<close>

fun last_opts :: "opt list \<Rightarrow> opt list" where
  "last_opts [] = []"
| "last_opts (p # ps) = (if opt_kind p \<in> opt_kind ` set ps then last_opts ps else p # last_opts ps)"

lemma last_opts_distinct: "distinct (map opt_kind (last_opts ps)) \<and> set (last_opts ps) \<subseteq> set ps"
  by (induction ps) auto

lemma fold_last_opts: "fold handle_inbound_opt (last_opts ps) c = fold handle_inbound_opt ps c"
  by (induction ps arbitrary: c) (simp_all add: fold_overridden)

lemma fold_opt_comm:
  "opt_kind p \<notin> opt_kind ` set ps \<Longrightarrow>
    fold handle_inbound_opt ps (handle_inbound_opt p c) = handle_inbound_opt p (fold handle_inbound_opt ps c)"
proof (induction ps arbitrary: c)
  case (Cons q ps)
  then have "opt_kind p \<noteq> opt_kind q" and n: "opt_kind p \<notin> opt_kind ` set ps" by auto
  then show ?case using Cons.IH [OF n] by (simp add: handle_opt_comm)
qed simp

lemma fold_opts_perm:
  assumes "distinct (map opt_kind ps)" and "distinct (map opt_kind qs)" and "set ps = set qs"
  shows "fold handle_inbound_opt ps c = fold handle_inbound_opt qs c"
  using assms
proof (induction ps arbitrary: qs c)
  case Nil
  then show ?case by simp
next
  case (Cons p ps)
  from Cons.prems(3) have "p \<in> set qs" by auto
  then obtain as bs where qs: "qs = as @ p # bs" by (metis split_list)
  have "set ps = set (as @ bs)"
    using Cons.prems by (auto simp: qs)
  moreover have "distinct (map opt_kind (as @ bs))" using Cons.prems(2) by (auto simp: qs)
  ultimately have ih: "fold handle_inbound_opt ps c' = fold handle_inbound_opt (as @ bs) c'" for c'
    using Cons.IH [of "as @ bs" c'] Cons.prems(1) by simp
  have "opt_kind p \<notin> opt_kind ` set as" using Cons.prems(2) by (auto simp: qs)
  with ih show ?case by (simp add: qs fold_opt_comm)
qed

text \<open>
  C34: The order in which options are given matters only between options of the same kind, of which the
  last one counts: two option lists with the same last option of every kind make the same context,
  inbound or outbound.
\<close>

theorem context_last_option_counts:
  assumes "set (last_opts ps) = set (last_opts qs)"
  shows "inbound_context ps = inbound_context qs \<and> outbound_context ps = inbound_context qs"
proof -
  have "fold handle_inbound_opt (last_opts ps) c = fold handle_inbound_opt (last_opts qs) c" for c
    using last_opts_distinct assms by (intro fold_opts_perm) auto
  then show ?thesis
    by (simp add: inbound_context_def outbound_context_def handle_opts_same fold_last_opts)
qed

theorem context_last_option_counts_witness:
  "inbound_context [Opt_max_streams 3, Opt_tls (Some 1), Opt_max_streams 9] = inbound_context [Opt_max_streams 9, Opt_tls (Some 1)] \<and>
   outbound_context [Opt_max_streams 3, Opt_tls (Some 1), Opt_max_streams 9] = inbound_context [Opt_max_streams 9, Opt_tls (Some 1)]"
  by (rule context_last_option_counts) auto

section \<open>The number of streams\<close>

lemma uint_scast_u64: "uint (scast (n :: 32 word) :: u64) = sint n mod 2 ^ 64"
  unfolding scast_eq uint_word_of_int by simp

text \<open>
  A positive number of streams given as \<^verbatim>\<open>opt::max_streams\<close> is the number of bidirectional streams the
  peer may open; without the option, and with zero, it is 32.
\<close>

theorem context_max_streams:
  assumes "0 \<le> sint n"
  shows "uint (initial_max_streams_bidi (snd (conn_init now (conn_ctx_of (inbound_context [Opt_max_streams n]))))) =
    (if sint n = 0 then 32 else sint n)"
proof -
  have w: "uint (scast n :: u64) = sint n"
  proof -
    have "sint n < 2 ^ 31" using sint_less [of n] by simp
    with assms show ?thesis by (simp add: uint_scast_u64)
  qed
  have z: "(scast n :: u64) = 0 \<longleftrightarrow> sint n = 0"
    using unsigned_eq_0_iff [of "scast n :: u64", where 'a = int] w by simp
  show ?thesis using w z
    by (simp add: conn_init_def conn_ctx_of_def inbound_context_def context_base_default_def DEFAULT_MAX_BIDI_STREAMS_def)
qed

theorem context_max_streams_witness:
  "uint (initial_max_streams_bidi (snd (conn_init 0 (conn_ctx_of (inbound_context [Opt_max_streams 7]))))) = 7"
  using context_max_streams [of 7 0] by simp

text \<open>
  A negative number of streams is accepted and becomes, by sign extension to 64 bits, an enormous one.
\<close>

theorem context_negative_streams:
  assumes "sint n < 0"
  shows "uint (initial_max_streams_bidi (snd (conn_init now (conn_ctx_of (inbound_context [Opt_max_streams n]))))) =
    2 ^ 64 + sint n"
proof -
  have b: "- (2 ^ 31) \<le> sint n" using sint_ge [of n] by simp
  have w: "uint (scast n :: u64) = 2 ^ 64 + sint n"
  proof -
    have "uint (scast n :: u64) = sint n mod 2 ^ 64" by (rule uint_scast_u64)
    also have "\<dots> = (sint n + 2 ^ 64) mod 2 ^ 64" by simp
    also have "\<dots> = sint n + 2 ^ 64" using b assms by (intro mod_pos_pos_trivial) simp_all
    finally show ?thesis by simp
  qed
  have "(scast n :: u64) \<noteq> 0" 
    using unsigned_eq_0_iff [of "scast n :: u64", where 'a = int] w b by simp
  with w show ?thesis
    by (simp add: conn_init_def conn_ctx_of_def inbound_context_def context_base_default_def)
qed

theorem context_negative_streams_witness:
  "uint (initial_max_streams_bidi (snd (conn_init 0 (conn_ctx_of (inbound_context [Opt_max_streams (- 1)]))))) = 2 ^ 64 - 1"
  using context_negative_streams [of "- 1" 0] by simp

end
