(* ===== verification/Quic_Flush.thy ===== *)
theory Quic_Flush
  imports Quic_Connection "HOL-Library.Multiset"
begin

text \<open>
  What \<^verbatim>\<open>Connection::flush_streams\<close> and \<^verbatim>\<open>Connection::send\<close> do, for any ngtcp2 and any socket that keep
  their documented promises: the loop ends, hands every datagram over in order, stays inside its
  arrays, leaves the contents of the stream queues alone and registers exactly one retry when the
  socket blocks.
\<close>

section \<open>What is assumed of ngtcp2 and of the socket\<close>

text \<open>\<^verbatim>\<open>ngtcp2_conn_writev_stream\<close> writes at most \<^verbatim>\<open>destlen\<close> bytes, consumes at most the stream data it was
  given, and reports \<^verbatim>\<open>WRITE_MORE\<close> only with the amount of data it took.\<close>

definition writev_ok :: "'ng ngtcp2 \<Rightarrow> bool" where
  "writev_ok ng \<longleftrightarrow> (\<forall>req g.
     case fst (ng_writev_stream ng req g) of
       Wrote pkt ndatalen ecn \<Rightarrow>
         length pkt \<le> wr_destlen req \<and> ndatalen \<le> int (length (concat (wr_bufs req)))
     | Write_error rv ndatalen \<Rightarrow>
         rv = NG_WRITE_MORE \<longrightarrow> 0 \<le> ndatalen \<and> ndatalen \<le> int (length (concat (wr_bufs req))))"

lemma writev_okD:
  assumes "writev_ok ng" and "ng_writev_stream ng req g = (res, g')"
  shows "case res of Wrote pkt nd ecn \<Rightarrow> length pkt \<le> wr_destlen req \<and> nd \<le> int (length (concat (wr_bufs req)))
    | Write_error rv nd \<Rightarrow> rv = NG_WRITE_MORE \<longrightarrow> 0 \<le> nd \<and> nd \<le> int (length (concat (wr_bufs req)))"
  using assms(1) [unfolded writev_ok_def, THEN spec, THEN spec, of req g] assms(2) by (cases res) simp_all

text \<open>A datagram size the flush loop produces.\<close>

definition dgram_ok :: "nat \<Rightarrow> bool" where
  "dgram_ok n \<longleftrightarrow> 0 < n \<and> n \<le> NGTCP2_MAX_PMTUD_UDP_PAYLOAD_SIZE"

text \<open>The socket answers every send of a non-empty batch of datagrams, and as the UDP senders promise.\<close>

definition sender_promise :: "'os udp_env \<Rightarrow> 'os \<Rightarrow> nat list \<Rightarrow> bool" where
  "sender_promise env os sizes \<longleftrightarrow> (\<forall>r sent os'. ue_send env os sizes = Some (Inr ((r, sent), os')) \<longrightarrow>
     sent \<le> length sizes \<and> (sizes \<noteq> [] \<longrightarrow> io_failure r \<longrightarrow> sent < length sizes))"

definition env_ok :: "'os udp_env \<Rightarrow> bool" where
  "env_ok env \<longleftrightarrow> ue_socket env \<and> 1 \<le> ue_max_batch env \<and> ue_max_batch env \<le> DATAGRAM_BATCH_SIZE \<and>
     (\<forall>os sizes. sizes \<noteq> [] \<and> length sizes \<le> ue_max_batch env \<and> list_all dgram_ok sizes \<longrightarrow>
        (\<exists>r sent os'. ue_send env os sizes = Some (Inr ((r, sent), os'))) \<and> sender_promise env os sizes)"

interpretation env: udp_sender "ue_send e" "sender_promise e" for e
  by unfold_locales (auto simp: sender_promise_def)

section \<open>The send batch of a connection\<close>

definition conn_batch_ok :: "send_batch \<Rightarrow> bool" where
  "conn_batch_ok b \<longleftrightarrow>
     length (sb_buf b) = NGTCP2_MAX_PMTUD_UDP_PAYLOAD_SIZE * DATAGRAM_BATCH_SIZE \<and>
     length (sb_sizes b) = DATAGRAM_BATCH_SIZE \<and> sb_n b \<le> DATAGRAM_BATCH_SIZE \<and>
     list_all dgram_ok (take (sb_n b) (sb_sizes b))"

lemma sum_dgrams: "list_all dgram_ok ns \<Longrightarrow> sum_list ns \<le> NGTCP2_MAX_PMTUD_UDP_PAYLOAD_SIZE * length ns"
  by (induction ns) (auto simp: dgram_ok_def)

lemma conn_batch_sum:
  assumes "conn_batch_ok b"
  shows "sum_list (take (sb_n b) (sb_sizes b)) \<le> NGTCP2_MAX_PMTUD_UDP_PAYLOAD_SIZE * sb_n b"
  using assms sum_dgrams [of "take (sb_n b) (sb_sizes b)"] by (auto simp: conn_batch_ok_def)

lemma conn_batch_wf: "conn_batch_ok b \<Longrightarrow> batch_wf b"
  using conn_batch_sum [of b]
  by (auto simp: batch_wf_def conn_batch_ok_def elim!: order_trans intro: mult_le_mono)

lemma add_datagram_ok:
  assumes b: "conn_batch_ok b" and n: "sb_n b < DATAGRAM_BATCH_SIZE" and pkt: "dgram_ok (length pkt)"
    and pos: "pos = sum_list (take (sb_n b) (sb_sizes b))"
  shows "conn_batch_ok (add_datagram pos pkt b)"
    and "batch_packets (add_datagram pos pkt b) = batch_packets b @ [pkt]"
    and "sum_list (take (Suc (sb_n b)) (sb_sizes (add_datagram pos pkt b))) = pos + length pkt"
proof -
  let ?P = NGTCP2_MAX_PMTUD_UDP_PAYLOAD_SIZE
  have ns: "take (Suc (sb_n b)) ((sb_sizes b)[sb_n b := length pkt]) = take (sb_n b) (sb_sizes b) @ [length pkt]"
    using b n by (simp add: conn_batch_ok_def take_Suc_conv_app_nth)
  have "pos \<le> ?P * sb_n b" using conn_batch_sum [OF b] pos by simp
  then have "pos + ?P \<le> ?P * Suc (sb_n b)" by simp
  also have "\<dots> \<le> ?P * DATAGRAM_BATCH_SIZE" using n by (intro mult_le_mono) auto
  finally have room: "pos + ?P \<le> length (sb_buf b)" using b by (simp add: conn_batch_ok_def)
  with pkt have len: "pos + length pkt \<le> length (sb_buf b)" by (simp add: dgram_ok_def)
  from ns b n pkt len show "conn_batch_ok (add_datagram pos pkt b)"
    by (auto simp: conn_batch_ok_def add_datagram_def)
  have "split_packets (sb_buf (add_datagram pos pkt b)) (take (sb_n b) (sb_sizes b)) = batch_packets b"
    using len pos split_packets_prefix [of "take (sb_n b) (sb_sizes b)" "take pos (sb_buf b)"]
    by (simp add: add_datagram_def batch_packets_def split_packets_take)
  with ns len show "batch_packets (add_datagram pos pkt b) = batch_packets b @ [pkt]"
    by (simp add: batch_packets_def split_packets_append pos [symmetric]) (simp add: add_datagram_def ns split_packets_append pos [symmetric])
  from ns pos show "sum_list (take (Suc (sb_n b)) (sb_sizes (add_datagram pos pkt b))) = pos + length pkt"
    by (simp add: add_datagram_def)
qed

section \<open>One send\<close>

text \<open>A send changes nothing of the connection but the batch, the counter and the retries.\<close>

definition send_frame :: "'ng connection \<Rightarrow> 'ng connection \<Rightarrow> bool" where
  "send_frame c c' \<longleftrightarrow>
     c' = c\<lparr>batch := batch c', write_waits := write_waits c', sent_counter := sent_counter c'\<rparr>"

lemma send_frame_heap: "send_frame c c' \<Longrightarrow> heap c' = heap c"
  and send_frame_streams: "send_frame c c' \<Longrightarrow> streams c' = streams c"
  and send_frame_pending: "send_frame c c' \<Longrightarrow> pending_streams c' = pending_streams c"
  and send_frame_calls: "send_frame c c' \<Longrightarrow> calls c' = calls c"
  and send_frame_id: "send_frame c c' \<Longrightarrow> cn_source_cid c' = cn_source_cid c \<and> cn_dir c' = cn_dir c \<and> cn_path c' = cn_path c"
  unfolding send_frame_def by (erule ssubst, simp)+

text \<open>After a send: either all packets went (or were dropped), or some wait and one retry was added.\<close>

definition send_settled :: "'ng connection \<Rightarrow> 'ng connection \<Rightarrow> bool" where
  "send_settled c c' \<longleftrightarrow> conn_batch_ok (batch c') \<and>
     write_waits c' = write_waits c + (if 0 < n_packets c' then 1 else 0) \<and>
     (\<exists>k. batch_packets (batch c') = drop k (batch_packets (batch c)))"

lemma list_all_shift:
  "list_all P (take n xs) \<Longrightarrow> k \<le> n \<Longrightarrow> list_all P (take (n - k) (drop k xs))"
  unfolding take_drop by (auto simp: list_all_iff dest: in_set_dropD)

lemma batch_after_send:
  assumes b: "conn_batch_ok b" and sent: "sent \<le> sb_n b" and out: "send_outcome r sent b rv b'"
    and sizes: "sb_n b' = 0 \<or> b' = b \<or> b' = shift_batch sent b"
  shows "conn_batch_ok b'"
proof -
  have "list_all dgram_ok (take (sb_n b') (sb_sizes b'))"
    using sizes b sent list_all_shift [of dgram_ok "sb_n b" "sb_sizes b" sent]
    by (auto simp: conn_batch_ok_def shift_batch_def Let_def min_def)
  moreover have "sb_n b' \<le> DATAGRAM_BATCH_SIZE"
    using sizes b by (auto simp: conn_batch_ok_def shift_batch_def Let_def)
  ultimately show ?thesis using b out by (simp add: conn_batch_ok_def send_outcome_def)
qed

lemma conn_send_settled:
  assumes env: "env_ok env" and b: "conn_batch_ok (batch c)"
    and n: "0 < n_packets c" "n_packets c \<le> ue_max_batch env"
  shows "\<exists>ok cancel c' os'. conn_send env c os = Some (Inr (ok, cancel, c', os')) \<and>
    send_frame c c' \<and> send_settled c c' \<and> (ok \<longrightarrow> n_packets c' = 0) \<and>
    (\<not> ok \<longrightarrow> cancel \<longleftrightarrow> n_packets c' = 0)"
proof -
  let ?b = "batch c" and ?sizes = "take (sb_n (batch c)) (sb_sizes (batch c))"
  have len: "length ?sizes = n_packets c" using b by (auto simp: conn_batch_ok_def n_packets_def)
  have "?sizes \<noteq> [] \<and> length ?sizes \<le> ue_max_batch env \<and> list_all dgram_ok ?sizes"
    using len n b by (auto simp: conn_batch_ok_def)
  with env obtain r sent os' where r: "ue_send env os ?sizes = Some (Inr ((r, sent), os'))"
    and pr: "sender_promise env os ?sizes"
    unfolding env_ok_def by blast
  from env have sock: "ue_socket env" by (simp add: env_ok_def)
  obtain rv b' where
    sp: "send_packets True (ue_max_batch env) (ue_send env) ?b os = Some (Inr (rv, b', os'))" and
    out: "send_outcome r sent ?b rv b'"
    using env.send_packets_outcome [OF conn_batch_wf [OF b] _ _ pr r, of "ue_max_batch env"] n
    by (auto simp: n_packets_def)
  from r pr have sent: "sent \<le> n_packets c" "io_failure r \<Longrightarrow> sent < n_packets c"
    using len n by (auto simp: sender_promise_def)
  have hard: "\<not> io_blocked rv \<Longrightarrow> sb_n b' = 0"
    using sp n r by (auto simp: send_packets_def n_packets_def utils_consts split: if_splits)
  have sizes: "sb_n b' = 0 \<or> b' = ?b \<or> b' = shift_batch sent ?b"
    using sp n r by (auto simp: send_packets_def n_packets_def split: if_splits)
  have ok: "conn_batch_ok b'"
    using batch_after_send [OF b _ out sizes] sent(1) by (simp add: n_packets_def)
  have suffix: "\<exists>k. batch_packets b' = drop k (batch_packets ?b)"
  proof (cases "io_failure r \<and> \<not> io_blocked r")
    case True
    with out show ?thesis by (auto simp: send_outcome_def intro: exI [of _ "length (batch_packets ?b)"])
  next
    case False
    with out show ?thesis by (auto simp: send_outcome_def)
  qed
  have pos: "0 < sb_n b' \<longleftrightarrow> io_blocked rv"
    using out hard blocked_is_failure [of rv] by (auto simp: send_outcome_def io_failure_def split: if_splits)
  let ?c1 = "c\<lparr>sent_counter := sent_counter c + int (n_packets c), batch := b'\<rparr>"
  have fr: "send_frame c ?c1" "send_frame c (?c1\<lparr>write_waits := write_waits c + 1\<rparr>)"
    by (simp_all add: send_frame_def)
  show ?thesis
    using sp n sock ok suffix pos fr hard
    by (auto simp: conn_send_def send_settled_def n_packets_def Let_def io_failure_def)
qed

section \<open>What flushing does to the streams\<close>

text \<open>Flushing may move bytes of a stream into flight and set its FIN flag, and nothing else.\<close>

definition flushed :: "stream \<Rightarrow> stream \<Rightarrow> bool" where
  "flushed s s' \<longleftrightarrow>
     s' = s\<lparr>unacked_size := unacked_size s', sent_fin := sent_fin s'\<rparr> \<and>
     unacked_size s \<le> unacked_size s' \<and> (sent_fin s \<longrightarrow> sent_fin s') \<and> (stream_inv s \<longrightarrow> stream_inv s')"

lemma flushed_refl: "flushed s s"
  by (simp add: flushed_def)

lemma flushed_trans: "flushed s s' \<Longrightarrow> flushed s' s'' \<Longrightarrow> flushed s s''"
  by (cases s; cases s'; cases s'') (auto simp: flushed_def)

lemma flushed_fields:
  assumes "flushed s s'"
  shows "user_buffers s' = user_buffers s" and "stream_id s' = stream_id s" and "senders s' = senders s"
  using assms unfolding flushed_def by (cases s; cases s'; simp)+

lemma flushed_wrote:
  assumes "stream_inv s \<Longrightarrow> n \<le> length (stream_queued s)" and "stream_inv s"
  shows "flushed s (wrote (of_nat n) s)"
  using assms stream_inv_wrote [of s n] unat_wrote [of s n]
  by (auto simp: flushed_def wrote_def word_le_nat_alt)

lemma flushed_fin: "flushed s (s\<lparr>sent_fin := True\<rparr>)"
  by (simp add: flushed_def stream_inv_def stream_bytes_def)

text \<open>The heap of streams through a flush.\<close>

definition heap_ok :: "'ng connection \<Rightarrow> bool" where
  "heap_ok c \<longleftrightarrow> list_all stream_inv (heap c) \<and> list_all (\<lambda>e. snd e < length (heap c)) (streams c)"

definition flush_frame :: "'ng connection \<Rightarrow> 'ng connection \<Rightarrow> bool" where
  "flush_frame c c' \<longleftrightarrow> list_all2 flushed (heap c) (heap c') \<and> streams c' = streams c \<and>
     pending_streams c' = pending_streams c \<and> calls c' = calls c \<and>
     cn_source_cid c' = cn_source_cid c \<and> cn_dir c' = cn_dir c \<and> cn_path c' = cn_path c"

lemma flush_frame_refl [simp]: "flush_frame c c"
  by (simp add: flush_frame_def list_all2_refl flushed_refl)

lemma flush_frame_trans: "flush_frame c c' \<Longrightarrow> flush_frame c' c'' \<Longrightarrow> flush_frame c c''"
  unfolding flush_frame_def list_all2_conv_all_nth by (metis flushed_trans)

lemma flush_frame_ok: "flush_frame c c' \<Longrightarrow> heap_ok c \<Longrightarrow> heap_ok c'"
  by (auto simp: flush_frame_def heap_ok_def list_all2_conv_all_nth list_all_length flushed_def)

lemma flush_frame_put:
  assumes "r < length (heap c)" and "flushed (heap c ! r) s"
  shows "flush_frame c (put_stream r s c)"
  using assms by (auto simp: flush_frame_def put_stream_def list_all2_conv_all_nth nth_list_update flushed_refl)

lemma flush_frame_send: "send_frame c c' \<Longrightarrow> flush_frame c c'"
  by (simp add: flush_frame_def list_all2_refl flushed_refl send_frame_heap send_frame_streams
      send_frame_pending send_frame_calls send_frame_id)

lemma flush_frame_wrote:
  assumes "heap_ok c" and "\<And>r. stream = Some r \<Longrightarrow> r < length (heap c) \<and> n \<le> length (stream_queued (heap c ! r))"
  shows "flush_frame c (stream_wrote stream (int n) c)"
  using assms flush_frame_put [of _ c] flushed_wrote
  by (auto simp: stream_wrote_def heap_ok_def list_all_length split: option.splits)

section \<open>The invariant of the flush loop\<close>

text \<open>
  \<open>flush_core\<close>: the datagrams written so far are those handed over followed by those in the batch,
  and the write position is the end of the batch.  \<open>flush_ended\<close>: everything was handed over, and a
  retry is registered if and only if packets wait.
\<close>

definition handed_ok :: "'os udp_env \<Rightarrow> bytes list list \<Rightarrow> bool" where
  "handed_ok env bs \<longleftrightarrow> list_all (\<lambda>b. b \<noteq> [] \<and> length b \<le> ue_max_batch env \<and> list_all (\<lambda>d. dgram_ok (length d)) b) bs"

definition flush_core :: "'os udp_env \<Rightarrow> 'ng connection \<Rightarrow> ('ng, 'os) flush \<Rightarrow> bool" where
  "flush_core env c0 st \<longleftrightarrow> (let c = fl_conn st; b = batch c in
     conn_batch_ok b \<and> sb_n b \<le> ue_max_batch env \<and>
     fl_pos st = sum_list (take (sb_n b) (sb_sizes b)) \<and>
     concat (fl_handed st) @ batch_packets b = fl_made st \<and>
     handed_ok env (fl_handed st) \<and> list_all (\<lambda>d. dgram_ok (length d)) (batch_packets b) \<and>
     write_waits c = write_waits c0 \<and> flush_frame c0 c \<and> heap_ok c)"

definition flush_ended :: "'os udp_env \<Rightarrow> 'ng connection \<Rightarrow> ('ng, 'os) flush \<Rightarrow> bool" where
  "flush_ended env c0 st \<longleftrightarrow> (let c = fl_conn st in
     conn_batch_ok (batch c) \<and> concat (fl_handed st) = fl_made st \<and> handed_ok env (fl_handed st) \<and>
     write_waits c = write_waits c0 + (if 0 < n_packets c then 1 else 0) \<and>
     (0 < n_packets c \<longrightarrow> fl_handed st \<noteq> [] \<and> (\<exists>k. batch_packets (batch c) = drop k (last (fl_handed st)))) \<and>
     flush_frame c0 c \<and> heap_ok c)"

definition strs_ok :: "nat \<Rightarrow> nat option list \<Rightarrow> bool" where
  "strs_ok n strs \<longleftrightarrow> strs = [] \<or>
     last strs = None \<and> list_all (\<lambda>x. case x of None \<Rightarrow> False | Some r \<Rightarrow> r < n) (butlast strs)"

definition flush_inv :: "'os udp_env \<Rightarrow> 'ng connection \<Rightarrow> ('ng, 'os) flush \<Rightarrow> bool" where
  "flush_inv env c0 st \<longleftrightarrow> flush_core env c0 st \<and> n_packets (fl_conn st) < ue_max_batch env \<and>
     strs_ok (length (heap (fl_conn st))) (fl_strs st)"

lemma length_batch_packets: "conn_batch_ok b \<Longrightarrow> length (batch_packets b) = sb_n b"
  by (auto simp: batch_packets_def conn_batch_ok_def)

lemma flush_send_ended:
  assumes env: "env_ok env" and core: "flush_core env c0 st" and n: "0 < n_packets (fl_conn st)"
  shows "\<exists>ok st'. flush_send env st = Some (Inr (ok, st')) \<and> flush_ended env c0 st' \<and>
    (ok \<longrightarrow> n_packets (fl_conn st') = 0) \<and> fl_strs st' = fl_strs st \<and> fl_packets st' = fl_packets st \<and>
    fl_made st' = fl_made st \<and> length (heap (fl_conn st')) = length (heap (fl_conn st))"
proof -
  let ?c = "fl_conn st"
  from core have b: "conn_batch_ok (batch ?c)" and le: "n_packets ?c \<le> ue_max_batch env"
    by (simp_all add: flush_core_def n_packets_def Let_def)
  obtain ok cancel c' os' where
    cs: "conn_send env ?c (fl_os st) = Some (Inr (ok, cancel, c', os'))" and
    fr: "send_frame ?c c'" and st: "send_settled ?c c'" and z: "ok \<longrightarrow> n_packets c' = 0"
    using conn_send_settled [OF env b n le, of "fl_os st"] by blast
  have "batch_packets (batch ?c) \<noteq> []" "length (batch_packets (batch ?c)) \<le> ue_max_batch env"
    using length_batch_packets [OF b] n le by (auto simp: n_packets_def)
  with cs fr st z core show ?thesis
    by (auto simp: flush_send_def flush_ended_def flush_core_def Let_def handed_ok_def send_settled_def
        send_frame_heap intro: flush_frame_trans flush_frame_send flush_frame_ok)
qed

lemma flush_ended_core:
  assumes "flush_ended env c0 st" and "n_packets (fl_conn st) = 0"
  shows "flush_core env c0 (st\<lparr>fl_pos := 0\<rparr>)"
  using assms by (auto simp: flush_ended_def flush_core_def Let_def n_packets_def batch_packets_def)

text \<open>A datagram appended to the batch keeps the core.\<close>

lemma flush_core_add:
  assumes core: "flush_core env c0 st" and n: "n_packets (fl_conn st) < ue_max_batch env"
    and env: "env_ok env" and pkt: "dgram_ok (length pkt)"
  shows "flush_core env c0 (st\<lparr>fl_conn := (fl_conn st)\<lparr>batch := add_datagram (fl_pos st) pkt (batch (fl_conn st)),
      send_ecn := ecn\<rparr>, fl_pos := fl_pos st + length pkt, fl_packets := fl_packets st + 1,
      fl_made := fl_made st @ [pkt]\<rparr>)"
proof -
  let ?b = "batch (fl_conn st)"
  from core have b: "conn_batch_ok ?b" and pos: "fl_pos st = sum_list (take (sb_n ?b) (sb_sizes ?b))"
    by (simp_all add: flush_core_def Let_def)
  from n env have "sb_n ?b < DATAGRAM_BATCH_SIZE" by (simp add: n_packets_def env_ok_def)
  note add = add_datagram_ok [OF b this pkt pos]
  have "sb_n (add_datagram (fl_pos st) pkt ?b) = Suc (sb_n ?b)" by (simp add: add_datagram_def)
  with core n add pkt show ?thesis
    by (auto simp: flush_core_def Let_def n_packets_def flush_frame_def heap_ok_def)
qed

section \<open>One round\<close>

text \<open>
  What a round started with the list \<open>strs\<close> (its head already popped) leads to.  A round that goes on
  either leaves one entry less to visit or has written one more datagram and not reached the limit.
\<close>

definition flush_outcome ::
  "'os udp_env \<Rightarrow> 'ng connection \<Rightarrow> nat \<Rightarrow> ('ng, 'os) flush \<Rightarrow> ('ng, 'os) flush_next \<Rightarrow> bool" where
  "flush_outcome env c0 max_packets st x \<longleftrightarrow>
     (case x of
        Next st' \<Rightarrow> flush_inv env c0 st' \<and>
          (fl_packets st' = fl_packets st \<and> length (fl_strs st') \<le> length (fl_strs st) \<or>
           fl_packets st' = Suc (fl_packets st) \<and> fl_packets st' \<noteq> max_packets \<and>
             length (fl_strs st') \<le> Suc (length (fl_strs st)))
      | Leave_loop st' \<Rightarrow> flush_core env c0 st'
      | Return st' \<Rightarrow> flush_ended env c0 st')"

text \<open>The rest of the list after the head was popped.\<close>

definition popped_ok :: "nat \<Rightarrow> nat option \<Rightarrow> nat option list \<Rightarrow> bool" where
  "popped_ok n stream strs \<longleftrightarrow>
     (case stream of None \<Rightarrow> strs = [] | Some r \<Rightarrow> r < n \<and> strs \<noteq> [] \<and> strs_ok n strs)"

lemma strs_ok_insert:
  "strs_ok n strs \<Longrightarrow> strs \<noteq> [] \<Longrightarrow> r < n \<Longrightarrow> strs_ok n (butlast strs @ [Some r, last strs])"
  by (auto simp: strs_ok_def butlast_append)

lemma flush_core_cong:
  "flush_core env c0 (st\<lparr>fl_strs := xs\<rparr>) = flush_core env c0 st"
  "flush_core env c0 (st\<lparr>fl_packets := k\<rparr>) = flush_core env c0 st"
  by (simp_all add: flush_core_def Let_def)

lemma flush_requeue_outcome:
  assumes core: "flush_core env c0 st" and n: "n_packets (fl_conn st) < ue_max_batch env"
    and st0: "fl_packets st = Suc (fl_packets st0)" "fl_strs st = fl_strs st0"
    and strs: "popped_ok (length (heap (fl_conn st))) stream (fl_strs st)"
  shows "\<exists>x. flush_requeue max_packets stream st = Inr x \<and> flush_outcome env c0 max_packets st0 x"
proof (cases stream)
  case None
  with strs have "fl_strs st = []" by (simp add: popped_ok_def)
  with None core n st0 show ?thesis
    by (auto simp: flush_requeue_def flush_outcome_def flush_inv_def strs_ok_def flush_core_cong)
next
  case (Some r)
  with strs have "r < length (heap (fl_conn st))" "fl_strs st \<noteq> []" "strs_ok (length (heap (fl_conn st))) (fl_strs st)"
    by (simp_all add: popped_ok_def)
  with Some core n st0 show ?thesis
    by (auto simp: flush_requeue_def flush_outcome_def flush_inv_def strs_ok_insert flush_core_cong)
qed

text \<open>A full batch is sent at once.\<close>

definition flush_full :: "'os udp_env \<Rightarrow> nat \<Rightarrow> nat option \<Rightarrow> ('ng, 'os) flush \<Rightarrow> ('ng, 'os) flush_next result option" where
  "flush_full env max_packets stream st =
     (case flush_send env st of
        None \<Rightarrow> None
      | Some (Inl f) \<Rightarrow> Some (Inl f)
      | Some (Inr (ok, st2)) \<Rightarrow>
          if \<not> ok then Some (Inr (Return st2))
          else if n_packets (fl_conn st2) \<noteq> 0 then Some (Inl Assertion_failed)
          else Some (flush_requeue max_packets stream (st2\<lparr>fl_pos := 0\<rparr>)))"

lemma flush_full_outcome:
  assumes core: "flush_core env c0 st1" and n: "0 < n_packets (fl_conn st1)" and env: "env_ok env"
    and st1: "fl_packets st1 = Suc (fl_packets st)" "fl_strs st1 = fl_strs st"
    and strs: "popped_ok (length (heap (fl_conn st1))) stream (fl_strs st1)"
  shows "\<exists>x. flush_full env max_packets stream st1 = Some (Inr x) \<and> flush_outcome env c0 max_packets st x"
proof -
  obtain ok st2 where s2: "flush_send env st1 = Some (Inr (ok, st2))" and e2: "flush_ended env c0 st2"
    and ok: "ok \<longrightarrow> n_packets (fl_conn st2) = 0"
    and keep: "fl_strs st2 = fl_strs st1" "fl_packets st2 = fl_packets st1"
      "length (heap (fl_conn st2)) = length (heap (fl_conn st1))"
    using flush_send_ended [OF env core n] by auto
  show ?thesis
  proof (cases ok)
    case False
    with s2 e2 show ?thesis by (simp add: flush_full_def flush_outcome_def)
  next
    case True
    let ?st2 = "st2\<lparr>fl_pos := 0\<rparr>"
    from True ok have z: "n_packets (fl_conn st2) = 0" by simp
    have "n_packets (fl_conn ?st2) < ue_max_batch env" using z env by (simp add: env_ok_def)
    from flush_requeue_outcome [OF flush_ended_core [OF e2 z] this, of st] strs st1 keep True s2 z
    show ?thesis by (simp add: flush_full_def)
  qed
qed

lemma flush_packet_outcome:
  assumes core: "flush_core env c0 st" and n: "n_packets (fl_conn st) < ue_max_batch env"
    and env: "env_ok env" and pkt: "dgram_ok (length pkt)"
    and strs: "popped_ok (length (heap (fl_conn st))) stream (fl_strs st)"
  shows "\<exists>x. flush_packet env max_packets stream pkt ecn st = Some (Inr x) \<and> flush_outcome env c0 max_packets st x"
proof -
  define st1 where "st1 = st\<lparr>fl_conn := (fl_conn st)\<lparr>batch := add_datagram (fl_pos st) pkt (batch (fl_conn st)),
      send_ecn := ecn\<rparr>, fl_pos := fl_pos st + length pkt, fl_packets := fl_packets st + 1,
      fl_made := fl_made st @ [pkt]\<rparr>"
  have core1: "flush_core env c0 st1" unfolding st1_def by (rule flush_core_add [OF core n env pkt])
  have st1: "fl_packets st1 = Suc (fl_packets st)" "fl_strs st1 = fl_strs st"
    "heap (fl_conn st1) = heap (fl_conn st)" "n_packets (fl_conn st1) = Suc (n_packets (fl_conn st))"
    by (simp_all add: st1_def n_packets_def add_datagram_def)
  have room: "\<not> length (sb_sizes (batch (fl_conn st))) \<le> sb_n (batch (fl_conn st))"
    using core n env by (auto simp: flush_core_def Let_def conn_batch_ok_def n_packets_def env_ok_def)
  have eq: "flush_packet env max_packets stream pkt ecn st =
     (if n_packets (fl_conn st1) = ue_max_batch env then flush_full env max_packets stream st1
      else Some (flush_requeue max_packets stream st1))"
    using room by (simp add: flush_packet_def flush_full_def Let_def st1_def)
  show ?thesis
  proof (cases "n_packets (fl_conn st1) = ue_max_batch env")
    case False
    with st1 n have "n_packets (fl_conn st1) < ue_max_batch env" by simp
    from flush_requeue_outcome [OF core1 this st1(1,2)] strs st1 False show ?thesis by (simp add: eq)
  next
    case True
    with flush_full_outcome [OF core1 _ env st1(1,2)] strs st1 show ?thesis by (simp add: eq)
  qed
qed

text \<open>Changes of the connection that keep the core: ngtcp2's state and the frame.\<close>

lemma flush_core_frame:
  assumes "flush_core env c0 st" and "flush_frame (fl_conn st) c" and "batch c = batch (fl_conn st)"
    and "write_waits c = write_waits (fl_conn st)"
  shows "flush_core env c0 (st\<lparr>fl_conn := c\<rparr>)"
  using assms flush_frame_trans [of c0 "fl_conn st" c] flush_frame_ok [of "fl_conn st" c]
  by (simp add: flush_core_def Let_def)

lemma flush_frame_ng: "flush_frame c (c\<lparr>cn_ng := g\<rparr>)"
  by (simp add: flush_frame_def list_all2_refl flushed_refl)

lemma stream_wrote_fields [simp]:
  "batch (stream_wrote stream n c) = batch c" "write_waits (stream_wrote stream n c) = write_waits c"
  "length (heap (stream_wrote stream n c)) = length (heap c)"
  by (auto simp: stream_wrote_def put_stream_def split: option.splits)

lemma n_packets_batch: "batch c' = batch c \<Longrightarrow> n_packets c' = n_packets c"
  by (simp add: n_packets_def)

lemma flush_frame_write:
  assumes "heap_ok c" and "n \<le> int k" and "0 \<le> n"
    and "\<And>r. stream = Some r \<Longrightarrow> r < length (heap c) \<and> k \<le> length (stream_queued (heap c ! r))"
  shows "flush_frame c (stream_wrote stream n (c\<lparr>cn_ng := g\<rparr>))"
proof -
  have "flush_frame (c\<lparr>cn_ng := g\<rparr>) (stream_wrote stream (int (nat n)) (c\<lparr>cn_ng := g\<rparr>))"
    using assms by (intro flush_frame_wrote) (fastforce simp: heap_ok_def)+
  with assms(3) show ?thesis by (auto intro: flush_frame_trans flush_frame_ng)
qed

lemma popped_strs_ok: "popped_ok n stream strs \<Longrightarrow> strs_ok n strs"
  by (auto simp: popped_ok_def strs_ok_def split: option.splits)

lemma strs_ok_congested:
  assumes "strs_ok n strs"
  shows "strs_ok n (filter (\<lambda>x. x = None) strs)"
proof (cases "strs = []")
  case False
  with assms have last: "last strs = None" and some: "\<forall>x \<in> set (butlast strs). x \<noteq> None"
    by (auto simp: strs_ok_def list_all_iff split: option.splits)
  from False last have split: "strs = butlast strs @ [None]" by (metis append_butlast_last_id)
  have "filter (\<lambda>x. x = None) (butlast strs @ [None]) = [None]"
    using some by (simp add: filter_empty_conv)
  with split have "filter (\<lambda>x. x = None) strs = [None]" by simp
  then show ?thesis by (simp add: strs_ok_def)
qed (simp add: strs_ok_def)

lemma flush_outcome_cong:
  "flush_outcome env c0 max_packets (st\<lparr>fl_conn := c\<rparr>) x = flush_outcome env c0 max_packets st x"
  by (cases x) (simp_all add: flush_outcome_def)

lemma flush_room:
  assumes core: "flush_core env c0 st" and n: "n_packets (fl_conn st) < ue_max_batch env" and env: "env_ok env"
  shows "\<not> length (sb_buf (batch (fl_conn st))) < fl_pos st + NGTCP2_MAX_PMTUD_UDP_PAYLOAD_SIZE"
proof -
  let ?b = "batch (fl_conn st)"
  from core have b: "conn_batch_ok ?b" and pos: "fl_pos st = sum_list (take (sb_n ?b) (sb_sizes ?b))"
    by (simp_all add: flush_core_def Let_def)
  have "fl_pos st + NGTCP2_MAX_PMTUD_UDP_PAYLOAD_SIZE \<le> NGTCP2_MAX_PMTUD_UDP_PAYLOAD_SIZE * Suc (sb_n ?b)"
    using conn_batch_sum [OF b] pos by simp
  also have "\<dots> \<le> NGTCP2_MAX_PMTUD_UDP_PAYLOAD_SIZE * DATAGRAM_BATCH_SIZE"
    using n env by (intro mult_le_mono) (auto simp: n_packets_def env_ok_def)
  finally show ?thesis using b by (simp add: conn_batch_ok_def)
qed

text \<open>One write: what ngtcp2 was offered is the unsent data of the stream.\<close>

lemma flush_write_outcome:
  assumes core: "flush_core env c0 st" and n: "n_packets (fl_conn st) < ue_max_batch env"
    and env: "env_ok env" and ng: "writev_ok ng"
    and strs: "popped_ok (length (heap (fl_conn st))) stream (fl_strs st)"
    and bufs: "\<And>r. stream = Some r \<Longrightarrow> length (concat bufs) \<le> length (stream_queued (heap (fl_conn st) ! r))"
  shows "\<exists>x. flush_write ng env max_packets ts stream fin bufs st = Some (Inr x) \<and>
    flush_outcome env c0 max_packets st x"
proof -
  let ?c = "fl_conn st" and ?k = "length (concat bufs)"
  define req where "req = \<lparr>wr_stream_id = (case stream of None \<Rightarrow> - 1 | Some r \<Rightarrow> stream_id (heap ?c ! r)),
    wr_fin = fin, wr_bufs = bufs, wr_destlen = NGTCP2_MAX_PMTUD_UDP_PAYLOAD_SIZE, wr_ts = ts\<rparr>"
  obtain res g where w: "ng_writev_stream ng req (cn_ng ?c) = (res, g)" by fastforce
  from writev_okD [OF ng w] have ok: "case res of Wrote pkt nd ecn \<Rightarrow> length pkt \<le> NGTCP2_MAX_PMTUD_UDP_PAYLOAD_SIZE \<and> nd \<le> int ?k
      | Write_error rv nd \<Rightarrow> rv = NG_WRITE_MORE \<longrightarrow> 0 \<le> nd \<and> nd \<le> int ?k" by (cases res) (simp_all add: req_def)
  from core have h: "heap_ok ?c" by (simp add: flush_core_def Let_def)
  note room = flush_room [OF core n env]
  have given: "stream = Some r \<Longrightarrow> r < length (heap ?c) \<and> ?k \<le> length (stream_queued (heap ?c ! r))" for r
    using strs bufs by (auto simp: popped_ok_def)
  have keep: "flush_core env c0 (st\<lparr>fl_conn := ?c\<lparr>cn_ng := g\<rparr>\<rparr>)"
    by (rule flush_core_frame [OF core flush_frame_ng]) simp_all
  have took: "flush_core env c0 (st\<lparr>fl_conn := stream_wrote stream nd (?c\<lparr>cn_ng := g\<rparr>)\<rparr>)"
    if "0 \<le> nd" "nd \<le> int ?k" for nd
    using flush_frame_write [OF h that(2,1) given] by (intro flush_core_frame [OF core]) simp_all
  have np: "n_packets (stream_wrote stream nd (?c\<lparr>cn_ng := g\<rparr>)) = n_packets ?c" for nd
    by (simp add: n_packets_def)
  show ?thesis
  proof (cases res)
    case (Write_error rv nd)
    with ok room w took keep n np popped_strs_ok [OF strs] show ?thesis
      by (auto simp: flush_write_def Let_def req_def flush_outcome_def flush_inv_def n_packets_def)
  next
    case (Wrote pkt nd ecn)
    show ?thesis
    proof (cases "pkt = []")
      case True
      with Wrote room w keep n strs_ok_congested [OF popped_strs_ok [OF strs]] popped_strs_ok [OF strs]
      show ?thesis
        by (auto simp: flush_write_def Let_def req_def flush_outcome_def flush_inv_def n_packets_def
            flush_core_cong)
    next
      case False
      let ?st = "st\<lparr>fl_conn := (if 0 < nd then stream_wrote stream nd (?c\<lparr>cn_ng := g\<rparr>) else ?c\<lparr>cn_ng := g\<rparr>)\<rparr>"
      have "flush_core env c0 ?st" using keep took [of nd] ok Wrote by auto
      moreover have "n_packets (fl_conn ?st) < ue_max_batch env" using n np by (simp add: n_packets_def)
      moreover have "dgram_ok (length pkt)" using ok Wrote False by (simp add: dgram_ok_def)
      moreover have "popped_ok (length (heap (fl_conn ?st))) stream (fl_strs ?st)" using strs by simp
      ultimately obtain x where "flush_packet env max_packets stream pkt ecn ?st = Some (Inr x)"
        "flush_outcome env c0 max_packets ?st x"
        using flush_packet_outcome [of env c0 ?st] env by blast
      with Wrote False room w show ?thesis
        by (auto simp: flush_write_def Let_def req_def flush_outcome_cong)
    qed
  qed
qed

lemma strs_ok_pop:
  "strs_ok n strs \<Longrightarrow> strs \<noteq> [] \<Longrightarrow> popped_ok n (hd strs) (tl strs)"
  by (cases strs; cases "hd strs") (auto simp: strs_ok_def popped_ok_def split: if_splits)

lemma flush_step_outcome:
  assumes inv: "flush_inv env c0 st" and ne: "fl_strs st \<noteq> []" and env: "env_ok env" and ng: "writev_ok ng"
  shows "\<exists>x. flush_step ng env max_packets ts st = Some (Inr x) \<and>
    flush_outcome env c0 max_packets (st\<lparr>fl_strs := tl (fl_strs st)\<rparr>) x"
proof -
  let ?st1 = "st\<lparr>fl_strs := tl (fl_strs st)\<rparr>" and ?c = "fl_conn st"
  from inv have core: "flush_core env c0 ?st1" and n: "n_packets (fl_conn ?st1) < ue_max_batch env"
    and strs: "popped_ok (length (heap ?c)) (hd (fl_strs st)) (tl (fl_strs st))"
    and h: "heap_ok ?c"
    using ne by (auto simp: flush_inv_def flush_core_cong strs_ok_pop flush_core_def Let_def)
  show ?thesis
  proof (cases "hd (fl_strs st)")
    case None
    with strs have "tl (fl_strs st) = []" by (simp add: popped_ok_def)
    with None flush_write_outcome [OF core n env ng, of None "[]"] show ?thesis
      by (simp add: flush_step_def popped_ok_def)
  next
    case (Some r)
    with strs have r: "r < length (heap ?c)" by (simp add: popped_ok_def)
    with h have si: "stream_inv (heap ?c ! r)" by (simp add: heap_ok_def list_all_length)
    obtain bufs where p: "pending (heap ?c ! r) = Inr bufs"
      and q: "concat bufs = stream_queued (heap ?c ! r)"
      using pending_correct [OF si] by (auto simp: stream_queued_def)
    let ?fin = "put_stream r ((heap ?c ! r)\<lparr>sent_fin := True\<rparr>) ?c"
    have fin: "flush_core env c0 (?st1\<lparr>fl_conn := ?fin\<rparr>)"
      using r by (intro flush_core_frame [OF core])
        (simp_all add: flush_frame_put flushed_fin, simp_all add: put_stream_def)
    have finq: "stream_queued (heap ?fin ! r) = stream_queued (heap ?c ! r)" "length (heap ?fin) = length (heap ?c)"
      "n_packets ?fin = n_packets ?c"
      using r by (simp_all add: put_stream_def stream_queued_def stream_bytes_def n_packets_def)
    from flush_write_outcome [OF fin _ env ng, of "Some r" bufs] finq n strs Some q
    have "\<exists>x. flush_write ng env max_packets ts (Some r) True bufs (?st1\<lparr>fl_conn := ?fin\<rparr>) = Some (Inr x) \<and>
      flush_outcome env c0 max_packets ?st1 x"
      by (simp add: flush_outcome_cong)
    moreover from flush_write_outcome [OF core n env ng, of "Some r" bufs] strs Some q
    have "\<exists>x. flush_write ng env max_packets ts (Some r) False bufs ?st1 = Some (Inr x) \<and>
      flush_outcome env c0 max_packets ?st1 x" by simp
    moreover have "flush_outcome env c0 max_packets ?st1 (Next ?st1)"
      using core n popped_strs_ok [OF strs] by (simp add: flush_outcome_def flush_inv_def)
    ultimately show ?thesis using Some p by (auto simp: flush_step_def Let_def)
  qed
qed

section \<open>The whole loop\<close>

text \<open>Whatever the loop returns satisfies its postcondition; with enough fuel it returns.\<close>

definition loop_post :: "'os udp_env \<Rightarrow> 'ng connection \<Rightarrow> ('ng, 'os) flush_next \<Rightarrow> bool" where
  "loop_post env c0 x \<longleftrightarrow>
     (case x of Next st \<Rightarrow> False | Leave_loop st \<Rightarrow> flush_core env c0 st | Return st \<Rightarrow> flush_ended env c0 st)"

lemma flush_loop_sound:
  assumes env: "env_ok env" and ng: "writev_ok ng"
  shows "flush_inv env c0 st \<Longrightarrow> flush_loop fuel ng env max_packets ts st = Some r \<Longrightarrow>
    \<exists>x. r = Inr x \<and> loop_post env c0 x"
proof (induction fuel arbitrary: st)
  case (Suc fuel)
  show ?case
  proof (cases "fl_strs st = []")
    case True
    with Suc.prems show ?thesis by (auto simp: flush_inv_def loop_post_def)
  next
    case False
    obtain x where x: "flush_step ng env max_packets ts st = Some (Inr x)"
      and out: "flush_outcome env c0 max_packets (st\<lparr>fl_strs := tl (fl_strs st)\<rparr>) x"
      using flush_step_outcome [OF Suc.prems(1) False env ng] by blast
    show ?thesis
    proof (cases x)
      case (Next st')
      with out have inv: "flush_inv env c0 st'" by (simp add: flush_outcome_def)
      with Suc x Next False show ?thesis by simp
    qed (use x out False Suc.prems in \<open>auto simp: flush_outcome_def loop_post_def\<close>)
  qed
qed simp

lemma flush_loop_returns:
  assumes env: "env_ok env" and ng: "writev_ok ng"
  shows "flush_inv env c0 st \<Longrightarrow> fl_packets st < max_packets \<Longrightarrow>
    length (fl_strs st) + (max_packets - fl_packets st) < fuel \<Longrightarrow>
    flush_loop fuel ng env max_packets ts st \<noteq> None"
proof (induction fuel arbitrary: st)
  case (Suc fuel)
  show ?case
  proof (cases "fl_strs st = []")
    case False
    obtain x where x: "flush_step ng env max_packets ts st = Some (Inr x)"
      and out: "flush_outcome env c0 max_packets (st\<lparr>fl_strs := tl (fl_strs st)\<rparr>) x"
      using flush_step_outcome [OF Suc.prems(1) False env ng] by blast
    show ?thesis
    proof (cases x)
      case (Next st')
      with out have inv: "flush_inv env c0 st'"
        and prog: "fl_packets st' = fl_packets st \<and> length (fl_strs st') \<le> length (fl_strs st) - 1 \<or>
          fl_packets st' = Suc (fl_packets st) \<and> fl_packets st' \<noteq> max_packets \<and>
            length (fl_strs st') \<le> Suc (length (fl_strs st) - 1)"
        by (auto simp: flush_outcome_def)
      from False have "0 < length (fl_strs st)" by simp
      with prog Suc.prems(2,3) have "fl_packets st' < max_packets"
        "length (fl_strs st') + (max_packets - fl_packets st') < fuel" by linarith+
      with Suc.IH [OF inv] x Next False show ?thesis by simp
    qed (use x False in simp_all)
  qed simp
qed simp

lemma flush_order_ok: "heap_ok c \<Longrightarrow> strs_ok (length (heap c)) (flush_order start c)"
  by (auto simp: strs_ok_def flush_order_def Let_def heap_ok_def list_all_iff butlast_append
      dest!: in_set_dropD in_set_takeD)

lemma length_flush_order: "length (flush_order start c) \<le> Suc (length (streams c))"
proof -
  let ?rs = "map snd (streams c)"
  have "length (drop m ?rs @ take m ?rs) = length (streams c)" for m
    by (simp add: min_def)
  then show ?thesis
    unfolding flush_order_def Let_def by (metis (no_types, lifting) Suc_eq_plus1 Suc_le_mono length_append_singleton
        length_filter_le length_map)
qed

lemma flush_done_ended: "flush_ended env c0 st \<Longrightarrow> flush_ended env c0 (flush_done ng ts st)"
  by (auto simp: flush_ended_def flush_done_def Let_def n_packets_def flush_frame_def heap_ok_def)

text \<open>A connection whose arrays and streams are in order.\<close>

definition conn_ready :: "'ng connection \<Rightarrow> bool" where
  "conn_ready c \<longleftrightarrow> heap_ok c \<and> conn_batch_ok (batch c)"

lemma flush_start_inv:
  assumes "env_ok env" and "conn_ready c" and "n_packets c = 0"
  shows "flush_inv env c (flush_start start c os)"
  using assms flush_order_ok [of c start]
  by (auto simp: flush_inv_def flush_core_def flush_start_def conn_ready_def n_packets_def batch_packets_def
      handed_ok_def env_ok_def)

lemma flush_finish:
  assumes env: "env_ok env" and x: "loop_post env c x" and l: "flush_loop fuel ng env (max_stream_packets ng c) ts (flush_start start c os) = Some (Inr x)"
    and n: "n_packets c = 0" and payload: "ng_max_tx_udp_payload_size ng (cn_ng c) \<noteq> 0"
  shows "\<exists>st. flush_streams fuel ng env start ts c os = Some (Inr st) \<and> flush_ended env c st"
proof (cases x)
  case (Return st)
  with x have "flush_ended env c st" by (simp add: loop_post_def)
  from l n payload Return flush_done_ended [OF this] show ?thesis by (auto simp: flush_streams_def)
next
  case (Leave_loop st)
  with x have core: "flush_core env c st" by (simp add: loop_post_def)
  show ?thesis
  proof (cases "0 < n_packets (fl_conn st)")
    case True
    from flush_send_ended [OF env core True] obtain ok st' where
      s: "flush_send env st = Some (Inr (ok, st'))" and e: "flush_ended env c st'" by blast
    from l n payload s True Leave_loop flush_done_ended [OF e] show ?thesis by (auto simp: flush_streams_def)
  next
    case False
    with core have "flush_ended env c st"
      by (auto simp: flush_ended_def flush_core_def Let_def n_packets_def batch_packets_def)
    from l n payload False Leave_loop flush_done_ended [OF this] show ?thesis by (auto simp: flush_streams_def)
  qed
qed (use x in \<open>simp add: loop_post_def\<close>)

lemma flush_streams_sound:
  assumes env: "env_ok env" and ng: "writev_ok ng" and c: "conn_ready c" and n: "n_packets c = 0"
    and fl: "flush_streams fuel ng env start ts c os = Some (Inr st)"
  shows "flush_ended env c st"
proof -
  have payload: "ng_max_tx_udp_payload_size ng (cn_ng c) \<noteq> 0"
    using fl by (auto simp: flush_streams_def)
  obtain r where l: "flush_loop fuel ng env (max_stream_packets ng c) ts (flush_start start c os) = Some r"
    using fl n payload by (auto simp: flush_streams_def split: option.splits)
  obtain x where "r = Inr x" "loop_post env c x"
    using flush_loop_sound [OF env ng flush_start_inv [OF env c n] l] by blast
  with flush_finish [OF env _ _ n payload] l fl show ?thesis by fastforce
qed

lemma flush_streams_outcome:
  assumes env: "env_ok env" and ng: "writev_ok ng" and c: "conn_ready c" and n: "n_packets c = 0"
    and payload: "ng_max_tx_udp_payload_size ng (cn_ng c) \<noteq> 0" and pos: "0 < max_stream_packets ng c"
    and fuel: "length (streams c) + max_stream_packets ng c + 1 < fuel"
  shows "\<exists>st. flush_streams fuel ng env start ts c os = Some (Inr st) \<and> flush_ended env c st"
proof -
  let ?st = "flush_start start c os" and ?m = "max_stream_packets ng c"
  have inv: "flush_inv env c ?st" by (rule flush_start_inv [OF env c n])
  have "fl_packets ?st < ?m" "length (fl_strs ?st) + (?m - fl_packets ?st) < fuel"
    using pos fuel length_flush_order [of start c] by (auto simp: flush_start_def)
  from flush_loop_returns [OF env ng inv this, of ts] obtain r where
    l: "flush_loop fuel ng env ?m ts ?st = Some r" by blast
  from flush_loop_sound [OF env ng inv l] obtain x where "r = Inr x" "loop_post env c x" by blast
  with flush_finish [OF env _ _ n payload] l show ?thesis by blast
qed

section \<open>Properties\<close>

text \<open>
  C12: \<^verbatim>\<open>Connection::flush_streams\<close> returns, without failing an assertion or leaving its arrays, for every
  ngtcp2 that keeps the contract of \<^verbatim>\<open>ngtcp2_conn_writev_stream\<close> and every socket that answers: a round
  per stream, one for the non-stream data and one per packet up to the limit are enough.
\<close>

theorem flush_streams_returns:
  assumes "env_ok env" and "writev_ok ng" and "conn_ready c" and "n_packets c = 0"
    and "ng_max_tx_udp_payload_size ng (cn_ng c) \<noteq> 0" and "0 < max_stream_packets ng c"
    and "length (streams c) + max_stream_packets ng c + 1 < fuel"
  shows "\<exists>st. flush_streams fuel ng env start ts c os = Some (Inr st) \<and> conn_ready (fl_conn st)"
  using flush_streams_outcome [OF assms, of start ts os]
  by (auto simp: flush_ended_def Let_def conn_ready_def)

text \<open>
  C4: Every datagram ngtcp2 wrote during a flush is handed to the socket, in the order in which it was
  written, in batches of at least one and at most \<^verbatim>\<open>MAX_BATCH\<close> datagrams, each of at least one byte and
  at most the maximal payload size; what is left in the send buffer afterwards is a tail of the last
  batch, and a retry is registered with the socket exactly when something is left.
\<close>

theorem flush_hands_over_in_order:
  assumes "env_ok env" and "writev_ok ng" and "conn_ready c" and "n_packets c = 0"
    and "ng_max_tx_udp_payload_size ng (cn_ng c) \<noteq> 0" and "0 < max_stream_packets ng c"
    and "length (streams c) + max_stream_packets ng c + 1 < fuel"
  shows "\<exists>st. flush_streams fuel ng env start ts c os = Some (Inr st) \<and>
    concat (fl_handed st) = fl_made st \<and> handed_ok env (fl_handed st) \<and>
    (0 < n_packets (fl_conn st) \<longrightarrow>
       (\<exists>k. batch_packets (batch (fl_conn st)) = drop k (last (fl_handed st)))) \<and>
    write_waits (fl_conn st) = write_waits c + (if 0 < n_packets (fl_conn st) then 1 else 0)"
  using flush_streams_outcome [OF assms, of start ts os]
  by (auto simp: flush_ended_def Let_def)

text \<open>
  C18: A flush changes nothing of a stream but its count of bytes in flight, which only grows and never
  beyond what is queued, and its FIN flag, which is only set; no stream is created, removed or moved
  between the map and the pending queue, and the application is not called.
\<close>

theorem flush_keeps_queues:
  assumes "env_ok env" and "writev_ok ng" and "conn_ready c" and "n_packets c = 0"
    and "ng_max_tx_udp_payload_size ng (cn_ng c) \<noteq> 0" and "0 < max_stream_packets ng c"
    and "length (streams c) + max_stream_packets ng c + 1 < fuel"
  shows "\<exists>st. flush_streams fuel ng env start ts c os = Some (Inr st) \<and>
    list_all2 flushed (heap c) (heap (fl_conn st)) \<and> streams (fl_conn st) = streams c \<and>
    pending_streams (fl_conn st) = pending_streams c \<and> calls (fl_conn st) = calls c"
  using flush_streams_outcome [OF assms, of start ts os]
  by (auto simp: flush_ended_def Let_def flush_frame_def)

text \<open>
  A flush visits every stream of the map that has not sent its FIN exactly once, whichever stream it
  starts from, and the non-stream data last.
\<close>

theorem flush_order_visits_all:
  "mset (butlast (flush_order start c)) =
     mset (map Some (filter (\<lambda>r. \<not> sent_fin (heap c ! r)) (map snd (streams c)))) \<and>
   last (flush_order start c) = None"
proof -
  have rot: "mset (drop m rs @ take m rs) = mset rs" for m and rs :: "nat list"
    by (metis append_take_drop_id mset_append union_commute)
  have "mset (map Some (filter P (drop m rs @ take m rs))) = mset (map Some (filter P rs))" for P m and rs :: "nat list"
    by (simp only: mset_map mset_filter rot)
  then show ?thesis by (simp add: flush_order_def Let_def del: map_append filter_append)
qed

section \<open>An instance\<close>

text \<open>
  A kernel that takes up to \<open>m\<close> packets of each batch under the \<^verbatim>\<open>sendmmsg\<close> sender, and an ngtcp2 that
  writes a given number of one-byte datagrams, each with all data it is offered.
\<close>

definition kernel_env :: "nat \<Rightarrow> unit udp_env" where
  "kernel_env m = \<lparr>ue_socket = True, ue_max_batch = MAX_BATCH Send_MMSG,
     ue_send = (\<lambda>os sizes. map_option (map_sum id (\<lambda>(r, _). (r, ())))
       (udp_send Send_MMSG [if m = 0 then Send_error EAGAIN else Send_lens (take m sizes)] sizes))\<rparr>"

lemma kernel_env_ok: "env_ok (kernel_env m)"
  by (auto simp: env_ok_def kernel_env_def MAX_BATCH_def utils_consts sender_promise_def udp_send_def
      udp_send_mmsg_def dgram_ok_def list_all_iff io_failure_def)

definition sample_ng :: "nat ngtcp2" where
  "sample_ng =
     \<lparr>ng_open_bidi_stream = (\<lambda>g. (Some (4 * int g), g)), ng_streams_bidi_left = (\<lambda>g. 1),
      ng_max_tx_udp_payload_size = (\<lambda>g. 1200), ng_send_quantum = (\<lambda>g. 12000),
      ng_writev_stream = (\<lambda>req g. if g = 0 then (Wrote [] (- 1) 0, 0)
        else (Wrote (take (wr_destlen req) [of_nat g]) (int (length (concat (wr_bufs req)))) 0, g - 1)),
      ng_update_pkt_tx_time = (\<lambda>ts g. g), ng_get_expiry = (\<lambda>g. - 1),
      ng_handle_expiry = (\<lambda>ts g. (NG_OK, g)), ng_is_local_stream = (\<lambda>sid g. True),
      ng_extend_max_streams_bidi = (\<lambda>n g. g), ng_extend_max_stream_offset = (\<lambda>sid n g. g),
      ng_extend_max_offset = (\<lambda>n g. g), ng_shutdown_stream = (\<lambda>sid code g. g),
      ng_in_closing_period = (\<lambda>g. False), ng_get_pto = (\<lambda>g. 1000),
      ng_write_connection_close = (\<lambda>rv msg n ts g. (1, [0], g)),
      ng_strerror = (\<lambda>rv. ''error''),
      ng_read_pkt = (\<lambda>pkt ts g. ([], NG_OK, g))\<rparr>"

lemma sample_ng_ok: "writev_ok sample_ng"
  by (simp add: writev_ok_def sample_ng_def)

definition sample_ctx :: conn_ctx where
  "sample_ctx = \<lparr>ctx_stream_data_cb = Some 1, ctx_stream_open_cb = None, ctx_stream_close_cb = Some 2, ctx_max_streams = 0\<rparr>"

definition sample_conn :: "nat connection" where
  "sample_conn =
     \<lparr>cn_ng = 3, cn_ctx = sample_ctx, cn_dir = OUTBOUND, cn_source_cid = sample_cid 0, cn_dest_cid = sample_cid 1,
      cn_path = \<lparr>path_local = address_default, path_remote = address_default\<rparr>, on_closing = None,
      heap = [set_ready ((stream_new None None 0)\<lparr>user_buffers := [([1, 2, 3], Owned)]\<rparr>)],
      streams = [(0, 0)], pending_streams = [],
      batch = \<lparr>sb_buf = replicate (NGTCP2_MAX_PMTUD_UDP_PAYLOAD_SIZE * DATAGRAM_BATCH_SIZE) 0,
               sb_sizes = replicate DATAGRAM_BATCH_SIZE 0, sb_n = 0\<rparr>,
      send_ecn = 0, draining = False, closing = False, io_trigger = True, retransmit_timer = None,
      write_waits = 0, sent_counter = 0, calls = []\<rparr>"

lemma sample_conn_ok:
  "conn_ready sample_conn" "n_packets sample_conn = 0"
  "ng_max_tx_udp_payload_size sample_ng (cn_ng sample_conn) \<noteq> 0" "max_stream_packets sample_ng sample_conn = 10"
  "length (streams sample_conn) = 1"
  by (simp_all add: conn_ready_def conn_batch_ok_def heap_ok_def sample_conn_def n_packets_def sample_ng_def
      max_stream_packets_def stream_inv_def stream_new_def set_ready_def stream_bytes_def bufs_bytes_def script_total_def)

theorem flush_streams_returns_witness:
  "\<exists>st. flush_streams 13 sample_ng (kernel_env 1) 0 5 sample_conn () = Some (Inr st) \<and> conn_ready (fl_conn st)"
  by (rule flush_streams_returns [OF kernel_env_ok sample_ng_ok sample_conn_ok(1-3)]) (simp_all add: sample_conn_ok)

theorem flush_hands_over_in_order_witness:
  "\<exists>st. flush_streams 13 sample_ng (kernel_env 2) 0 5 sample_conn () = Some (Inr st) \<and>
    concat (fl_handed st) = fl_made st \<and> handed_ok (kernel_env 2) (fl_handed st) \<and>
    (0 < n_packets (fl_conn st) \<longrightarrow>
       (\<exists>k. batch_packets (batch (fl_conn st)) = drop k (last (fl_handed st)))) \<and>
    write_waits (fl_conn st) = write_waits sample_conn + (if 0 < n_packets (fl_conn st) then 1 else 0)"
  by (rule flush_hands_over_in_order [OF kernel_env_ok sample_ng_ok sample_conn_ok(1-3)]) (simp_all add: sample_conn_ok)

theorem flush_keeps_queues_witness:
  "\<exists>st. flush_streams 13 sample_ng (kernel_env 0) 0 5 sample_conn () = Some (Inr st) \<and>
    list_all2 flushed (heap sample_conn) (heap (fl_conn st)) \<and> streams (fl_conn st) = streams sample_conn \<and>
    pending_streams (fl_conn st) = pending_streams sample_conn \<and> calls (fl_conn st) = calls sample_conn"
  by (rule flush_keeps_queues [OF kernel_env_ok sample_ng_ok sample_conn_ok(1-3)]) (simp_all add: sample_conn_ok)

end
