(* ===== verification/Quic_Conn_Life.thy ===== *)
theory Quic_Conn_Life
  imports Quic_Flush
begin

text \<open>
  The connection over its whole life: the streams of the map and the pending queue, the events that
  change them (calls of the application, callbacks of ngtcp2, the io event, the retry of a blocked
  send, the retransmission timer) as a step relation, and what holds in every reachable state.
\<close>

section \<open>The retransmission timer\<close>

definition timeval_us :: "timeval \<Rightarrow> nat" where
  "timeval_us tv = unat (tv_sec tv) * 1000000 + unat (tv_usec tv)"

lemma unat_add_999:
  assumes "unat (d :: u64) + 999 < 2 ^ 64"
  shows "unat (d + 999) = unat d + 999"
proof -
  have "unat (999 :: u64) = 999" by simp
  with assms show ?thesis by (subst unat_add_lem [THEN iffD1]) simp_all
qed

lemma retransmit_timeval_us:
  "timeval_us (retransmit_timeval d) = unat (d + 999) div 1000 \<and> unat (tv_usec (retransmit_timeval d)) < 1000000"
proof -
  let ?n = "unat (d + 999)"
  have u: "unat (1000000000 :: u64) = 1000000000" "unat (1000 :: u64) = 1000" by simp_all
  have sec: "unat (tv_sec (retransmit_timeval d)) = ?n div 1000000000"
    and usec: "unat (tv_usec (retransmit_timeval d)) = ?n mod 1000000000 div 1000"
    by (simp_all add: retransmit_timeval_def Let_def NS_PER_S_def NS_PER_US_def unat_div unat_mod u)
  have q: "?n div 1000000000 = ?n div 1000 div 1000000" by (simp add: div_mult2_eq [symmetric])
  have r: "?n mod 1000000000 div 1000 = ?n div 1000 mod 1000000"
    using mod_mult2_eq [of ?n 1000 1000000] by simp
  have "?n div 1000000000 * 1000000 + ?n mod 1000000000 div 1000 = ?n div 1000"
    unfolding q r by (rule div_mult_mod_eq)
  moreover have "?n mod 1000000000 div 1000 < 1000000" unfolding r by simp
  ultimately show ?thesis by (simp add: timeval_us_def sec usec)
qed

text \<open>An expiry in the future: the time left rounded up to the next microsecond.\<close>

lemma timer_rounds_up:
  assumes "ng_get_expiry ng (cn_ng c) \<noteq> - 1" and "ts < ng_get_expiry ng (cn_ng c)"
    and "unat (ng_get_expiry ng (cn_ng c) - ts) + 999 < 2 ^ 64"
  shows "\<exists>tv. retransmit_timer (schedule_retransmit ng ts c) = Some tv \<and> unat (tv_usec tv) < 1000000 \<and>
    unat (ng_get_expiry ng (cn_ng c) - ts) \<le> timeval_us tv * 1000 \<and>
    timeval_us tv * 1000 < unat (ng_get_expiry ng (cn_ng c) - ts) + 1000"
proof -
  let ?d = "ng_get_expiry ng (cn_ng c) - ts"
  have "0 < ?d" using assms(2) by (simp add: word_gt_0)
  then have "retransmit_timer (schedule_retransmit ng ts c) = Some (retransmit_timeval ?d)"
    using assms(1) by (simp add: schedule_retransmit_def Let_def)
  with retransmit_timeval_us [of ?d] unat_add_999 [OF assms(3)] show ?thesis by auto
qed

text \<open>An expiry in the past: the unsigned difference wraps around.\<close>

lemma timer_past_expiry:
  assumes "ng_get_expiry ng (cn_ng c) < ts"
    and "999 < unat (ts - ng_get_expiry ng (cn_ng c))" and "unat (ts - ng_get_expiry ng (cn_ng c)) \<le> 2 ^ 63"
  shows "\<exists>tv. retransmit_timer (schedule_retransmit ng ts c) = Some tv \<and> 2 ^ 63 div 1000 \<le> timeval_us tv"
proof -
  let ?e = "ng_get_expiry ng (cn_ng c)"
  let ?d = "?e - ts"
  have "?e \<noteq> - 1" using assms(1) by (metis not_less word_order.extremum)
  moreover have "0 < ?d" using assms(1) by (simp add: word_gt_0)
  ultimately have t: "retransmit_timer (schedule_retransmit ng ts c) = Some (retransmit_timeval ?d)"
    by (simp add: schedule_retransmit_def Let_def)
  have d: "unat ?d = 2 ^ 64 - unat (ts - ?e)"
    using assms(1) unat_u64_less [of ts] by (simp add: unat_sub_if' word_less_nat_alt)
  with assms(2,3) have room: "unat ?d + 999 < 2 ^ 64" and ge: "2 ^ 63 \<le> unat ?d" by simp_all
  from ge have "2 ^ 63 div 1000 \<le> (unat ?d + 999) div 1000" by (intro div_le_mono) simp
  with retransmit_timeval_us [of ?d] unat_add_999 [OF room] t show ?thesis by metis
qed

definition timer_ng :: "u64 \<Rightarrow> nat ngtcp2" where
  "timer_ng e = sample_ng\<lparr>ng_get_expiry := (\<lambda>g. e)\<rparr>"

text \<open>
  C31: What \<^verbatim>\<open>schedule_retransmit\<close> does to the timer: without an expiry the timer is removed, and an expiry that is exactly now
  leaves it as it was.  An expiry in the future (of which the rounding does not overflow) arms it with the time
  left rounded up to the next microsecond: never early, and less than one microsecond late.  An expiry that
  has passed by more than 999 nanoseconds (and by at most 2^63) makes the unsigned difference wrap around:
  the timer is armed more than 292 years ahead instead of firing at once.
\<close>

theorem schedule_retransmit_timer:
  "let e = ng_get_expiry ng (cn_ng c); tm = retransmit_timer (schedule_retransmit ng ts c) in
    (e = - 1 \<longrightarrow> tm = None) \<and> (e = ts \<and> ts \<noteq> - 1 \<longrightarrow> tm = retransmit_timer c) \<and>
    (e \<noteq> - 1 \<and> ts < e \<and> unat (e - ts) + 999 < 2 ^ 64 \<longrightarrow>
      (\<exists>tv. tm = Some tv \<and> unat (tv_usec tv) < 1000000 \<and> unat (e - ts) \<le> timeval_us tv * 1000 \<and>
        timeval_us tv * 1000 < unat (e - ts) + 1000)) \<and>
    (e < ts \<and> 999 < unat (ts - e) \<and> unat (ts - e) \<le> 2 ^ 63 \<longrightarrow> (\<exists>tv. tm = Some tv \<and> 2 ^ 63 div 1000 \<le> timeval_us tv))"
  using timer_rounds_up [of ng c ts] timer_past_expiry [of ng c ts]
  by (auto simp: schedule_retransmit_def Let_def)

theorem schedule_retransmit_timer_witness:
  "(\<exists>tv. retransmit_timer (schedule_retransmit (timer_ng 5001) 1000 sample_conn) = Some tv \<and>
     4001 \<le> timeval_us tv * 1000 \<and> timeval_us tv * 1000 < 4001 + 1000) \<and>
   (\<exists>tv. retransmit_timer (schedule_retransmit (timer_ng 1000) 5001 sample_conn) = Some tv \<and> 2 ^ 63 div 1000 \<le> timeval_us tv) \<and>
   retransmit_timer (schedule_retransmit (timer_ng (- 1)) 5001 sample_conn) = None"
proof (intro conjI)
  show "\<exists>tv. retransmit_timer (schedule_retransmit (timer_ng 5001) 1000 sample_conn) = Some tv \<and>
      4001 \<le> timeval_us tv * 1000 \<and> timeval_us tv * 1000 < 4001 + 1000"
    using schedule_retransmit_timer [of "timer_ng 5001" sample_conn 1000] by (auto simp: timer_ng_def Let_def)
  show "\<exists>tv. retransmit_timer (schedule_retransmit (timer_ng 1000) 5001 sample_conn) = Some tv \<and> 2 ^ 63 div 1000 \<le> timeval_us tv"
    using schedule_retransmit_timer [of "timer_ng 1000" sample_conn 5001] by (simp add: timer_ng_def Let_def)
  show "retransmit_timer (schedule_retransmit (timer_ng (- 1)) 5001 sample_conn) = None"
    using schedule_retransmit_timer [of "timer_ng (- 1)" sample_conn 5001] by (simp add: timer_ng_def Let_def)
qed

section \<open>Pending streams\<close>

text \<open>The ids ngtcp2 gives out in at most \<open>n\<close> successive opens, up to the first refusal.\<close>

fun ng_opens :: "'ng ngtcp2 \<Rightarrow> nat \<Rightarrow> 'ng \<Rightarrow> int list \<times> 'ng" where
  "ng_opens ng 0 g = ([], g)"
| "ng_opens ng (Suc n) g =
     (case ng_open_bidi_stream ng g of
        (None, g') \<Rightarrow> ([], g')
      | (Some sid, g') \<Rightarrow> (let (sids, g'') = ng_opens ng n g' in (sid # sids, g'')))"

text \<open>What becoming active means for one stream.\<close>

definition activate :: "int \<times> nat \<Rightarrow> 'ng connection \<Rightarrow> 'ng connection" where
  "activate e c = (put_stream (snd e) (set_ready ((heap c ! snd e)\<lparr>stream_id := fst e\<rparr>)) c)
     \<lparr>streams := omap_put (fst e) (snd e) (streams c)\<rparr>"

lemma activate_ng: "activate e (c\<lparr>cn_ng := g\<rparr>) = (activate e c)\<lparr>cn_ng := g\<rparr>"
  and activate_pending: "activate e (c\<lparr>pending_streams := p\<rparr>) = (activate e c)\<lparr>pending_streams := p\<rparr>"
  by (simp_all add: activate_def put_stream_def)

lemma fold_activate_ng: "fold activate es (c\<lparr>cn_ng := g\<rparr>) = (fold activate es c)\<lparr>cn_ng := g\<rparr>"
  by (induction es arbitrary: c) (simp_all add: activate_ng)

lemma check_pending_loop_eq:
  assumes "ng_opens ng (min (nat (avail - popped)) (length ps)) (cn_ng c) = (sids, g)"
  shows "check_pending_loop ng avail popped ps c =
    (fold activate (zip sids ps) c)\<lparr>cn_ng := g, pending_streams := drop (length sids) ps\<rparr>"
  using assms
proof (induction ng avail popped ps c arbitrary: sids g rule: check_pending_loop.induct)
  case (1 ng avail popped c)
  then show ?case by simp
next
  case (2 ng avail popped r rs c)
  show ?case
  proof (cases "popped < avail")
    case False
    with 2 show ?thesis by simp
  next
    case True
    then have m: "min (nat (avail - popped)) (length (r # rs)) = Suc (min (nat (avail - (popped + 1))) (length rs))"
      by simp
    obtain o' g' where o: "ng_open_bidi_stream ng (cn_ng c) = (o', g')" by fastforce
    show ?thesis
    proof (cases o')
      case None
      with 2 True o m show ?thesis by simp
    next
      case (Some sid)
      obtain sids' g'' where r: "ng_opens ng (min (nat (avail - (popped + 1))) (length rs)) g' = (sids', g'')" by fastforce
      let ?c' = "(put_stream r (set_ready ((heap c ! r)\<lparr>stream_id := sid\<rparr>)) c)
                 \<lparr>cn_ng := g', streams := omap_put sid r (streams c)\<rparr>"
      have c': "?c' = (activate (sid, r) c)\<lparr>cn_ng := g'\<rparr>" by (simp add: activate_def)
      have "check_pending_loop ng avail popped (r # rs) c = check_pending_loop ng avail (popped + 1) rs ?c'"
        using True o Some by simp
      also have "\<dots> = (fold activate (zip sids' rs) ?c')\<lparr>cn_ng := g'', pending_streams := drop (length sids') rs\<rparr>"
        by (rule "2.IH" [OF True o [symmetric] Some [THEN HOL.trans [OF _ refl]]]) (simp add: r)
      finally show ?thesis
        using "2.prems" True o Some m r by (auto simp: c' fold_activate_ng)
    qed
  qed
qed

text \<open>
  C29: \<^verbatim>\<open>check_pending_streams\<close> takes streams from the front of the pending queue, in the order in which
  they were opened, as many as ngtcp2 gives ids for, at most \<open>avail\<close> of them and at most all; each gets
  its id, becomes ready and is entered into the map under its id; the others stay pending in order.
\<close>

theorem check_pending_streams_fifo:
  "check_pending_streams ng avail c =
     (let (sids, g) = ng_opens ng (min (nat avail) (length (pending_streams c))) (cn_ng c)
      in (fold activate (zip sids (pending_streams c)) c)
           \<lparr>cn_ng := g, pending_streams := drop (length sids) (pending_streams c)\<rparr>)"
  using check_pending_loop_eq [of ng avail 0 "pending_streams c" c]
  by (auto simp: check_pending_streams_def split: prod.splits)

text \<open>
  The remaining stream count is narrowed to an \<^verbatim>\<open>int\<close>: whenever its low 32 bits, read as a signed
  number, are not positive, the callback that should activate pending streams leaves them all
  pending, although ngtcp2 has ids to give.
\<close>

theorem extend_max_streams_narrowing:
  assumes "0 < ng_streams_bidi_left ng (cn_ng c)" and "to_int32 (ng_streams_bidi_left ng (cn_ng c)) \<le> 0"
  shows "extend_max_local_streams_bidi ng c = c"
proof (cases "pending_streams c")
  case Nil
  with assms show ?thesis
    by (simp add: extend_max_local_streams_bidi_def check_pending_streams_def)
next
  case (Cons r rs)
  with assms show ?thesis
    by (simp add: extend_max_local_streams_bidi_def check_pending_streams_def)
qed

theorem extend_max_streams_narrowing_witness:
  "extend_max_local_streams_bidi (sample_ng\<lparr>ng_streams_bidi_left := (\<lambda>g. 4294967296)\<rparr>)
     (sample_conn\<lparr>pending_streams := [0]\<rparr>) = sample_conn\<lparr>pending_streams := [0]\<rparr>"
  by (rule extend_max_streams_narrowing) (simp_all add: to_int32_def)

section \<open>The streams of a connection\<close>

text \<open>
  Every stream of the map is ready and stored under its own id, every pending stream is not ready and
  waits once.  So no stream object is in the map twice, nor in the map and the pending queue.
\<close>

definition entry_ok :: "stream list \<Rightarrow> int \<times> nat \<Rightarrow> bool" where
  "entry_ok h e \<longleftrightarrow> snd e < length h \<and> stream_id (h ! snd e) = fst e \<and> ready (h ! snd e)"

definition waiting_ok :: "stream list \<Rightarrow> nat \<Rightarrow> bool" where
  "waiting_ok h r \<longleftrightarrow> r < length h \<and> \<not> ready (h ! r)"

definition conn_wf :: "'ng connection \<Rightarrow> bool" where
  "conn_wf c \<longleftrightarrow> omap_wf (streams c) \<and> distinct (pending_streams c) \<and>
     list_all (entry_ok (heap c)) (streams c) \<and> list_all (waiting_ok (heap c)) (pending_streams c)"

lemma conn_wf_distinct:
  assumes "conn_wf c"
  shows "distinct (map snd (streams c) @ pending_streams c)"
proof -
  have "inj_on snd (set (streams c))"
  proof (rule inj_onI)
    fix e e' assume "e \<in> set (streams c)" "e' \<in> set (streams c)" and snd: "snd e = snd e'"
    with assms have "entry_ok (heap c) e" "entry_ok (heap c) e'" by (simp_all add: conn_wf_def list_all_iff)
    with snd show "e = e'" by (simp add: entry_ok_def prod_eq_iff)
  qed
  moreover have "distinct (streams c)"
    using assms om.wf_distinct [of "streams c"] by (simp add: conn_wf_def distinct_map)
  moreover have "snd e \<notin> set (pending_streams c)" if "e \<in> set (streams c)" for e
    using assms that by (auto simp: conn_wf_def list_all_iff entry_ok_def waiting_ok_def)
  ultimately show ?thesis using assms by (auto simp: distinct_map conn_wf_def)
qed

text \<open>A heap in which the objects of another keep their ids and their readiness.\<close>

definition heap_ext :: "stream list \<Rightarrow> stream list \<Rightarrow> bool" where
  "heap_ext h h' \<longleftrightarrow> length h \<le> length h' \<and>
     (\<forall>r < length h. stream_id (h' ! r) = stream_id (h ! r) \<and> ready (h' ! r) = ready (h ! r))"

lemma heap_ext_refl [simp]: "heap_ext h h"
  by (simp add: heap_ext_def)

lemma heap_ext_trans: "heap_ext a b \<Longrightarrow> heap_ext b c \<Longrightarrow> heap_ext a c"
  by (simp add: heap_ext_def)

lemma heap_ext_snoc [simp]: "heap_ext h (h @ [s])"
  by (simp add: heap_ext_def nth_append)

lemma heap_ext_update:
  "stream_id s = stream_id (h ! r) \<Longrightarrow> ready s = ready (h ! r) \<Longrightarrow> heap_ext h (h[r := s])"
  by (cases "r < length h") (auto simp: heap_ext_def nth_list_update)

lemma heap_ext_entry: "heap_ext h h' \<Longrightarrow> entry_ok h e \<Longrightarrow> entry_ok h' e"
  by (simp add: heap_ext_def entry_ok_def)

lemma heap_ext_waiting: "heap_ext h h' \<Longrightarrow> waiting_ok h r \<Longrightarrow> waiting_ok h' r"
  by (simp add: heap_ext_def waiting_ok_def)

lemma heap_ext_wf:
  assumes "heap_ext (heap c) (heap c')" and "streams c' = streams c" and "pending_streams c' = pending_streams c"
    and "conn_wf c"
  shows "conn_wf c'"
  using assms heap_ext_entry [OF assms(1)] heap_ext_waiting [OF assms(1)]
  by (auto simp: conn_wf_def list_all_iff)

text \<open>
  What is assumed of ngtcp2's stream ids, with \<open>live g\<close> the ids in use or used before in the state \<open>g\<close>:
  an id it gives out is new, and ids are not forgotten.
\<close>

definition ids_ok :: "'ng ngtcp2 \<Rightarrow> ('ng \<Rightarrow> int set) \<Rightarrow> bool" where
  "ids_ok ng live \<longleftrightarrow>
     (\<forall>g sid g'. ng_open_bidi_stream ng g = (Some sid, g') \<longrightarrow> sid \<notin> live g \<and> live g' = insert sid (live g)) \<and>
     (\<forall>g g'. ng_open_bidi_stream ng g = (None, g') \<longrightarrow> live g \<subseteq> live g') \<and>
     (\<forall>req g. live g \<subseteq> live (snd (ng_writev_stream ng req g))) \<and>
     (\<forall>ts g. live g \<subseteq> live (ng_update_pkt_tx_time ng ts g)) \<and>
     (\<forall>ts g. live g \<subseteq> live (snd (ng_handle_expiry ng ts g))) \<and>
     (\<forall>n g. live g \<subseteq> live (ng_extend_max_streams_bidi ng n g)) \<and>
     (\<forall>sid n g. live g \<subseteq> live (ng_extend_max_stream_offset ng sid n g)) \<and>
     (\<forall>n g. live g \<subseteq> live (ng_extend_max_offset ng n g)) \<and>
     (\<forall>sid code g. live g \<subseteq> live (ng_shutdown_stream ng sid code g))"

lemma ids_ok_open:
  assumes "ids_ok ng live"
  shows "ng_open_bidi_stream ng g = (Some sid, g') \<Longrightarrow> sid \<notin> live g \<and> live g' = insert sid (live g)"
    and "ng_open_bidi_stream ng g = (None, g') \<Longrightarrow> live g \<subseteq> live g'"
  using assms by (simp_all add: ids_ok_def)

lemma ids_ok_mono:
  assumes "ids_ok ng live"
  shows "live g \<subseteq> live (snd (ng_writev_stream ng req g))" and "live g \<subseteq> live (ng_update_pkt_tx_time ng ts g)"
    and "live g \<subseteq> live (snd (ng_handle_expiry ng ts g))" and "live g \<subseteq> live (ng_extend_max_streams_bidi ng n g)"
    and "live g \<subseteq> live (ng_extend_max_stream_offset ng sid n g)" and "live g \<subseteq> live (ng_extend_max_offset ng n g)"
    and "live g \<subseteq> live (ng_shutdown_stream ng sid code g)"
  using assms by (simp_all add: ids_ok_def)

definition streams_inv :: "('ng \<Rightarrow> int set) \<Rightarrow> 'ng connection \<Rightarrow> bool" where
  "streams_inv live c \<longleftrightarrow> conn_wf c \<and> fst ` set (streams c) \<subseteq> live (cn_ng c)"

text \<open>
  \<open>keeps\<close>: the invariant and the send batch are kept, streams that exist keep their id and their
  readiness, ids are not forgotten.  \<open>keeps_inv\<close> is the part of it that activating streams keeps too.
\<close>

definition keeps_inv :: "('ng \<Rightarrow> int set) \<Rightarrow> 'ng connection \<Rightarrow> 'ng connection \<Rightarrow> bool" where
  "keeps_inv live c c' \<longleftrightarrow> (streams_inv live c \<longrightarrow> streams_inv live c') \<and> batch c' = batch c \<and>
     write_waits c' = write_waits c"

definition keeps :: "('ng \<Rightarrow> int set) \<Rightarrow> 'ng connection \<Rightarrow> 'ng connection \<Rightarrow> bool" where
  "keeps live c c' \<longleftrightarrow> keeps_inv live c c' \<and> heap_ext (heap c) (heap c') \<and> live (cn_ng c) \<subseteq> live (cn_ng c')"

lemma keeps_refl [simp]: "keeps live c c"
  by (simp add: keeps_def keeps_inv_def)

lemma keeps_inv_trans: "keeps_inv live a b \<Longrightarrow> keeps_inv live b c \<Longrightarrow> keeps_inv live a c"
  by (simp add: keeps_inv_def)

lemma keeps_trans: "keeps live a b \<Longrightarrow> keeps live b c \<Longrightarrow> keeps live a c"
  unfolding keeps_def by (meson heap_ext_trans keeps_inv_trans subset_trans)

lemma keeps_ext:
  assumes "heap_ext (heap c) (heap c')" and "streams c' = streams c" and "pending_streams c' = pending_streams c"
    and "batch c' = batch c" and "write_waits c' = write_waits c" and "live (cn_ng c) \<subseteq> live (cn_ng c')"
  shows "keeps live c c'"
  using assms heap_ext_wf [OF assms(1-3)] by (auto simp: keeps_def keeps_inv_def streams_inv_def)

lemma keeps_put:
  assumes "stream_id s = stream_id (heap c ! r)" and "ready s = ready (heap c ! r)"
  shows "keeps live c (put_stream r s c)"
  using assms by (intro keeps_ext) (simp_all add: put_stream_def heap_ext_update)

lemma keeps_effects: "ids_ok ng live \<Longrightarrow> keeps live c (stream_effects ng es c)"
proof (induction es arbitrary: c)
  case (Cons e es)
  have "keeps live c (stream_effect ng e c)"
    by (cases e) (auto simp: io_ready_def intro!: keeps_ext ids_ok_mono [OF Cons.prems, THEN subsetD])
  with Cons show ?case by (auto simp: stream_effects_def intro: keeps_trans)
qed (simp add: stream_effects_def)

lemma keeps_put_effects:
  assumes "ids_ok ng live" and "stream_id s = stream_id (heap c ! r)" and "ready s = ready (heap c ! r)"
  shows "keeps live c (stream_effects ng es (put_stream r s c))"
  using assms by (blast intro: keeps_trans keeps_put keeps_effects)

text \<open>A new stream object, either waiting or with a new id in the map.\<close>

lemma keeps_new_pending:
  assumes "\<not> ready s" and "live (cn_ng c) \<subseteq> live g"
  shows "keeps live c (c\<lparr>cn_ng := g, heap := heap c @ [s], pending_streams := pending_streams c @ [length (heap c)]\<rparr>)"
proof -
  have "conn_wf (c\<lparr>cn_ng := g, heap := heap c @ [s], pending_streams := pending_streams c @ [length (heap c)]\<rparr>)"
    if wf: "conn_wf c"
  proof -
    from wf have "length (heap c) \<notin> set (pending_streams c)"
      by (auto simp: conn_wf_def list_all_iff waiting_ok_def)
    with wf assms(1) show ?thesis
      using heap_ext_wf [of c "c\<lparr>heap := heap c @ [s]\<rparr>"] by (simp add: conn_wf_def waiting_ok_def)
  qed
  with assms show ?thesis by (auto simp: keeps_def keeps_inv_def streams_inv_def)
qed

lemma keeps_new_mapped:
  assumes "ready s" and "stream_id s = sid" and "sid \<notin> live (cn_ng c)" and "live g = insert sid (live (cn_ng c))"
  shows "keeps live c (c\<lparr>cn_ng := g, heap := heap c @ [s], streams := omap_put sid (length (heap c)) (streams c)\<rparr>)"
proof -
  let ?c = "c\<lparr>cn_ng := g, heap := heap c @ [s], streams := omap_put sid (length (heap c)) (streams c)\<rparr>"
  have "conn_wf ?c \<and> fst ` set (streams ?c) \<subseteq> live (cn_ng ?c)" if inv: "conn_wf c" "fst ` set (streams c) \<subseteq> live (cn_ng c)"
  proof -
    from inv have wf: "omap_wf (streams c)" by (simp add: conn_wf_def)
    have "conn_wf (c\<lparr>heap := heap c @ [s]\<rparr>)" using inv(1) heap_ext_wf [of c "c\<lparr>heap := heap c @ [s]\<rparr>"] by simp
    moreover have "entry_ok (heap c @ [s]) (sid, length (heap c))" using assms by (simp add: entry_ok_def)
    ultimately show ?thesis
      using inv(2) assms(4) om.set_put [OF wf, of sid "length (heap c)"] om.wf_put [OF wf]
      by (auto simp: conn_wf_def list_all_iff)
  qed
  with assms show ?thesis by (auto simp: keeps_def keeps_inv_def streams_inv_def)
qed

lemma keeps_new_stream:
  assumes ids: "ids_ok ng live"
  shows "keeps live c (snd (get_new_stream ng data_cb close_cb c))"
proof -
  obtain o' g where o: "ng_open_bidi_stream ng (cn_ng c) = (o', g)" by fastforce
  show ?thesis
  proof (cases o')
    case None
    with o ids_ok_open(2) [OF ids, of "cn_ng c" g] show ?thesis
      by (simp add: get_new_stream_def Let_def keeps_new_pending set_not_ready_def)
  next
    case (Some sid)
    with o ids_ok_open(1) [OF ids, of "cn_ng c" sid g] show ?thesis
      by (simp add: get_new_stream_def Let_def keeps_new_mapped set_ready_def)
  qed
qed

section \<open>What the operations keep\<close>

lemma append_buffer_flags:
  "stream_id (fst (append_buffer buf k s)) = stream_id s" "ready (fst (append_buffer buf k s)) = ready s"
  by (simp_all add: append_buffer_def)

lemma chunk_make_flags: "stream_id (chunk_make i n s) = stream_id s \<and> ready (chunk_make i n s) = ready s"
  by (induction i n s rule: chunk_make.induct) (simp_all split: prod.splits)

lemma send_chunks_flags:
  "send_chunks script d k s = Inr (s', es) \<Longrightarrow> stream_id s' = stream_id s \<and> ready s' = ready s"
  by (auto simp: send_chunks_def Let_def chunk_make_flags split: if_splits)

lemma stream_close_id: "stream_id (fst (stream_close code s)) = stream_id s" "ready (fst (stream_close code s)) = ready s"
  by (simp_all add: stream_close_def Let_def)

lemma keeps_action:
  assumes ids: "ids_ok ng live" and act: "do_action ng a c = Inr c'"
  shows "keeps live c c'"
proof (cases a)
  case (Act_send r buf k)
  with act show ?thesis
    using append_buffer_flags [of buf k "heap c ! r"]
    by (auto split: if_splits prod.splits intro!: keeps_put_effects [OF ids])
next
  case (Act_send_chunks r script d k)
  with act show ?thesis
    by (auto elim!: and_then_InrE split: if_splits dest: send_chunks_flags intro!: keeps_put_effects [OF ids])
next
  case (Act_close r code)
  with act show ?thesis
    using stream_close_id [of code "heap c ! r"]
    by (auto split: if_splits prod.splits intro!: keeps_put_effects [OF ids])
next
  case (Act_set_data_callback r cb)
  with act show ?thesis by (auto split: if_splits intro!: keeps_put)
next
  case (Act_open_stream data_cb close_cb)
  with act keeps_new_stream [OF ids, of c data_cb close_cb] show ?thesis by simp
qed

lemma keeps_actions: "ids_ok ng live \<Longrightarrow> do_actions ng as c = Inr c' \<Longrightarrow> keeps live c c'"
  by (induction as arbitrary: c) (auto elim!: and_then_InrE intro: keeps_trans keeps_action)

lemma keeps_calls: "keeps live c (c\<lparr>calls := x\<rparr>)"
  by (rule keeps_ext) simp_all

lemma keeps_imp_inv: "keeps live c c' \<Longrightarrow> keeps_inv live c c'"
  by (simp add: keeps_def)

text \<open>Erasing a stream from the map, entering one, activating one.\<close>

lemma keeps_inv_erase: "keeps_inv live c (c\<lparr>streams := assoc_erase sid (streams c)\<rparr>)"
  using om.wf_erase [of "streams c" sid]
  by (auto simp: keeps_inv_def streams_inv_def conn_wf_def list_all_iff assoc_erase_def)

lemma streams_inv_put:
  assumes inv: "streams_inv live c" and e: "entry_ok (heap c) (sid, r)" and live: "sid \<in> live (cn_ng c)"
  shows "streams_inv live (c\<lparr>streams := omap_put sid r (streams c)\<rparr>)"
proof -
  from inv have wf: "omap_wf (streams c)" by (simp add: streams_inv_def conn_wf_def)
  with inv e live show ?thesis
    using om.set_put [OF wf, of sid r] om.wf_put [OF wf]
    by (auto simp: streams_inv_def conn_wf_def list_all_iff)
qed

lemma streams_inv_activate:
  assumes inv: "streams_inv live c" and p: "pending_streams c = r # rs" and live: "sid \<notin> live (cn_ng c)"
    and g: "live g = insert sid (live (cn_ng c))"
  shows "streams_inv live ((activate (sid, r) c)\<lparr>cn_ng := g, pending_streams := rs\<rparr>)"
proof -
  let ?h = "(heap c)[r := set_ready ((heap c ! r)\<lparr>stream_id := sid\<rparr>)]"
  from inv p have r: "waiting_ok (heap c) r" and rs: "r \<notin> set rs" "distinct rs" and wf: "omap_wf (streams c)"
    by (auto simp: streams_inv_def conn_wf_def)
  have old: "entry_ok ?h e" if "e \<in> set (streams c)" for e
    using inv that r by (auto simp: streams_inv_def conn_wf_def list_all_iff entry_ok_def waiting_ok_def nth_list_update)
  have new: "entry_ok ?h (sid, r)" using r by (simp add: entry_ok_def waiting_ok_def set_ready_def)
  have wait: "waiting_ok ?h x" if "x \<in> set rs" for x
    using inv p that rs by (auto simp: streams_inv_def conn_wf_def list_all_iff waiting_ok_def nth_list_update)
  have "conn_wf ((activate (sid, r) c)\<lparr>cn_ng := g, pending_streams := rs\<rparr>)"
    using old new wait rs om.wf_put [OF wf] om.set_put [OF wf, of sid r]
    by (auto simp: conn_wf_def activate_def put_stream_def list_all_iff)
  moreover have "fst ` set (omap_put sid r (streams c)) \<subseteq> live g"
    using inv g om.keys_put [OF wf, of sid r] by (auto simp: streams_inv_def)
  ultimately show ?thesis by (simp add: streams_inv_def activate_def)
qed

lemma streams_inv_pending_loop:
  assumes ids: "ids_ok ng live"
  shows "streams_inv live (c\<lparr>pending_streams := ps\<rparr>) \<Longrightarrow> streams_inv live (check_pending_loop ng avail popped ps c)"
proof (induction ps arbitrary: popped c)
  case (Cons r rs)
  obtain o' g where o: "ng_open_bidi_stream ng (cn_ng c) = (o', g)" by fastforce
  show ?case
  proof (cases o')
    case None
    with ids_ok_open(2) [OF ids] o have "live (cn_ng c) \<subseteq> live g" by blast
    with Cons.prems o None show ?thesis by (auto simp: streams_inv_def conn_wf_def)
  next
    case (Some sid)
    let ?c = "(activate (sid, r) c)\<lparr>cn_ng := g\<rparr>"
    from ids_ok_open(1) [OF ids] o Some have "sid \<notin> live (cn_ng c)" "live g = insert sid (live (cn_ng c))" by blast+
    then have "streams_inv live ((activate (sid, r) (c\<lparr>pending_streams := r # rs\<rparr>))\<lparr>cn_ng := g, pending_streams := rs\<rparr>)"
      by (intro streams_inv_activate [OF Cons.prems]) simp_all
    then have "streams_inv live (?c\<lparr>pending_streams := rs\<rparr>)" by (simp add: activate_pending)
    moreover have "(put_stream r (set_ready ((heap c ! r)\<lparr>stream_id := sid\<rparr>)) c)
        \<lparr>cn_ng := g, streams := omap_put sid r (streams c)\<rparr> = ?c" by (simp add: activate_def)
    ultimately show ?thesis using Cons.IH [of ?c "popped + 1"] Cons.prems o Some by simp
  qed
qed simp

lemma pending_loop_frame:
  "batch (check_pending_loop ng avail popped ps c) = batch c \<and>
   write_waits (check_pending_loop ng avail popped ps c) = write_waits c"
  by (induction ng avail popped ps c rule: check_pending_loop.induct)
    (auto simp: put_stream_def split: prod.splits option.splits)

lemma keeps_pending:
  assumes "ids_ok ng live"
  shows "keeps_inv live c (check_pending_streams ng avail c)"
  using streams_inv_pending_loop [OF assms, where c = c and ps = "pending_streams c"]
  by (simp add: keeps_inv_def check_pending_streams_def pending_loop_frame)

subsection \<open>The callbacks\<close>

lemma keeps_call_close:
  "ids_ok ng live \<Longrightarrow> call_close_callback ng ap cb sid code c = Inr c' \<Longrightarrow> keeps live c c'"
  by (auto simp: call_close_callback_def Let_def split: close_cb.splits
      intro: keeps_trans [OF keeps_calls] dest!: keeps_actions)

lemma keeps_erase_stream:
  assumes "ids_ok ng live"
  shows "keeps_inv live c (erase_stream ng sid c)"
proof -
  have "keeps live (c\<lparr>streams := assoc_erase sid (streams c)\<rparr>) (erase_stream ng sid c)"
    by (intro keeps_ext) (auto simp: erase_stream_def io_ready_def intro: ids_ok_mono(4) [OF assms, THEN subsetD])
  with keeps_inv_erase show ?thesis by (blast intro: keeps_inv_trans keeps_imp_inv)
qed

lemma stream_mark_closed_id:
  "stream_mark_closed code s = (s', new) \<Longrightarrow> stream_id s' = stream_id s \<and> ready s' = ready s"
  by (auto simp: stream_mark_closed_def)

lemma keeps_stream_closed:
  assumes ids: "ids_ok ng live" and r: "stream_closed ng ap sid code c = Inr c'"
  shows "keeps_inv live c c'"
proof (cases "map_of (streams c) sid")
  case None
  with r show ?thesis by (auto simp: stream_closed_def keeps_inv_def split: if_splits)
next
  case (Some i)
  obtain s new where m: "stream_mark_closed code (heap c ! i) = (s, new)" by fastforce
  from r Some m obtain c1 where
    c1: "c1 = put_stream i s c \<or> (\<exists>cb. call_close_callback ng ap cb (stream_id s) code (put_stream i s c) = Inr c1)"
    and c': "c' = erase_stream ng sid c1"
    by (auto simp: stream_closed_def split: if_splits list.splits close_call.splits elim!: and_then_InrE)
  have "keeps live (put_stream i s c) c1"
    using c1 keeps_call_close [OF ids] by auto
  moreover have "keeps live c (put_stream i s c)" using stream_mark_closed_id [OF m] by (intro keeps_put) simp_all
  ultimately have "keeps live c c1" by (blast intro: keeps_trans)
  with keeps_erase_stream [OF ids] c' show ?thesis by (blast intro: keeps_inv_trans keeps_imp_inv)
qed

lemma keeps_stream_ack:
  assumes "ids_ok ng live" and "stream_ack ng sid n c = Inr (rv, c')"
  shows "keeps live c c'"
proof (cases "map_of (streams c) sid")
  case None
  with assms(2) show ?thesis by (simp add: stream_ack_def)
next
  case (Some i)
  with assms(2) obtain s stale where "acknowledge n (heap c ! i) = Inr (s, stale)"
    and "c' = stream_effects ng (chunk_wakeups (heap c ! i) s) (put_stream i s c)"
    by (auto simp: stream_ack_def elim!: and_then_InrE)
  with acknowledge_frame [of n "heap c ! i" s stale] show ?thesis by (auto intro!: keeps_put_effects [OF assms(1)])
qed

lemma keeps_call_data:
  "ids_ok ng live \<Longrightarrow> call_data_callback ng ap r sid data c = Inr (good, c') \<Longrightarrow> keeps live c c'"
  by (auto simp: call_data_callback_def Let_def split: option.splits prod.splits elim!: and_then_InrE
      intro: keeps_trans [OF keeps_calls] dest!: keeps_actions)

lemma keeps_receive_done:
  assumes ids: "ids_ok ng live"
  shows "keeps live c (snd (receive_done ng r sid data fin good c))"
proof -
  have "live (cn_ng c) \<subseteq> live (ng_extend_max_offset ng n (ng_extend_max_stream_offset ng sid n (cn_ng c)))" for n
    using ids_ok_mono(5,6) [OF ids] by blast
  from this [of "of_nat (length data)"] show ?thesis
    using stream_close_id [of STREAM_ERROR_EXCEPTION "heap c ! r"]
    by (auto simp: receive_done_def Let_def split: prod.splits intro!: keeps_put_effects [OF ids] keeps_ext)
qed

lemma keeps_stream_receive:
  assumes ids: "ids_ok ng live" and r: "stream_receive ng ap sid data fin c = Inr (rv, c')"
  shows "keeps live c c'"
proof -
  from r obtain i good c2 where "call_data_callback ng ap i sid data c = Inr (good, c2)"
    and "c' = snd (receive_done ng i sid data fin good c2)"
    by (fastforce simp: stream_receive_def elim!: and_then_InrE)
  with keeps_call_data [OF ids] keeps_receive_done [OF ids] show ?thesis by (blast intro: keeps_trans)
qed

lemma keeps_call_open:
  "ids_ok ng live \<Longrightarrow> call_open_callback ng ap sid c = Inr (code, c') \<Longrightarrow> keeps live c c'"
  by (auto simp: call_open_callback_def Let_def split: option.splits prod.splits elim!: and_then_InrE
      intro: keeps_trans [OF keeps_calls] dest!: keeps_actions)

lemma keeps_enter:
  assumes ids: "ids_ok ng live" and r: "enter_stream ng r sid code c = Inr (rv, c')"
    and e: "entry_ok (heap c) (sid, r)" and live: "sid \<in> live (cn_ng c)"
  shows "keeps_inv live c c'"
proof (cases "code = 0")
  case False
  then have "keeps live c c'"
    using r stream_close_id [of code "heap c ! r"]
    by (auto simp: enter_stream_def split: prod.splits intro!: keeps_put_effects [OF ids])
  then show ?thesis by (rule keeps_imp_inv)
next
  case True
  with r have "c' = c\<lparr>streams := omap_put sid r (streams c)\<rparr>"
    by (auto simp: enter_stream_def omap_emplace_def split: option.splits)
  with streams_inv_put [of live c sid r] e live show ?thesis by (simp add: keeps_inv_def)
qed

lemma keeps_stream_opened:
  assumes ids: "ids_ok ng live" and r: "stream_opened ng ap sid c = Inr (rv, c')" and live: "sid \<in> live (cn_ng c)"
  shows "keeps_inv live c c'"
proof -
  let ?s = "set_ready (stream_new (ctx_stream_data_cb (cn_ctx c)) (ctx_stream_close_cb (cn_ctx c)) sid)"
  let ?c0 = "c\<lparr>heap := heap c @ [?s]\<rparr>"
  from r obtain code c1 where c1: "call_open_callback ng ap sid ?c0 = Inr (code, c1)"
    and c': "enter_stream ng (length (heap c)) sid code c1 = Inr (rv, c')"
    by (auto simp: stream_opened_def elim!: and_then_InrE)
  have "keeps live c ?c0" by (intro keeps_ext) simp_all
  from keeps_trans [OF this keeps_call_open [OF ids c1]] have 1: "keeps live c c1" .
  have "entry_ok (heap ?c0) (sid, length (heap c))" by (simp add: entry_ok_def set_ready_def stream_new_def)
  with keeps_call_open [OF ids c1] have "entry_ok (heap c1) (sid, length (heap c))"
    by (auto simp: keeps_def intro: heap_ext_entry)
  moreover from 1 live have "sid \<in> live (cn_ng c1)" by (auto simp: keeps_def)
  ultimately have "keeps_inv live c1 c'" by (rule keeps_enter [OF ids c'])
  with 1 show ?thesis by (blast intro: keeps_inv_trans keeps_imp_inv)
qed

text \<open>ngtcp2 reports only streams it knows.\<close>

definition event_ok :: "('ng \<Rightarrow> int set) \<Rightarrow> ng_event \<Rightarrow> 'ng connection \<Rightarrow> bool" where
  "event_ok live e c \<longleftrightarrow> (case e of Stream_open sid \<Rightarrow> sid \<in> live (cn_ng c) | _ \<Rightarrow> True)"

lemma keeps_callback:
  assumes ids: "ids_ok ng live" and e: "event_ok live e c" and r: "ng_callback ng ap e c = Inr (rv, c')"
  shows "keeps_inv live c c'"
proof (cases e)
  case (Extend_max_local_streams_bidi n)
  with r keeps_pending [OF ids] show ?thesis
    by (auto simp: extend_max_local_streams_bidi_def Let_def keeps_inv_def)
qed (use r e keeps_stream_receive [OF ids] keeps_stream_ack [OF ids] keeps_stream_opened [OF ids] keeps_stream_closed [OF ids]
      in \<open>auto simp: event_ok_def intro: keeps_imp_inv elim!: and_then_InrE\<close>)

section \<open>The life of a connection\<close>

text \<open>
  One step of a connection together with the state of its socket: the application calls into the
  library, ngtcp2 makes a callback or changes its own state, the io event fires, the socket becomes
  writeable while a retry is registered, or the retransmission timer fires.  The sizes of the stream
  queues are assumed to fit in memory when the streams are flushed (\<open>heap_ok\<close>).
\<close>

inductive conn_step ::
  "'ng ngtcp2 \<Rightarrow> app \<Rightarrow> 'os udp_env \<Rightarrow> ('ng \<Rightarrow> int set) \<Rightarrow> 'ng connection \<times> 'os \<Rightarrow> 'ng connection \<times> 'os \<Rightarrow> bool"
  for ng ap env live where
  app_step: "do_action ng a c = Inr c' \<Longrightarrow> conn_step ng ap env live (c, os) (c', os)"
| callback_step: "event_ok live e c \<Longrightarrow> ng_callback ng ap e c = Inr (rv, c') \<Longrightarrow> conn_step ng ap env live (c, os) (c', os)"
| ngtcp2_step: "live (cn_ng c) \<subseteq> live g \<Longrightarrow> conn_step ng ap env live (c, os) (c\<lparr>cn_ng := g\<rparr>, os)"
| io_step: "heap_ok c \<Longrightarrow> io_event fuel ng env start ts c os = Some (Inr (c', os')) \<Longrightarrow>
    conn_step ng ap env live (c, os) (c', os')"
| writeable_step: "heap_ok c \<Longrightarrow> 0 < write_waits c \<Longrightarrow>
    writeable_event fuel ng env start ts c os = Some (Inr (c', os')) \<Longrightarrow> conn_step ng ap env live (c, os) (c', os')"
| timer_step: "heap_ok c \<Longrightarrow> retransmit_event fuel ng env start ts c os = Some (Inr (rv, c', os')) \<Longrightarrow>
    conn_step ng ap env live (c, os) (c', os')"

text \<open>The batch fits the arrays, and packets wait in it exactly when one retry is registered.\<close>

definition send_inv :: "'os udp_env \<Rightarrow> 'ng connection \<Rightarrow> bool" where
  "send_inv env c \<longleftrightarrow> conn_batch_ok (batch c) \<and> n_packets c \<le> ue_max_batch env \<and>
     write_waits c = (if 0 < n_packets c then 1 else 0)"

definition conn_inv :: "'os udp_env \<Rightarrow> ('ng \<Rightarrow> int set) \<Rightarrow> 'ng connection \<Rightarrow> bool" where
  "conn_inv env live c \<longleftrightarrow> streams_inv live c \<and> send_inv env c"

lemma keeps_conn_inv: "keeps_inv live c c' \<Longrightarrow> conn_inv env live c \<Longrightarrow> conn_inv env live c'"
  by (simp add: conn_inv_def keeps_inv_def send_inv_def n_packets_def)

subsection \<open>Flushing and the ids of ngtcp2\<close>

fun flush_state :: "('ng, 'os) flush_next \<Rightarrow> ('ng, 'os) flush" where
  "flush_state (Next st) = st"
| "flush_state (Leave_loop st) = st"
| "flush_state (Return st) = st"

definition live_of :: "('ng \<Rightarrow> int set) \<Rightarrow> ('ng, 'os) flush \<Rightarrow> int set" where
  "live_of live st = live (cn_ng (fl_conn st))"

lemma conn_send_ng: "conn_send env c os = Some (Inr (ok, cancel, c', os')) \<Longrightarrow> cn_ng c' = cn_ng c"
  by (auto simp: conn_send_def Let_def split: if_splits option.splits sum.splits)

lemma flush_send_ng: "flush_send env st = Some (Inr (ok, st')) \<Longrightarrow> live_of live st' = live_of live st"
  by (auto simp: flush_send_def live_of_def split: option.splits sum.splits dest: conn_send_ng)

lemma flush_requeue_ng: "flush_requeue k stream st = Inr x \<Longrightarrow> live_of live (flush_state x) = live_of live st"
  by (auto simp: flush_requeue_def live_of_def split: if_splits option.splits)

lemma flush_packet_ng:
  "flush_packet env k stream pkt ecn st = Some (Inr x) \<Longrightarrow> live_of live (flush_state x) = live_of live st"
  by (auto simp: flush_packet_def Let_def live_of_def split: if_splits option.splits sum.splits
      dest!: flush_requeue_ng [where live = live] flush_send_ng [where live = live])

lemma stream_wrote_ng [simp]: "cn_ng (stream_wrote stream n c) = cn_ng c"
  by (simp add: stream_wrote_def put_stream_def split: option.splits)

lemma flush_write_ng:
  assumes ids: "ids_ok ng live" and r: "flush_write ng env k ts stream fin bufs st = Some (Inr x)"
  shows "live_of live st \<subseteq> live_of live (flush_state x)"
proof -
  let ?sid = "case stream of None \<Rightarrow> - 1 | Some r \<Rightarrow> stream_id (heap (fl_conn st) ! r)"
  define req where "req = \<lparr>wr_stream_id = ?sid, wr_fin = fin, wr_bufs = bufs,
    wr_destlen = NGTCP2_MAX_PMTUD_UDP_PAYLOAD_SIZE, wr_ts = ts\<rparr>"
  obtain res g where w: "ng_writev_stream ng req (cn_ng (fl_conn st)) = (res, g)" by fastforce
  from ids_ok_mono(1) [OF ids, of "cn_ng (fl_conn st)" req] w have live: "live_of live st \<subseteq> live g"
    by (simp add: live_of_def)
  have "live_of live (flush_state x) = live g"
    using r w
    by (auto simp: flush_write_def Let_def req_def live_of_def split: if_splits write_res.splits
        dest!: flush_packet_ng [where live = live])
  with live show ?thesis by simp
qed

lemma flush_step_ng:
  assumes ids: "ids_ok ng live" and r: "flush_step ng env k ts st = Some (Inr x)"
  shows "live_of live st \<subseteq> live_of live (flush_state x)"
proof -
  let ?st1 = "st\<lparr>fl_strs := tl (fl_strs st)\<rparr>"
  have same: "live_of live ?st1 = live_of live st"
    "live_of live (?st1\<lparr>fl_conn := put_stream i s (fl_conn st)\<rparr>) = live_of live st" for i s
    by (simp_all add: live_of_def put_stream_def)
  show ?thesis
  proof (cases "hd (fl_strs st)")
    case None
    with r have "flush_write ng env k ts None False [] ?st1 = Some (Inr x)"
      by (simp add: flush_step_def split: if_splits)
    from flush_write_ng [OF ids this] same show ?thesis by simp
  next
    case (Some i)
    with r obtain bufs where p: "pending (heap (fl_conn st) ! i) = Inr bufs"
      by (cases "pending (heap (fl_conn st) ! i)") (simp_all add: flush_step_def)
    let ?s = "heap (fl_conn st) ! i"
    let ?st2 = "?st1\<lparr>fl_conn := put_stream i (?s\<lparr>sent_fin := True\<rparr>) (fl_conn st)\<rparr>"
    from r Some p have "flush_write ng env k ts (Some i) True bufs ?st2 = Some (Inr x) \<or> x = Next ?st1 \<or>
        flush_write ng env k ts (Some i) False bufs ?st1 = Some (Inr x)"
      by (simp add: flush_step_def Let_def split: if_splits)
    then show ?thesis
      using flush_write_ng [OF ids, of env k ts "Some i" _ bufs ?st2 x]
        flush_write_ng [OF ids, of env k ts "Some i" _ bufs ?st1 x] same by auto
  qed
qed

lemma flush_loop_ng:
  assumes ids: "ids_ok ng live"
  shows "flush_loop fuel ng env k ts st = Some (Inr x) \<Longrightarrow> live_of live st \<subseteq> live_of live (flush_state x)"
proof (induction fuel arbitrary: st)
  case (Suc fuel)
  show ?case
  proof (cases "fl_strs st = []")
    case False
    with Suc.prems obtain y where y: "flush_step ng env k ts st = Some (Inr y)"
      by (auto split: option.splits sum.splits)
    with flush_step_ng [OF ids y] Suc False show ?thesis by (cases y) fastforce+
  qed (use Suc.prems in auto)
qed simp

lemma flush_done_ng: "ids_ok ng live \<Longrightarrow> live_of live st \<subseteq> live_of live (flush_done ng ts st)"
  using ids_ok_mono(2) [of ng live] by (auto simp: flush_done_def live_of_def)

lemma flush_streams_ng:
  assumes ids: "ids_ok ng live" and r: "flush_streams fuel ng env start ts c os = Some (Inr st)"
  shows "live (cn_ng c) \<subseteq> live (cn_ng (fl_conn st))"
proof (cases "0 < n_packets c")
  case True
  with r show ?thesis by (auto simp: flush_streams_def flush_start_def split: if_splits)
next
  case False
  with r obtain x where x: "flush_loop fuel ng env (max_stream_packets ng c) ts (flush_start start c os) = Some (Inr x)"
    by (auto simp: flush_streams_def split: if_splits option.splits sum.splits)
  have "live_of live (flush_start start c os) \<subseteq> live_of live (flush_state x)" by (rule flush_loop_ng [OF ids x])
  also have "\<dots> \<subseteq> live_of live st"
    using r False x flush_done_ng [OF ids]
    by (cases x) (auto simp: flush_streams_def split: if_splits option.splits sum.splits dest!: flush_send_ng [where live = live])
  finally show ?thesis by (simp add: live_of_def flush_start_def)
qed

subsection \<open>What the events keep\<close>

lemma flushed_heap_ext: "list_all2 flushed h h' \<Longrightarrow> heap_ext h h'"
  unfolding heap_ext_def list_all2_conv_all_nth
proof (elim conjE, intro conjI allI impI)
  fix r assume "\<forall>i < length h. flushed (h ! i) (h' ! i)" "r < length h"
  then have "h' ! r = (h ! r)\<lparr>unacked_size := unacked_size (h' ! r), sent_fin := sent_fin (h' ! r)\<rparr>"
    by (simp add: flushed_def)
  then show "stream_id (h' ! r) = stream_id (h ! r)" and "ready (h' ! r) = ready (h ! r)"
    by (metis stream.select_convs(1) stream.surjective stream.update_convs(5) stream.update_convs(8),
        metis stream.select_convs(9) stream.surjective stream.update_convs(5) stream.update_convs(8))
qed simp

lemma flush_frame_streams_inv:
  assumes "flush_frame c c'" and "live (cn_ng c) \<subseteq> live (cn_ng c')" and "streams_inv live c"
  shows "streams_inv live c'"
  using assms heap_ext_wf [OF flushed_heap_ext, of c c'] by (auto simp: flush_frame_def streams_inv_def)

lemma ended_send_inv:
  assumes "flush_ended env c st" and "write_waits c = 0"
  shows "send_inv env (fl_conn st)"
proof (cases "0 < n_packets (fl_conn st)")
  case True
  with assms obtain k where b: "conn_batch_ok (batch (fl_conn st))" and h: "handed_ok env (fl_handed st)" "fl_handed st \<noteq> []"
    and k: "batch_packets (batch (fl_conn st)) = drop k (last (fl_handed st))"
    by (auto simp: flush_ended_def Let_def)
  have "n_packets (fl_conn st) = length (drop k (last (fl_handed st)))"
    using length_batch_packets [OF b] k by (simp add: n_packets_def)
  also have "\<dots> \<le> ue_max_batch env" using h by (auto simp: handed_ok_def list_all_iff dest!: bspec [OF _ last_in_set])
  finally show ?thesis using assms by (simp add: flush_ended_def send_inv_def Let_def)
next
  case False
  with assms show ?thesis by (simp add: flush_ended_def send_inv_def Let_def)
qed

lemma on_io_ready_inv:
  assumes env: "env_ok env" and ng: "writev_ok ng" and ids: "ids_ok ng live" and h: "heap_ok c"
    and inv: "conn_inv env live c" and r: "on_io_ready fuel ng env start ts c os = Some (Inr (c', os'))"
  shows "conn_inv env live c'"
proof -
  from r obtain st where st: "flush_streams fuel ng env start ts c os = Some (Inr st)"
    and c': "c' = schedule_retransmit ng ts (fl_conn st)"
    by (auto simp: on_io_ready_def split: option.splits sum.splits)
  have "conn_inv env live (fl_conn st)"
  proof (cases "0 < n_packets c")
    case True
    with st inv show ?thesis by (auto simp: flush_streams_def flush_start_def split: if_splits)
  next
    case False
    with h inv have "conn_ready c" "n_packets c = 0" by (simp_all add: conn_ready_def conn_inv_def send_inv_def)
    from flush_streams_sound [OF env ng this st] have e: "flush_ended env c st" .
    from inv False have "write_waits c = 0" by (simp add: conn_inv_def send_inv_def)
    with e flush_frame_streams_inv [OF _ flush_streams_ng [OF ids st]] inv ended_send_inv [OF e]
    show ?thesis by (auto simp: conn_inv_def flush_ended_def Let_def)
  qed
  moreover have "keeps live (fl_conn st) c'"
    unfolding c' schedule_retransmit_def Let_def by (auto intro!: keeps_ext)
  ultimately show ?thesis by (blast intro: keeps_conn_inv keeps_imp_inv)
qed

text \<open>The retry of a blocked batch, before what is left is flushed.\<close>

lemma writeable_send:
  assumes env: "env_ok env" and inv: "conn_inv env live c" and w: "0 < write_waits c"
  shows "\<exists>ok cancel c1 os1. conn_send env (c\<lparr>write_waits := write_waits c - 1\<rparr>) os = Some (Inr (ok, cancel, c1, os1)) \<and>
    conn_inv env live c1 \<and> heap c1 = heap c \<and> streams c1 = streams c \<and> calls c1 = calls c"
proof -
  let ?c = "c\<lparr>write_waits := write_waits c - 1\<rparr>"
  have n: "0 < n_packets ?c" "n_packets ?c \<le> ue_max_batch env" "write_waits ?c = 0" and b: "conn_batch_ok (batch ?c)"
    using inv w by (auto simp: conn_inv_def send_inv_def n_packets_def split: if_splits)
  obtain ok cancel c1 os1 where s: "conn_send env ?c os = Some (Inr (ok, cancel, c1, os1))"
    and fr: "send_frame ?c c1" and st: "send_settled ?c c1"
    using conn_send_settled [OF env b n(1,2), of os] by blast
  from st obtain k where k: "batch_packets (batch c1) = drop k (batch_packets (batch ?c))" and b1: "conn_batch_ok (batch c1)"
    and w1: "write_waits c1 = (if 0 < n_packets c1 then 1 else 0)"
    using n(3) by (auto simp: send_settled_def)
  have "n_packets c1 \<le> n_packets ?c"
    using k length_batch_packets [OF b1] length_batch_packets [OF b] by (simp add: n_packets_def)
  with n(2) b1 w1 have "send_inv env c1" by (simp add: send_inv_def)
  moreover have "streams_inv live c1"
    using inv flush_frame_streams_inv [OF flush_frame_send [OF fr], of live] conn_send_ng [OF s]
    by (simp add: conn_inv_def streams_inv_def conn_wf_def)
  ultimately show ?thesis
    using s send_frame_heap [OF fr] send_frame_streams [OF fr] send_frame_calls [OF fr] by (simp add: conn_inv_def)
qed

lemma writeable_inv:
  assumes env: "env_ok env" and ng: "writev_ok ng" and ids: "ids_ok ng live" and h: "heap_ok c"
    and inv: "conn_inv env live c" and w: "0 < write_waits c"
    and r: "writeable_event fuel ng env start ts c os = Some (Inr (c', os'))"
  shows "conn_inv env live c'"
proof -
  from writeable_send [OF env inv w, of os] obtain ok cancel c1 os1 where
    s: "conn_send env (c\<lparr>write_waits := write_waits c - 1\<rparr>) os = Some (Inr (ok, cancel, c1, os1))"
    and inv1: "conn_inv env live c1" and "heap c1 = heap c" "streams c1 = streams c" by blast
  then have "heap_ok c1" using h by (simp add: heap_ok_def)
  from on_io_ready_inv [OF env ng ids this inv1] r s inv1 show ?thesis
    by (auto simp: writeable_event_def split: if_splits)
qed

lemma conn_step_inv:
  assumes env: "env_ok env" and ng: "writev_ok ng" and ids: "ids_ok ng live"
    and step: "conn_step ng ap env live x y" and inv: "conn_inv env live (fst x)"
  shows "conn_inv env live (fst y)"
  using step inv
proof (cases rule: conn_step.cases)
  case (app_step a c c' os)
  with inv keeps_conn_inv [OF keeps_imp_inv [OF keeps_action [OF ids app_step(3)]]] show ?thesis by simp
next
  case (callback_step e c rv c' os)
  with inv keeps_conn_inv [OF keeps_callback [OF ids callback_step(3,4)]] show ?thesis by simp
next
  case (ngtcp2_step c g os)
  then have "keeps live c (c\<lparr>cn_ng := g\<rparr>)" by (intro keeps_ext) simp_all
  with inv ngtcp2_step show ?thesis by (auto intro: keeps_conn_inv keeps_imp_inv)
next
  case (io_step c fuel start ts os c' os')
  have "keeps live c (c\<lparr>io_trigger := False\<rparr>)" by (intro keeps_ext) simp_all
  with inv io_step have "conn_inv env live (c\<lparr>io_trigger := False\<rparr>)" by (auto intro: keeps_conn_inv keeps_imp_inv)
  with io_step on_io_ready_inv [OF env ng ids, of "c\<lparr>io_trigger := False\<rparr>"] show ?thesis
    by (simp add: io_event_def heap_ok_def)
next
  case (writeable_step c fuel start ts os c' os')
  with writeable_inv [OF env ng ids] inv show ?thesis by auto
next
  case (timer_step c fuel start ts os rv c' os')
  let ?c = "c\<lparr>cn_ng := snd (ng_handle_expiry ng ts (cn_ng c)), retransmit_timer := None\<rparr>"
  have "keeps live c ?c" by (intro keeps_ext) (simp_all add: ids_ok_mono(3) [OF ids])
  with inv timer_step have inv1: "conn_inv env live ?c" by (auto intro: keeps_conn_inv keeps_imp_inv)
  moreover have "heap_ok ?c" using timer_step by (simp add: heap_ok_def)
  ultimately show ?thesis
    using timer_step on_io_ready_inv [OF env ng ids, of ?c]
    by (auto simp: retransmit_event_def Let_def split: prod.splits if_splits option.splits sum.splits)
qed

lemma conn_steps_inv:
  assumes env: "env_ok env" and ng: "writev_ok ng" and ids: "ids_ok ng live"
  shows "(conn_step ng ap env live)\<^sup>*\<^sup>* x y \<Longrightarrow> conn_inv env live (fst x) \<Longrightarrow> conn_inv env live (fst y)"
  by (induction rule: rtranclp_induct) (auto dest: conn_step_inv [OF env ng ids])

lemma make_conn_fresh:
  assumes "make_conn conn_new tls now junk junk_sizes scid dcid p ctx dir hdr = Inr c"
  shows "\<exists>g. c = io_ready (conn_fresh g ctx dir scid dcid p junk junk_sizes)"
proof -
  from assms obtain c1 where c1: "conn_construct conn_new tls now junk junk_sizes scid dcid p ctx dir hdr = Inr c1"
    and c: "c = io_ready c1"
    by (auto simp: make_conn_def elim!: and_then_InrE)
  obtain st ps where i: "conn_init now ctx = (st, ps)" by fastforce
  from c1 obtain st' ps' g' where "conn_new dir dcid scid p st' ps' = Some g'"
    and "and_then (tls (dir = OUTBOUND) g') (\<lambda>g. Inr (conn_fresh g ctx dir scid dcid p junk junk_sizes)) = Inr c1"
    unfolding conn_construct_def i Let_def by (auto elim!: and_then_InrE split: option.splits)
  then show ?thesis using c by (auto elim!: and_then_InrE)
qed

lemma make_conn_inv:
  assumes "make_conn conn_new tls now junk junk_sizes scid dcid p ctx dir hdr = Inr c"
    and "length junk = NGTCP2_MAX_PMTUD_UDP_PAYLOAD_SIZE * DATAGRAM_BATCH_SIZE" and "length junk_sizes = DATAGRAM_BATCH_SIZE"
  shows "conn_inv env live c"
proof -
  from make_conn_fresh [OF assms(1)] obtain g where "c = io_ready (conn_fresh g ctx dir scid dcid p junk junk_sizes)" by blast
  with assms(2,3) show ?thesis
    by (simp add: io_ready_def conn_fresh_def conn_inv_def streams_inv_def conn_wf_def
        omap_wf_def send_inv_def conn_batch_ok_def n_packets_def)
qed

section \<open>Properties of the whole life\<close>

text \<open>
  C24: In every state a connection can reach from its construction, whatever the application, ngtcp2, the
  socket and the timers do (while the stream queues fit in memory at every flush): every stream of the map is stored under its own id and is ready, every
  pending stream is not, and no stream object is in the map twice or in both the map and the queue.
\<close>

theorem connection_streams_wf:
  assumes "env_ok env" and "writev_ok ng" and "ids_ok ng live"
    and "make_conn conn_new tls now junk junk_sizes scid dcid p ctx dir hdr = Inr c0"
    and "length junk = NGTCP2_MAX_PMTUD_UDP_PAYLOAD_SIZE * DATAGRAM_BATCH_SIZE" and "length junk_sizes = DATAGRAM_BATCH_SIZE"
    and "(conn_step ng ap env live)\<^sup>*\<^sup>* (c0, os0) (c, os)"
  shows "conn_wf c \<and> distinct (map snd (streams c) @ pending_streams c)"
  using conn_steps_inv [OF assms(1-3,7)] make_conn_inv [OF assms(4-6)] conn_wf_distinct [of c]
  by (auto simp: conn_inv_def streams_inv_def)

text \<open>
  C8: In every reachable state the send batch fits its arrays, and packets wait in it exactly when one
  retry is registered with the socket: a blocked connection is never forgotten and never retried twice.
\<close>

theorem connection_retry_exactly_once:
  assumes "env_ok env" and "writev_ok ng" and "ids_ok ng live"
    and "make_conn conn_new tls now junk junk_sizes scid dcid p ctx dir hdr = Inr c0"
    and "length junk = NGTCP2_MAX_PMTUD_UDP_PAYLOAD_SIZE * DATAGRAM_BATCH_SIZE" and "length junk_sizes = DATAGRAM_BATCH_SIZE"
    and "(conn_step ng ap env live)\<^sup>*\<^sup>* (c0, os0) (c, os)"
  shows "conn_batch_ok (batch c) \<and> n_packets c \<le> ue_max_batch env \<and>
    write_waits c = (if 0 < n_packets c then 1 else 0)"
  using conn_steps_inv [OF assms(1-3,7)] make_conn_inv [OF assms(4-6)]
  by (auto simp: conn_inv_def send_inv_def)

text \<open>
  C30: When the data callback throws, whatever it did before, ngtcp2 is told that the callback failed and the connection is
  woken up.  A stream that was not closing is shut down in ngtcp2 with the code \<^verbatim>\<open>STREAM_ERROR_EXCEPTION\<close>, marked as closing
  and loses its data callback; for one that the callback closed itself, or that was closing already, ngtcp2 is
  told nothing more.  No other stream changes.
\<close>

theorem stream_receive_exception:
  assumes "ids_ok ng live" and "streams_inv live c" and "map_of (streams c) sid = Some r"
    and "data_callback (heap c ! r) = Some f" and "on_data ap (calls c @ [Data_called f sid data]) = (as, False)"
    and "do_actions ng as (c\<lparr>calls := calls c @ [Data_called f sid data]\<rparr>) = Inr c2"
  shows "\<exists>c'. stream_receive ng ap sid data fin c = Inr (NG_CALLBACK_FAILURE, c') \<and> io_trigger c' \<and>
    (\<forall>i. i \<noteq> r \<longrightarrow> heap c' ! i = heap c2 ! i) \<and>
    (let s = heap c2 ! r; s' = heap c' ! r in
      if is_closing s \<or> is_shutdown s
      then cn_ng c' = cn_ng c2 \<and> s' = (if is_shutdown s then s\<lparr>data_callback := None\<rparr> else s)
      else cn_ng c' = ng_shutdown_stream ng sid STREAM_ERROR_EXCEPTION (cn_ng c2) \<and>
        s' = s\<lparr>is_closing := True, is_shutdown := True, data_callback := None\<rparr>)"
proof -
  have "(sid, r) \<in> set (streams c)" using assms(3) by (rule map_of_SomeD)
  with assms(2) have r: "r < length (heap c)" "stream_id (heap c ! r) = sid"
    by (auto simp: streams_inv_def conn_wf_def list_all_iff entry_ok_def)
  have "keeps live c c2" using keeps_trans [OF keeps_calls keeps_actions [OF assms(1,6)]] .
  with r have r2: "r < length (heap c2)" "stream_id (heap c2 ! r) = sid" by (auto simp: keeps_def heap_ext_def)
  obtain s es where s: "stream_close STREAM_ERROR_EXCEPTION (heap c2 ! r) = (s, es)" by fastforce
  let ?c = "stream_effects ng es (put_stream r s c2)"
  have c: "stream_receive ng ap sid data fin c = Inr (NG_CALLBACK_FAILURE, ?c)"
    using assms(3-6) s by (simp add: stream_receive_def get_stream_def call_data_callback_def receive_done_def)
  show ?thesis
  proof (intro exI [of _ ?c] conjI)
    show "let s = heap c2 ! r; s' = heap ?c ! r in
      if is_closing s \<or> is_shutdown s
      then cn_ng ?c = cn_ng c2 \<and> s' = (if is_shutdown s then s\<lparr>data_callback := None\<rparr> else s)
      else cn_ng ?c = ng_shutdown_stream ng sid STREAM_ERROR_EXCEPTION (cn_ng c2) \<and>
        s' = s\<lparr>is_closing := True, is_shutdown := True, data_callback := None\<rparr>"
      using s r2 by (auto simp: stream_close_def Let_def stream_effects_def put_stream_def io_ready_def)
  qed (use c s in \<open>auto simp: stream_close_def Let_def stream_effects_def put_stream_def io_ready_def split: if_splits\<close>)
qed

text \<open>
  When ngtcp2 reports a bidirectional stream closed or reset, its id leaves the map whatever the close
  callback does, and the connection is woken up.
\<close>

theorem stream_closed_removes:
  assumes "map_of (streams c) sid = Some r" and "stream_closed ng ap sid code c = Inr c'"
  shows "map_of (streams c') sid = None \<and> io_trigger c'"
proof -
  from assms obtain c1 where "c' = erase_stream ng sid c1"
    by (auto simp: stream_closed_def split: if_splits list.splits close_call.splits prod.splits elim!: and_then_InrE)
  then show ?thesis by (simp add: erase_stream_def io_ready_def om.find_erase)
qed

subsection \<open>An instance\<close>

text \<open>An ngtcp2 that numbers its streams, and a connection made with it.\<close>

definition life_ng :: "nat ngtcp2" where
  "life_ng = sample_ng\<lparr>ng_open_bidi_stream := (\<lambda>g. (Some (4 * int g), Suc g)),
     ng_writev_stream := (\<lambda>req g. (Wrote [] (- 1) 0, g))\<rparr>"

definition live_ids :: "nat \<Rightarrow> int set" where
  "live_ids g = (\<lambda>i. 4 * int i) ` {..<g}"

lemma life_ng_ok: "writev_ok life_ng" "ids_ok life_ng live_ids"
  by (simp add: writev_ok_def life_ng_def)
    (auto simp: ids_ok_def life_ng_def sample_ng_def live_ids_def lessThan_Suc)

definition life_app :: app where
  "life_app = \<lparr>on_open = (\<lambda>cs. ([], 0)), on_data = (\<lambda>cs. ([], True)), on_close = (\<lambda>cs. [])\<rparr>"

abbreviation life_make :: "nat connection result" where
  "life_make \<equiv> make_conn (\<lambda>d dc sc p st ps. Some 0) (\<lambda>b g. Inr g) 0
     (replicate (NGTCP2_MAX_PMTUD_UDP_PAYLOAD_SIZE * DATAGRAM_BATCH_SIZE) 0) (replicate DATAGRAM_BATCH_SIZE 0)
     (sample_cid 0) (sample_cid 1) \<lparr>path_local = address_default, path_remote = address_default\<rparr> sample_ctx OUTBOUND None"

definition life_conn :: "nat connection" where
  "life_conn = io_ready (conn_fresh 0 sample_ctx OUTBOUND (sample_cid 0) (sample_cid 1)
     \<lparr>path_local = address_default, path_remote = address_default\<rparr>
     (replicate (NGTCP2_MAX_PMTUD_UDP_PAYLOAD_SIZE * DATAGRAM_BATCH_SIZE) 0) (replicate DATAGRAM_BATCH_SIZE 0))"

lemma life_make_eq: "life_make = Inr life_conn"
  by (simp add: make_conn_def conn_construct_def life_conn_def conn_init_def)

definition life_conn1 :: "nat connection" where
  "life_conn1 = snd (get_new_stream life_ng None None life_conn)"

lemma life_reach:
  "(conn_step life_ng life_app (kernel_env 1) live_ids)\<^sup>*\<^sup>* (life_conn, ()) (life_conn1, ())"
  by (rule r_into_rtranclp, rule app_step [where a = "Act_open_stream None None"]) (simp add: life_conn1_def)

theorem connection_streams_wf_witness:
  "streams life_conn1 = [(0, 0)] \<and> conn_wf life_conn1 \<and> distinct (map snd (streams life_conn1) @ pending_streams life_conn1)"
proof
  show "streams life_conn1 = [(0, 0)]"
    by (simp add: life_conn1_def get_new_stream_def life_ng_def life_conn_def conn_fresh_def io_ready_def)
  show "conn_wf life_conn1 \<and> distinct (map snd (streams life_conn1) @ pending_streams life_conn1)"
    by (rule connection_streams_wf [OF kernel_env_ok life_ng_ok life_make_eq _ _ life_reach]) simp_all
qed

theorem connection_retry_exactly_once_witness:
  "conn_batch_ok (batch life_conn1) \<and> n_packets life_conn1 \<le> ue_max_batch (kernel_env 1) \<and>
    write_waits life_conn1 = (if 0 < n_packets life_conn1 then 1 else 0)"
  by (rule connection_retry_exactly_once [OF kernel_env_ok life_ng_ok life_make_eq _ _ life_reach]) simp_all

definition throwing_app :: app where
  "throwing_app = life_app\<lparr>on_data := (\<lambda>cs. ([Act_send 0 [1] No_keep], False))\<rparr>"

lemma life_conn1_streams: "streams_inv live_ids life_conn1"
proof -
  have "conn_inv (kernel_env 1) live_ids life_conn" by (rule make_conn_inv [OF life_make_eq]) simp_all
  from conn_steps_inv [OF kernel_env_ok life_ng_ok life_reach] this show ?thesis by (simp add: conn_inv_def)
qed

lemma life_conn1_fields:
  "streams life_conn1 = [(0, 0)]" "heap life_conn1 = [set_ready (stream_new (Some 1) None 0)]" "calls life_conn1 = []"
  by (simp_all add: life_conn1_def get_new_stream_def life_ng_def life_conn_def conn_fresh_def io_ready_def
      sample_ctx_def stream_new_def set_ready_def)

theorem stream_receive_exception_witness:
  "\<exists>c'. stream_receive life_ng throwing_app 0 [7] False life_conn1 = Inr (NG_CALLBACK_FAILURE, c') \<and> io_trigger c' \<and>
    cn_ng c' = ng_shutdown_stream life_ng 0 STREAM_ERROR_EXCEPTION (cn_ng life_conn1) \<and>
    is_closing (heap c' ! 0) \<and> data_callback (heap c' ! 0) = None"
proof -
  let ?c2 = "life_conn1\<lparr>calls := [Data_called 1 0 [7]],
    heap := [(set_ready (stream_new (Some 1) None 0))\<lparr>user_buffers := [([1], No_keep)]\<rparr>], io_trigger := True\<rparr>"
  have s: "heap ?c2 ! 0 = (set_ready (stream_new (Some 1) None 0))\<lparr>user_buffers := [([1], No_keep)]\<rparr>" by simp
  have "do_actions life_ng [Act_send 0 [1] No_keep] (life_conn1\<lparr>calls := calls life_conn1 @ [Data_called 1 0 [7]]\<rparr>) = Inr ?c2"
    by (simp add: life_conn1_fields stream_effects_def append_buffer_def io_ready_def put_stream_def set_ready_def stream_new_def)
  from stream_receive_exception [OF life_ng_ok(2) life_conn1_streams _ _ _ this, where r = 0 and ap = throwing_app and fin = False]
  show ?thesis
    unfolding s by (auto simp: life_conn1_fields throwing_app_def Let_def set_ready_def stream_new_def)
qed

theorem stream_closed_removes_witness:
  "\<exists>c'. stream_closed life_ng life_app 0 5 life_conn1 = Inr c' \<and> map_of (streams c') 0 = None \<and> io_trigger c'"
proof -
  obtain c' where c': "stream_closed life_ng life_app 0 5 life_conn1 = Inr c'"
    by (simp add: stream_closed_def is_bidi_stream_def life_conn1_fields stream_mark_closed_def set_ready_def
        stream_new_def call_close_callback_def)
  with stream_closed_removes [OF _ c', of 0] show ?thesis by (simp add: life_conn1_fields)
qed

end
