(* ===== verification/Quic_Retry.thy ===== *)
theory Quic_Retry
  imports Quic_Conn_Life
begin

text \<open>
  Progress of a blocked connection: as long as every write event lets the socket take at least one packet
  (or report a hard error), the batch that waits is sent after at most as many write events as it has
  packets.
\<close>

section \<open>Retrying a blocked batch\<close>

definition willing :: "'os udp_env \<Rightarrow> bool" where
  "willing env \<longleftrightarrow> (\<forall>os sizes r sent os'. sizes \<noteq> [] \<and> ue_send env os sizes = Some (Inr ((r, sent), os')) \<longrightarrow>
     1 \<le> sent \<or> (io_failure r \<and> \<not> io_blocked r))"

text \<open>
  Successive write events, each with the flush order and the time it happens to meet: the event takes the callback
  that the last blocked send registered, which is \<^verbatim>\<open>send\<close> again and, once that succeeds, \<^verbatim>\<open>on_io_ready\<close>.
\<close>

fun write_events ::
  "nat \<Rightarrow> 'ng ngtcp2 \<Rightarrow> 'os udp_env \<Rightarrow> (nat \<times> u64) list \<Rightarrow> 'ng connection \<Rightarrow> 'os \<Rightarrow> ('ng connection \<times> 'os) result option" where
  "write_events fuel ng env [] c os = Some (Inr (c, os))"
| "write_events fuel ng env ((start, ts) # evs) c os =
     (case writeable_event fuel ng env start ts c os of
        Some (Inr (c1, os1)) \<Rightarrow> write_events fuel ng env evs c1 os1
      | r \<Rightarrow> r)"

lemma conn_send_decreases:
  assumes w: "willing env" and sock: "ue_socket env" and ok: "conn_batch_ok (batch c)"
    and r: "conn_send env c os = Some (Inr (ok, cancel, c', os'))"
  shows "n_packets c' < n_packets c"
proof -
  let ?b = "batch c"
  from r obtain rv b' where n: "0 < sb_n ?b" "sb_n ?b \<le> ue_max_batch env" and n': "sb_n b' = n_packets c'"
    and sp: "send_packets (ue_socket env) (ue_max_batch env) (ue_send env) ?b os = Some (Inr (rv, b', os'))"
    by (auto simp: conn_send_def n_packets_def Let_def split: if_splits option.splits sum.splits)
  from sp n sock obtain ret sent where s: "ue_send env os (take (sb_n ?b) (sb_sizes ?b)) = Some (Inr ((ret, sent), os'))"
    by (auto simp: send_packets_def split: if_splits option.splits sum.splits)
  from ok n have "take (sb_n ?b) (sb_sizes ?b) \<noteq> []" by (auto simp: conn_batch_ok_def utils_consts)
  with w s have "1 \<le> sent \<or> (io_failure ret \<and> \<not> io_blocked ret)" unfolding willing_def by blast
  with sp n sock s have "sb_n b' < sb_n ?b"
    by (auto simp: send_packets_def shift_batch_def Let_def split: if_splits)
  with n' show ?thesis by (simp add: n_packets_def)
qed

lemma conn_send_batch:
  assumes "env_ok env" and "willing env" and "conn_batch_ok (batch c)" and "0 < n_packets c" and "n_packets c \<le> ue_max_batch env"
  obtains ok cancel c' os' m where "conn_send env (c\<lparr>write_waits := k\<rparr>) os = Some (Inr (ok, cancel, c', os'))"
    and "conn_batch_ok (batch c')" and "ok \<longrightarrow> n_packets c' = 0" and "n_packets c' < n_packets c"
    and "batch_packets (batch c') = drop (Suc m) (batch_packets (batch c))"
proof -
  have "ue_socket env" using assms(1) by (simp add: env_ok_def)
  have "conn_batch_ok (batch (c\<lparr>write_waits := k\<rparr>))" "0 < n_packets (c\<lparr>write_waits := k\<rparr>)"
    "n_packets (c\<lparr>write_waits := k\<rparr>) \<le> ue_max_batch env"
    using assms by (simp_all add: n_packets_def)
  from conn_send_settled [OF assms(1) this, of os] obtain ok cancel c' os' where
    r: "conn_send env (c\<lparr>write_waits := k\<rparr>) os = Some (Inr (ok, cancel, c', os'))"
    and st: "send_settled (c\<lparr>write_waits := k\<rparr>) c'" and ok: "ok \<longrightarrow> n_packets c' = 0" by blast
  from st obtain m where b: "conn_batch_ok (batch c')" and d: "batch_packets (batch c') = drop m (batch_packets (batch c))"
    by (auto simp: send_settled_def)
  have less: "n_packets c' < n_packets c"
    using conn_send_decreases [OF assms(2) \<open>ue_socket env\<close> _ r] assms(3) by (simp add: n_packets_def)
  with length_batch_packets [OF b] length_batch_packets [OF assms(3)] d have "m \<noteq> 0" by (cases m) (simp_all add: n_packets_def)
  then obtain m' where "m = Suc m'" by (cases m) simp_all
  with that [OF r b ok less] d show thesis by blast
qed

text \<open>
  C21: A blocked connection gets its packets out.  If the socket takes at least one packet whenever it reports to be
  writeable (or fails for good), then some write event, no later than the number of waiting packets, ends with an
  empty batch: each write event before it only sends on, so that what waits then is what is left of the batch after
  at least one packet per event, in order; the event itself sends that rest (or drops it on an error that is final)
  and, if it sent it, goes on with \<^verbatim>\<open>on_io_ready\<close>, which may fill a new batch.
\<close>

theorem blocked_batch_drains:
  assumes "env_ok env" and "willing env" and "conn_batch_ok (batch c)" and "0 < n_packets c"
    and "n_packets c \<le> ue_max_batch env" and "n_packets c \<le> length evs"
  shows "\<exists>i m ci osi ok cancel c' os'. i < n_packets c \<and> i \<le> m \<and>
    write_events fuel ng env (take i evs) c os = Some (Inr (ci, osi)) \<and>
    batch_packets (batch ci) = drop m (batch_packets (batch c)) \<and> 0 < n_packets ci \<and>
    conn_send env (ci\<lparr>write_waits := write_waits ci - 1\<rparr>) osi = Some (Inr (ok, cancel, c', os')) \<and> n_packets c' = 0 \<and>
    write_events fuel ng env (take (Suc i) evs) c os =
      (if ok then on_io_ready fuel ng env (fst (evs ! i)) (snd (evs ! i)) c' os' else Some (Inr (c', os')))"
  using assms(3-6)
proof (induction "n_packets c" arbitrary: c os evs rule: less_induct)
  case less
  from conn_send_batch [OF assms(1,2) less.prems(1-3), of "write_waits c - 1" os] obtain ok cancel c1 os1 m1 where
    s: "conn_send env (c\<lparr>write_waits := write_waits c - 1\<rparr>) os = Some (Inr (ok, cancel, c1, os1))"
    and b1: "conn_batch_ok (batch c1)" and ok: "ok \<longrightarrow> n_packets c1 = 0" and lt: "n_packets c1 < n_packets c"
    and d1: "batch_packets (batch c1) = drop (Suc m1) (batch_packets (batch c))" .
  obtain start ts es where evs: "evs = (start, ts) # es" using less.prems(2,4) by (cases evs) auto
  show ?case
  proof (cases "n_packets c1 = 0")
    case True
    have "writeable_event fuel ng env start ts c os = (if ok then on_io_ready fuel ng env start ts c1 os1 else Some (Inr (c1, os1)))"
      using s by (simp add: writeable_event_def)
    with True s less.prems(2) evs show ?thesis
      by (intro exI [of _ "0 :: nat"] exI [of _ c] exI [of _ os] exI [of _ ok] exI [of _ cancel] exI [of _ c1] exI [of _ os1])
        (auto split: option.splits sum.splits)
  next
    case False
    with s ok have ev: "writeable_event fuel ng env start ts c os = Some (Inr (c1, os1))" by (simp add: writeable_event_def)
    from less.prems(3,4) lt evs have "n_packets c1 \<le> ue_max_batch env" "n_packets c1 \<le> length es" by simp_all
    from less.hyps [OF lt b1 _ this, of os1] False obtain i m ci osi ok' cancel' c' os' where
      i: "i < n_packets c1" "i \<le> m" and w: "write_events fuel ng env (take i es) c1 os1 = Some (Inr (ci, osi))"
      and d: "batch_packets (batch ci) = drop m (batch_packets (batch c1))" "0 < n_packets ci"
      and s': "conn_send env (ci\<lparr>write_waits := write_waits ci - 1\<rparr>) osi = Some (Inr (ok', cancel', c', os'))" "n_packets c' = 0"
      and l: "write_events fuel ng env (take (Suc i) es) c1 os1 =
        (if ok' then on_io_ready fuel ng env (fst (es ! i)) (snd (es ! i)) c' os' else Some (Inr (c', os')))"
      by auto
    have "i < n_packets c - 1" "Suc i \<le> m + Suc m1" using i lt by simp_all
    moreover have "batch_packets (batch ci) = drop (m + Suc m1) (batch_packets (batch c))" using d(1) d1 by simp
    ultimately show ?thesis
      using w d(2) s' l evs ev
      by (intro exI [of _ "Suc i"] exI [of _ "m + Suc m1"] exI [of _ ci] exI [of _ osi] exI [of _ ok'] exI [of _ cancel']
          exI [of _ c'] exI [of _ os']) simp
  qed
qed

lemma kernel_willing: "willing (kernel_env 1)"
  by (auto simp: willing_def kernel_env_def udp_send_def udp_send_mmsg_def io_failure_def Suc_le_eq split: if_splits)

definition blocked_conn :: "nat connection" where
  "blocked_conn = sample_conn\<lparr>batch := (batch sample_conn)\<lparr>sb_sizes := replicate DATAGRAM_BATCH_SIZE 10, sb_n := 3\<rparr>\<rparr>"

theorem blocked_batch_drains_witness:
  "n_packets blocked_conn = 3 \<and> (\<exists>i < 3. \<exists>ci osi ok cancel c' os'.
     write_events 9 sample_ng (kernel_env 1) (take i [(0, 1), (0, 2), (0, 3)]) blocked_conn () = Some (Inr (ci, osi)) \<and>
     conn_send (kernel_env 1) (ci\<lparr>write_waits := write_waits ci - 1\<rparr>) osi = Some (Inr (ok, cancel, c', os')) \<and>
     n_packets c' = 0)"
proof -
  have n: "n_packets blocked_conn = 3" by (simp add: blocked_conn_def n_packets_def)
  have b: "conn_batch_ok (batch blocked_conn)"
    by (simp add: blocked_conn_def sample_conn_def conn_batch_ok_def utils_consts dgram_ok_def list_all_iff)
  have le: "n_packets blocked_conn \<le> ue_max_batch (kernel_env 1)"
    by (simp add: n kernel_env_def MAX_BATCH_def utils_consts)
  from blocked_batch_drains [OF kernel_env_ok kernel_willing b _ le, of "[(0, 1), (0, 2), (0, 3)]" 9 sample_ng "()"] n
  show ?thesis by simp blast
qed

end
