(* ===== verification/Quic_Link.thy ===== *)
theory Quic_Link
  imports Quic_Conn_Life
begin

text \<open>
  Two connections and a stream between them: what the application at one end sends is what the data
  callback at the other end is given, whatever else the two connections do meanwhile.  ngtcp2 in between
  is described by what it may do: it reads the sender's buffers at the offset it delivers next, delivers
  only bytes that were handed to it, and acknowledges only bytes that were delivered.
\<close>

section \<open>What the operations do to the queue of a stream\<close>

text \<open>\<open>extends\<close>: the stream keeps its id, its queue grows at the end and nothing is taken back from ngtcp2.\<close>

definition extends :: "stream \<Rightarrow> stream \<Rightarrow> bool" where
  "extends s s' \<longleftrightarrow> ready s' = ready s \<and> stream_id s' = stream_id s \<and> unacked_size s \<le> unacked_size s' \<and>
     (\<exists>x. stream_bytes s' = stream_bytes s @ x)"

definition grows :: "nat \<Rightarrow> 'ng connection \<Rightarrow> 'ng connection \<Rightarrow> bool" where
  "grows r c c' \<longleftrightarrow> (r < length (heap c) \<and> ready (heap c ! r) \<longrightarrow>
     r < length (heap c') \<and> extends (heap c ! r) (heap c' ! r))"

lemma extends_refl [simp]: "extends s s"
  by (simp add: extends_def)

lemma extends_trans: "extends a b \<Longrightarrow> extends b c \<Longrightarrow> extends a c"
  by (auto simp: extends_def)

lemma extends_append: "extends s (fst (append_buffer b k s))"
  by (simp add: extends_def append_buffer_flags)

lemma extends_chunks:
  assumes "send_chunks script d k s = Inr (s', es)"
  shows "extends s s'"
proof -
  let ?s = "s\<lparr>senders := senders s @ [\<lparr>next_chunk = Some script, has_done = d, done_calls = 0, chunks_sent = 0\<rparr>]\<rparr>"
  from assms have s': "s' = chunk_make (length (senders s)) (nat k) ?s"
    by (auto simp: send_chunks_def Let_def split: if_splits)
  then show ?thesis
    using chunk_make_released [of "length (senders s)" "nat k" ?s] chunk_make_flags [of "length (senders s)" "nat k" ?s]
    by (auto simp: extends_def stream_bytes_def)
qed

lemma extends_close: "extends s (fst (stream_close code s))"
  by (simp add: extends_def stream_close_def Let_def stream_bytes_def)

lemma extends_mark: "stream_mark_closed code s = (s', cs) \<Longrightarrow> extends s s'"
  by (auto simp: extends_def stream_mark_closed_def stream_bytes_def)

lemma extends_flushed: "flushed s s' \<Longrightarrow> extends s s'"
  by (cases s; cases s') (auto simp: extends_def flushed_def stream_bytes_def)

lemma grows_refl [simp]: "grows r c c"
  by (simp add: grows_def)

lemma grows_trans: "grows r a b \<Longrightarrow> grows r b c \<Longrightarrow> grows r a c"
  by (auto simp: grows_def extends_def)

lemma grows_heap: "heap c' = heap c \<Longrightarrow> grows r c c'"
  by (simp add: grows_def)

lemma grows_fields [simp]:
  "grows r c (c\<lparr>cn_ng := g\<rparr>)" "grows r c (c\<lparr>streams := m\<rparr>)" "grows r c (c\<lparr>calls := cs\<rparr>)" "grows r c (io_ready c)"
  by (simp_all add: grows_def io_ready_def)

lemma put_stream_calls [simp]: "calls (put_stream i s c) = calls c"
  by (simp add: put_stream_def)

lemma grows_snoc: "heap c' = heap c @ [s] \<Longrightarrow> grows r c c'"
  by (simp add: grows_def nth_append)

lemma grows_put: "extends (heap c ! i) s \<Longrightarrow> grows r c (put_stream i s c)"
  by (cases "i = r") (simp_all add: grows_def put_stream_def)

lemma effects_frame [simp]:
  "heap (stream_effects ng es c) = heap c" "calls (stream_effects ng es c) = calls c"
proof (induction es arbitrary: c)
  case (Cons e es)
  { case 1 then show ?case using Cons by (cases e) (simp_all add: stream_effects_def io_ready_def) }
  { case 2 then show ?case using Cons by (cases e) (simp_all add: stream_effects_def io_ready_def) }
qed (simp_all add: stream_effects_def)

lemma grows_put_effects: "extends (heap c ! i) s \<Longrightarrow> grows r c (stream_effects ng es (put_stream i s c))"
  by (rule grows_trans [OF grows_put grows_heap]) simp_all

lemma grows_new: "grows r c (snd (get_new_stream ng data_cb close_cb c))"
  by (auto simp: get_new_stream_def Let_def split: prod.splits option.splits intro: grows_snoc)

lemma grows_action: "do_action ng a c = Inr c' \<Longrightarrow> grows r c c'"
proof (cases a)
  case (Act_send i buf k)
  then show "do_action ng a c = Inr c' \<Longrightarrow> grows r c c'"
    using extends_append [of "heap c ! i" buf k]
    by (auto split: if_splits prod.splits intro!: grows_put_effects)
next
  case (Act_close i code)
  then show "do_action ng a c = Inr c' \<Longrightarrow> grows r c c'"
    using extends_close [of "heap c ! i" code]
    by (auto split: if_splits prod.splits intro!: grows_put_effects)
qed (auto split: if_splits elim!: and_then_InrE intro!: grows_put_effects grows_put grows_new
    dest: extends_chunks simp: extends_def stream_bytes_def)

lemma grows_actions: "do_actions ng as c = Inr c' \<Longrightarrow> grows r c c'"
  by (induction as arbitrary: c) (auto elim!: and_then_InrE intro: grows_trans grows_action)

section \<open>What a data callback was given\<close>

fun payload :: "int \<Rightarrow> app_call \<Rightarrow> bytes" where
  "payload sid (Data_called f i data) = (if i = sid then data else [])"
| "payload sid _ = []"

definition received :: "int \<Rightarrow> 'ng connection \<Rightarrow> bytes" where
  "received sid c = concat (map (payload sid) (calls c))"

lemma calls_action: "do_action ng a c = Inr c' \<Longrightarrow> calls c' = calls c"
  by (cases a) (auto simp: put_stream_def get_new_stream_def Let_def split: if_splits prod.splits option.splits
      elim!: and_then_InrE)

lemma calls_actions: "do_actions ng as c = Inr c' \<Longrightarrow> calls c' = calls c"
  by (induction as arbitrary: c) (auto elim!: and_then_InrE dest!: calls_action)

lemma received_calls: "calls c' = calls c \<Longrightarrow> received sid c' = received sid c"
  by (simp add: received_def)

section \<open>The callbacks of ngtcp2\<close>

lemma call_close_effect:
  assumes "call_close_callback ng ap cb i code c = Inr c'"
  shows "grows r c c' \<and> received sid c' = received sid c"
proof (cases cb)
  case (User_close f)
  let ?c = "c\<lparr>calls := calls c @ [Close_called cb i code]\<rparr>"
  from assms User_close have a: "do_actions ng (on_close ap (calls ?c)) ?c = Inr c'"
    by (simp add: call_close_callback_def)
  from grows_trans [OF grows_heap grows_actions [OF a]] calls_actions [OF a] show ?thesis by (simp add: received_def)
qed (use assms in \<open>simp add: call_close_callback_def\<close>)

lemma stream_closed_effect:
  assumes "stream_closed ng ap i code c = Inr c'"
  shows "grows r c c' \<and> received sid c' = received sid c"
proof (cases "map_of (streams c) i")
  case None
  with assms show ?thesis by (auto simp: stream_closed_def split: if_splits)
next
  case (Some q)
  obtain s new where m: "stream_mark_closed code (heap c ! q) = (s, new)" by fastforce
  let ?c = "put_stream q s c"
  from assms Some m obtain c1 where
    c1: "c1 = ?c \<or> (\<exists>cb. call_close_callback ng ap cb (stream_id s) code ?c = Inr c1)"
    and c': "c' = erase_stream ng i c1"
    by (auto simp: stream_closed_def split: if_splits list.splits close_call.splits elim!: and_then_InrE)
  have "grows r ?c c1 \<and> received sid c1 = received sid ?c" 
    using c1 call_close_effect [where c = ?c] by (elim disjE exE) simp_all
  moreover have "grows r c ?c" by (rule grows_put [OF extends_mark [OF m]])
  moreover have "received sid ?c = received sid c" by (rule received_calls) simp
  moreover have "grows r c1 c' \<and> received sid c' = received sid c1"
    by (auto simp: c' erase_stream_def io_ready_def received_def intro: grows_heap)
  ultimately show ?thesis by (auto intro: grows_trans)
qed

lemma stream_receive_effect:
  assumes "stream_receive ng ap i data fin c = Inr (rv, c')"
  shows "\<exists>q. map_of (streams c) i = Some q \<and> grows r c c' \<and>
    received sid c' = received sid c @ (if i = sid \<and> data_callback (heap c ! q) \<noteq> None then data else [])"
proof -
  from assms obtain q good c2 where q: "map_of (streams c) i = Some q"
    and cb: "call_data_callback ng ap q i data c = Inr (good, c2)" and c': "c' = snd (receive_done ng q i data fin good c2)"
    by (fastforce simp: stream_receive_def get_stream_def split: option.splits elim!: and_then_InrE)
  have 1: "grows r c c2 \<and> received sid c2 = received sid c @ (if i = sid \<and> data_callback (heap c ! q) \<noteq> None then data else [])"
  proof (cases "data_callback (heap c ! q)")
    case (Some f)
    let ?c = "c\<lparr>calls := calls c @ [Data_called f i data]\<rparr>"
    obtain as g where o: "on_data ap (calls ?c) = (as, g)" by fastforce
    with cb Some have a: "do_actions ng as ?c = Inr c2"
      by (auto simp: call_data_callback_def Let_def elim!: and_then_InrE)
    from grows_trans [OF grows_heap grows_actions [OF a]] calls_actions [OF a] Some show ?thesis by (simp add: received_def)
  qed (use cb in \<open>simp add: call_data_callback_def\<close>)
  obtain s es where s: "stream_close STREAM_ERROR_EXCEPTION (heap c2 ! q) = (s, es)" by fastforce
  with extends_close [of "heap c2 ! q" STREAM_ERROR_EXCEPTION] have "extends (heap c2 ! q) s" by simp
  then have "grows r c2 c'" "calls c' = calls c2"
    by (simp_all add: c' receive_done_def Let_def s grows_put_effects)
  with 1 q show ?thesis using grows_trans [of r c c2 c'] received_calls [of c' c2 sid] by simp
qed

lemma stream_opened_effect:
  assumes "stream_opened ng ap i c = Inr (rv, c')"
  shows "grows r c c' \<and> received sid c' = received sid c"
proof -
  let ?s = "set_ready (stream_new (ctx_stream_data_cb (cn_ctx c)) (ctx_stream_close_cb (cn_ctx c)) i)"
  let ?c = "c\<lparr>heap := heap c @ [?s]\<rparr>"
  from assms obtain code c1 where o: "call_open_callback ng ap i ?c = Inr (code, c1)"
    and e: "enter_stream ng (length (heap c)) i code c1 = Inr (rv, c')"
    by (auto simp: stream_opened_def elim!: and_then_InrE)
  have 1: "grows r ?c c1 \<and> received sid c1 = received sid ?c"
  proof (cases "ctx_stream_open_cb (cn_ctx ?c)")
    case (Some f)
    let ?d = "?c\<lparr>calls := calls ?c @ [Open_called f i]\<rparr>"
    obtain as g where p: "on_open ap (calls ?d) = (as, g)" by fastforce
    with o Some have a: "do_actions ng as ?d = Inr c1"
      by (auto simp: call_open_callback_def Let_def elim!: and_then_InrE)
    from grows_trans [OF grows_heap grows_actions [OF a], of ?c] calls_actions [OF a] show ?thesis by (simp add: received_def)
  qed (use o in \<open>simp add: call_open_callback_def\<close>)
  have "grows r c1 c' \<and> received sid c' = received sid c1"
    using e extends_close [of "heap c1 ! length (heap c)" code]
    by (auto simp: enter_stream_def received_def split: prod.splits if_splits bool.splits intro!: grows_put_effects)
  moreover have "grows r c ?c" by (rule grows_snoc) simp
  ultimately show ?thesis using 1 by (auto intro: grows_trans simp: received_def)
qed

lemma pending_loop_effect:
  "r \<notin> set ps \<Longrightarrow> heap (check_pending_loop ng avail popped ps c) ! r = heap c ! r \<and>
    length (heap (check_pending_loop ng avail popped ps c)) = length (heap c) \<and>
    calls (check_pending_loop ng avail popped ps c) = calls c"
  by (induction ng avail popped ps c rule: check_pending_loop.induct)
    (auto simp: put_stream_def split: prod.splits option.splits)

lemma pending_effect:
  assumes "conn_wf c"
  shows "grows r c (extend_max_local_streams_bidi ng c) \<and> received sid (extend_max_local_streams_bidi ng c) = received sid c"
proof -
  have "calls (check_pending_loop ng avail popped ps c) = calls c" for avail popped ps
    by (induction ng avail popped ps c rule: check_pending_loop.induct) (auto split: prod.splits option.splits)
  moreover have "r \<notin> set (pending_streams c)" if "ready (heap c ! r)"
    using assms that by (auto simp: conn_wf_def list_all_iff waiting_ok_def)
  ultimately show ?thesis
    using pending_loop_effect [of r "pending_streams c" ng _ 0 c]
    by (auto simp: extend_max_local_streams_bidi_def check_pending_streams_def Let_def grows_def received_def)
qed

lemma other_ack_effect:
  assumes wf: "conn_wf c" and a: "stream_ack ng i n c = Inr (rv, c')" and i: "i \<noteq> stream_id (heap c ! r)"
  shows "grows r c c' \<and> received sid c' = received sid c"
proof (cases "map_of (streams c) i")
  case None
  with a show ?thesis by (simp add: stream_ack_def)
next
  case (Some q)
  with wf have "entry_ok (heap c) (i, q)" by (auto simp: conn_wf_def list_all_iff dest: map_of_SomeD)
  with i have "q \<noteq> r" by (auto simp: entry_ok_def)
  from Some a obtain s stale where
    "c' = stream_effects ng (chunk_wakeups (heap c ! q) s) (put_stream q s c)"
    by (auto simp: stream_ack_def elim!: and_then_InrE)
  with \<open>q \<noteq> r\<close> show ?thesis by (simp add: grows_def received_def put_stream_def)
qed

section \<open>The moves of a connection\<close>

text \<open>What surrounds a connection: ngtcp2 with the stream ids it uses, the application, the socket.\<close>

record ('ng, 'os) world =
  w_ng :: "'ng ngtcp2"
  w_app :: app
  w_env :: "'os udp_env"
  w_live :: "'ng \<Rightarrow> int set"

definition world_ok :: "('ng, 'os) world \<Rightarrow> bool" where
  "world_ok w \<longleftrightarrow> env_ok (w_env w) \<and> writev_ok (w_ng w) \<and> ids_ok (w_ng w) (w_live w)"

text \<open>The steps of a connection again, labelled with the callback ngtcp2 made, if any.\<close>

inductive conn_move ::
  "('ng, 'os) world \<Rightarrow> ng_event option \<Rightarrow> 'ng connection \<times> 'os \<Rightarrow> 'ng connection \<times> 'os \<Rightarrow> bool" for w where
  move_app: "do_action (w_ng w) a c = Inr c' \<Longrightarrow> conn_move w None (c, os) (c', os)"
| move_callback: "event_ok (w_live w) e c \<Longrightarrow> ng_callback (w_ng w) (w_app w) e c = Inr (rv, c') \<Longrightarrow>
    conn_move w (Some e) (c, os) (c', os)"
| move_ngtcp2: "w_live w (cn_ng c) \<subseteq> w_live w g \<Longrightarrow> conn_move w None (c, os) (c\<lparr>cn_ng := g\<rparr>, os)"
| move_io: "heap_ok c \<Longrightarrow> io_event fuel (w_ng w) (w_env w) start ts c os = Some (Inr (c', os')) \<Longrightarrow>
    conn_move w None (c, os) (c', os')"
| move_writeable: "heap_ok c \<Longrightarrow> 0 < write_waits c \<Longrightarrow>
    writeable_event fuel (w_ng w) (w_env w) start ts c os = Some (Inr (c', os')) \<Longrightarrow> conn_move w None (c, os) (c', os')"
| move_timer: "heap_ok c \<Longrightarrow> retransmit_event fuel (w_ng w) (w_env w) start ts c os = Some (Inr (rv, c', os')) \<Longrightarrow>
    conn_move w None (c, os) (c', os')"

lemma conn_step_iff_move:
  "conn_step (w_ng w) (w_app w) (w_env w) (w_live w) x y \<longleftrightarrow> (\<exists>lab. conn_move w lab x y)"
proof
  show "\<exists>lab. conn_move w lab x y" if "conn_step (w_ng w) (w_app w) (w_env w) (w_live w) x y"
    using that by cases (blast intro: conn_move.intros)+
next
  assume "\<exists>lab. conn_move w lab x y"
  then obtain lab where "conn_move w lab x y" ..
  then show "conn_step (w_ng w) (w_app w) (w_env w) (w_live w) x y" by cases (blast intro: conn_step.intros)+
qed

abbreviation side_inv :: "('ng, 'os) world \<Rightarrow> 'ng connection \<times> 'os \<Rightarrow> bool" where
  "side_inv w x \<equiv> conn_inv (w_env w) (w_live w) (fst x)"

lemma move_inv: "world_ok w \<Longrightarrow> conn_move w lab x y \<Longrightarrow> side_inv w x \<Longrightarrow> side_inv w y"
  using conn_step_inv [of "w_env w" "w_ng w" "w_live w" "w_app w" x y] conn_step_iff_move [of w x y]
  by (auto simp: world_ok_def)

lemma on_io_ready_effect:
  assumes w: "world_ok w" and h: "heap_ok c" and inv: "conn_inv (w_env w) (w_live w) c"
    and r: "on_io_ready fuel (w_ng w) (w_env w) start ts c os = Some (Inr (c', os'))"
  shows "grows i c c' \<and> received sid c' = received sid c"
proof -
  from r obtain st where st: "flush_streams fuel (w_ng w) (w_env w) start ts c os = Some (Inr st)"
    and c': "c' = schedule_retransmit (w_ng w) ts (fl_conn st)"
    by (auto simp: on_io_ready_def split: option.splits sum.splits)
  have "flush_frame c (fl_conn st)"
  proof (cases "0 < n_packets c")
    case True
    with st show ?thesis by (auto simp: flush_streams_def flush_start_def split: if_splits)
  next
    case False
    with h inv have "conn_ready c" "n_packets c = 0" by (simp_all add: conn_ready_def conn_inv_def send_inv_def)
    with flush_streams_sound [OF _ _ this st] w show ?thesis by (simp add: world_ok_def flush_ended_def Let_def)
  qed
  moreover have "heap c' = heap (fl_conn st)" "calls c' = calls (fl_conn st)"
    by (simp_all add: c' schedule_retransmit_def Let_def)
  ultimately show ?thesis
    by (auto simp: flush_frame_def grows_def received_def list_all2_conv_all_nth intro: extends_flushed)
qed

lemma writeable_effect:
  assumes w: "world_ok w" and h: "heap_ok c" and inv: "conn_inv (w_env w) (w_live w) c" and ww: "0 < write_waits c"
    and r: "writeable_event fuel (w_ng w) (w_env w) start ts c os = Some (Inr (c', os'))"
  shows "grows i c c' \<and> received sid c' = received sid c"
proof -
  from w have env: "env_ok (w_env w)" by (simp add: world_ok_def)
  from writeable_send [OF env inv ww, of os] obtain ok cancel c1 os1 where
    s: "conn_send (w_env w) (c\<lparr>write_waits := write_waits c - 1\<rparr>) os = Some (Inr (ok, cancel, c1, os1))"
    and inv1: "conn_inv (w_env w) (w_live w) c1" and same: "heap c1 = heap c" "streams c1 = streams c" "calls c1 = calls c" by blast
  from h same have h1: "heap_ok c1" by (simp add: heap_ok_def)
  have "c' = c1 \<or> on_io_ready fuel (w_ng w) (w_env w) start ts c1 os1 = Some (Inr (c', os'))"
    using r s by (auto simp: writeable_event_def split: if_splits)
  then have "grows i c1 c' \<and> received sid c' = received sid c1"
    using on_io_ready_effect [OF w h1 inv1] by auto
  with same show ?thesis by (simp add: grows_def received_def)
qed

text \<open>
  What ngtcp2 reports touches the queue of a stream only at its end, unless it is an acknowledgement of that
  stream, and is data of the stream only when it says so.
\<close>

lemma callback_grows:
  assumes wf: "conn_wf c" and r: "ng_callback ng ap e c = Inr (rv, c')"
    and e: "\<And>n. e \<noteq> Acked_stream_data_offset (stream_id (heap c ! r)) n"
  shows "grows r c c'"
proof (cases e)
  case (Recv_stream_data fin i data)
  with r stream_receive_effect [of ng ap i data fin c rv c' r] show ?thesis by auto
next
  case (Acked_stream_data_offset i n)
  with r e other_ack_effect [OF wf, of ng i n rv c' r] show ?thesis by auto
next
  case (Stream_open i)
  with r stream_opened_effect [of ng ap i c rv c' r] show ?thesis by simp
next
  case (Stream_close i code)
  with r stream_closed_effect [of ng ap i code c c' r] show ?thesis by (auto elim!: and_then_InrE)
next
  case (Stream_reset i code)
  with r stream_closed_effect [of ng ap i code c c' r] show ?thesis by (auto elim!: and_then_InrE)
next
  case (Extend_max_local_streams_bidi n)
  with r pending_effect [OF wf, of r ng] show ?thesis by auto
qed

lemma callback_received:
  assumes wf: "conn_wf c" and r: "ng_callback ng ap e c = Inr (rv, c')"
    and e: "\<And>fin data. e \<noteq> Recv_stream_data fin sid data"
  shows "received sid c' = received sid c"
proof (cases e)
  case (Recv_stream_data fin i data)
  with e have "i \<noteq> sid" by blast
  with Recv_stream_data r stream_receive_effect [of ng ap i data fin c rv c' 0 sid] show ?thesis by auto
next
  case (Acked_stream_data_offset i n)
  with r show ?thesis
    by (auto simp: stream_ack_def received_def split: option.splits elim!: and_then_InrE)
next
  case (Stream_open i)
  with r stream_opened_effect [of ng ap i c rv c' 0 sid] show ?thesis by simp
next
  case (Stream_close i code)
  with r stream_closed_effect [of ng ap i code c c' 0 sid] show ?thesis by (auto elim!: and_then_InrE)
next
  case (Stream_reset i code)
  with r stream_closed_effect [of ng ap i code c c' 0 sid] show ?thesis by (auto elim!: and_then_InrE)
next
  case (Extend_max_local_streams_bidi n)
  with r pending_effect [OF wf, of 0 ng sid] show ?thesis by auto
qed

text \<open>The moves without a callback.\<close>

lemma quiet_move:
  assumes w: "world_ok w" and m: "conn_move w None x y" and inv: "side_inv w x"
  shows "grows r (fst x) (fst y) \<and> received sid (fst y) = received sid (fst x)"
  using m
proof cases
  case (move_app a c c' os)
  then show ?thesis using grows_action calls_action by (fastforce simp: received_def)
next
  case (move_ngtcp2 c g os)
  then show ?thesis by (simp add: received_def)
next
  case (move_io c fuel start ts os c' os')
  let ?c = "c\<lparr>io_trigger := False\<rparr>"
  have "keeps (w_live w) c ?c" by (intro keeps_ext) simp_all
  with inv move_io have "conn_inv (w_env w) (w_live w) ?c" by (auto intro: keeps_conn_inv keeps_imp_inv)
  with move_io on_io_ready_effect [OF w, of ?c fuel start ts os c' os' r sid] show ?thesis
    by (simp add: io_event_def heap_ok_def grows_def received_def)
next
  case (move_writeable c fuel start ts os c' os')
  with writeable_effect [OF w] inv show ?thesis by auto
next
  case (move_timer c fuel start ts os rv c' os')
  let ?c = "c\<lparr>cn_ng := snd (ng_handle_expiry (w_ng w) ts (cn_ng c)), retransmit_timer := None\<rparr>"
  from w have ids: "ids_ok (w_ng w) (w_live w)" by (simp add: world_ok_def)
  have "keeps (w_live w) c ?c" by (intro keeps_ext) (simp_all add: ids_ok_mono(3) [OF ids])
  with inv move_timer have inv1: "conn_inv (w_env w) (w_live w) ?c" by (auto intro: keeps_conn_inv keeps_imp_inv)
  have h: "heap_ok ?c" using move_timer by (simp add: heap_ok_def)
  have "c' = ?c \<or> on_io_ready fuel (w_ng w) (w_env w) start ts ?c os = Some (Inr (c', os'))"
    using move_timer by (auto simp: retransmit_event_def Let_def split: prod.splits if_splits option.splits sum.splits)
  then have "grows r ?c c' \<and> received sid c' = received sid ?c"
    using on_io_ready_effect [OF w h inv1, of fuel start ts os c' os' r sid] by auto
  with move_timer show ?thesis by (simp add: grows_def received_def)
qed

lemma move_grows:
  assumes w: "world_ok w" and m: "conn_move w lab x y" and inv: "side_inv w x"
    and lab: "\<And>n. lab \<noteq> Some (Acked_stream_data_offset (stream_id (heap (fst x) ! r)) n)"
  shows "grows r (fst x) (fst y)"
proof (cases lab)
  case None
  with quiet_move [OF w _ inv] m show ?thesis by blast
next
  case (Some e)
  from m [unfolded Some] obtain c os rv c' where "x = (c, os)" "y = (c', os)"
    "ng_callback (w_ng w) (w_app w) e c = Inr (rv, c')" by cases auto
  with callback_grows [of c "w_ng w" "w_app w" e rv c' r] inv lab Some show ?thesis
    by (auto simp: conn_inv_def streams_inv_def)
qed

lemma move_received:
  assumes w: "world_ok w" and m: "conn_move w lab x y" and inv: "side_inv w x"
    and lab: "\<And>fin data. lab \<noteq> Some (Recv_stream_data fin sid data)"
  shows "received sid (fst y) = received sid (fst x)"
proof (cases lab)
  case None
  with quiet_move [OF w _ inv] m show ?thesis by blast
next
  case (Some e)
  from m [unfolded Some] obtain c os rv c' where "x = (c, os)" "y = (c', os)"
    "ng_callback (w_ng w) (w_app w) e c = Inr (rv, c')" by cases auto
  with callback_received [of c "w_ng w" "w_app w" e rv c' sid] inv lab Some show ?thesis
    by (auto simp: conn_inv_def streams_inv_def)
qed

section \<open>The stream between two connections\<close>

text \<open>
  The sending connection holds the stream as the object \<open>r\<close> of its heap, both know it by the id \<open>sid\<close>.  \<open>lk_sent\<close>
  are all bytes that entered the queue so far, \<open>lk_acked\<close> and \<open>lk_got\<close> the stream offsets up to which bytes
  were acknowledged and delivered.
\<close>

record ('ng, 'os) link =
  snd_side :: "'ng connection \<times> 'os"
  rcv_side :: "'ng connection \<times> 'os"
  lk_sent :: bytes
  lk_acked :: nat
  lk_got :: nat

definition lk_stream :: "nat \<Rightarrow> ('ng, 'os) link \<Rightarrow> stream" where
  "lk_stream r l = heap (fst (snd_side l)) ! r"

text \<open>
  Either connection does anything a connection can do.  Data of the stream is what ngtcp2 reads, at the
  time it delivers it for the first time or again, from the buffers of the sending stream at the offset
  that is due; an acknowledgement covers delivered bytes only.  Data arrives only while the receiving stream
  has a data callback.
\<close>

inductive link_step ::
  "('ng, 'os) world \<Rightarrow> ('ng, 'os) world \<Rightarrow> nat \<Rightarrow> int \<Rightarrow> ('ng, 'os) link \<Rightarrow> ('ng, 'os) link \<Rightarrow> bool"
  for ws wr r sid where
  sender_step: "conn_move ws lab (snd_side l) x \<Longrightarrow> (\<And>n. lab \<noteq> Some (Acked_stream_data_offset sid n)) \<Longrightarrow> heap_ok (fst x) \<Longrightarrow>
    link_step ws wr r sid l (l\<lparr>snd_side := x,
      lk_sent := lk_sent l @ drop (length (stream_bytes (lk_stream r l))) (stream_bytes (heap (fst x) ! r))\<rparr>)"
| ack_step: "conn_move ws (Some (Acked_stream_data_offset sid (of_nat n))) (snd_side l) x \<Longrightarrow>
    map_of (streams (fst (snd_side l))) sid = Some r \<Longrightarrow> lk_acked l + n \<le> lk_got l \<Longrightarrow>
    link_step ws wr r sid l (l\<lparr>snd_side := x, lk_acked := lk_acked l + n,
      lk_sent := lk_sent l @ drop (length (stream_bytes (lk_stream r l)) - n) (stream_bytes (heap (fst x) ! r))\<rparr>)"
| receiver_step: "conn_move wr lab (rcv_side l) x \<Longrightarrow> (\<And>fin data. lab \<noteq> Some (Recv_stream_data fin sid data)) \<Longrightarrow>
    link_step ws wr r sid l (l\<lparr>rcv_side := x\<rparr>)"
| deliver_step: "conn_move wr (Some (Recv_stream_data fin sid data)) (rcv_side l) x \<Longrightarrow>
    data = take n (drop (lk_got l - lk_acked l) (stream_bytes (lk_stream r l))) \<Longrightarrow>
    lk_got l + n \<le> lk_acked l + unat (unacked_size (lk_stream r l)) \<Longrightarrow>
    map_of (streams (fst (rcv_side l))) sid = Some q \<Longrightarrow> data_callback (heap (fst (rcv_side l)) ! q) \<noteq> None \<Longrightarrow>
    link_step ws wr r sid l (l\<lparr>rcv_side := x, lk_got := lk_got l + n\<rparr>)"

definition link_inv ::
  "('ng, 'os) world \<Rightarrow> ('ng, 'os) world \<Rightarrow> nat \<Rightarrow> int \<Rightarrow> ('ng, 'os) link \<Rightarrow> bool" where
  "link_inv ws wr r sid l \<longleftrightarrow> side_inv ws (snd_side l) \<and> side_inv wr (rcv_side l) \<and>
     r < length (heap (fst (snd_side l))) \<and> ready (lk_stream r l) \<and> stream_id (lk_stream r l) = sid \<and> stream_inv (lk_stream r l) \<and>
     lk_acked l \<le> length (lk_sent l) \<and> drop (lk_acked l) (lk_sent l) = stream_bytes (lk_stream r l) \<and>
     lk_acked l \<le> lk_got l \<and> lk_got l \<le> lk_acked l + unat (unacked_size (lk_stream r l)) \<and>
     received sid (fst (rcv_side l)) = take (lk_got l) (lk_sent l)"

lemma link_got_sent: "link_inv ws wr r sid l \<Longrightarrow> lk_got l \<le> length (lk_sent l)"
proof -
  assume "link_inv ws wr r sid l"
  then have "unat (unacked_size (lk_stream r l)) \<le> length (drop (lk_acked l) (lk_sent l))"
    and "lk_got l \<le> lk_acked l + unat (unacked_size (lk_stream r l))" "lk_acked l \<le> length (lk_sent l)"
    by (simp_all add: link_inv_def stream_inv_def)
  then show ?thesis by simp
qed

lemma sender_step_inv:
  assumes ws: "world_ok ws" and inv: "link_inv ws wr r sid l" and m: "conn_move ws lab (snd_side l) x"
    and lab: "\<And>n. lab \<noteq> Some (Acked_stream_data_offset sid n)" and h: "heap_ok (fst x)"
  shows "link_inv ws wr r sid (l\<lparr>snd_side := x,
      lk_sent := lk_sent l @ drop (length (stream_bytes (lk_stream r l))) (stream_bytes (heap (fst x) ! r))\<rparr>)"
proof -
  let ?s = "lk_stream r l" and ?s' = "heap (fst x) ! r"
  from inv have s: "side_inv ws (snd_side l)" "stream_id ?s = sid" "r < length (heap (fst (snd_side l)))" "ready ?s"
    by (simp_all add: link_inv_def)
  have "grows r (fst (snd_side l)) (fst x)"
    by (rule move_grows [OF ws m s(1)]) (use lab s(2) in \<open>simp add: lk_stream_def\<close>)
  with s have r: "r < length (heap (fst x))" and e: "extends ?s ?s'" by (simp_all add: grows_def lk_stream_def)
  then obtain y where y: "stream_bytes ?s' = stream_bytes ?s @ y" by (auto simp: extends_def)
  have "unat (unacked_size ?s) \<le> unat (unacked_size ?s')" using e by (simp add: extends_def word_le_nat_alt)
  moreover have "stream_inv ?s'" using h r by (simp add: heap_ok_def list_all_length)
  ultimately show ?thesis
    using inv e y r move_inv [OF ws m s(1)] link_got_sent [OF inv]
    by (auto simp: link_inv_def lk_stream_def extends_def)
qed

lemma deliver_step_inv:
  assumes wr: "world_ok wr" and inv: "link_inv ws wr r sid l"
    and m: "conn_move wr (Some (Recv_stream_data fin sid data)) (rcv_side l) x"
    and data: "data = take n (drop (lk_got l - lk_acked l) (stream_bytes (lk_stream r l)))"
    and n: "lk_got l + n \<le> lk_acked l + unat (unacked_size (lk_stream r l))"
    and q: "map_of (streams (fst (rcv_side l))) sid = Some q" "data_callback (heap (fst (rcv_side l)) ! q) \<noteq> None"
  shows "link_inv ws wr r sid (l\<lparr>rcv_side := x, lk_got := lk_got l + n\<rparr>)"
proof -
  from inv have s: "side_inv wr (rcv_side l)" by (simp add: link_inv_def)
  from inv have "stream_bytes (lk_stream r l) = drop (lk_acked l) (lk_sent l)" "lk_acked l \<le> lk_got l"
    by (simp_all add: link_inv_def)
  then have due: "drop (lk_got l - lk_acked l) (stream_bytes (lk_stream r l)) = drop (lk_got l) (lk_sent l)" by simp
  from m obtain rv where "stream_receive (w_ng wr) (w_app wr) sid data fin (fst (rcv_side l)) = Inr (rv, fst x)"
    by cases auto
  from stream_receive_effect [OF this, of 0 sid] q have
    "received sid (fst x) = received sid (fst (rcv_side l)) @ data" by auto
  also have "\<dots> = take (lk_got l) (lk_sent l) @ take n (drop (lk_got l) (lk_sent l))"
    using inv by (simp add: link_inv_def data due)
  finally have "received sid (fst x) = take (lk_got l + n) (lk_sent l)" by (simp add: take_add)
  with inv n move_inv [OF wr m s] show ?thesis by (simp add: link_inv_def lk_stream_def)
qed

lemma ack_step_inv:
  assumes ws: "world_ok ws" and inv: "link_inv ws wr r sid l"
    and m: "conn_move ws (Some (Acked_stream_data_offset sid (of_nat n))) (snd_side l) x"
    and r: "map_of (streams (fst (snd_side l))) sid = Some r" and n: "lk_acked l + n \<le> lk_got l"
  shows "link_inv ws wr r sid (l\<lparr>snd_side := x, lk_acked := lk_acked l + n,
      lk_sent := lk_sent l @ drop (length (stream_bytes (lk_stream r l)) - n) (stream_bytes (heap (fst x) ! r))\<rparr>)"
proof -
  let ?s = "lk_stream r l" and ?c = "fst (snd_side l)"
  from inv have si: "side_inv ws (snd_side l)" and s: "stream_inv ?s" and len: "r < length (heap ?c)" by (simp_all add: link_inv_def)
  have nf: "n \<le> unat (unacked_size ?s)" using n inv by (simp add: link_inv_def)
  from acknowledge_release [OF s, of n] nf s obtain s' stale new where
    a: "acknowledge (of_nat n) ?s = Inr (s', stale)" "stream_inv s'" "stream_flight s' = drop n (stream_flight ?s)"
      "stream_queued s' = stream_queued ?s @ bufs_bytes new"
    by (auto simp: length_stream_flight)
  have bytes: "stream_bytes s' = drop n (stream_bytes ?s) @ bufs_bytes new"
    using a(3,4) nf s flight_queued [of s'] by (simp add: flight_queued [of ?s, symmetric] length_stream_flight)
  have ua: "unat (unacked_size s') = unat (unacked_size ?s) - n"
    using arg_cong [OF a(3), of length] a(2) s by (simp add: length_stream_flight)
  have le: "n \<le> length (stream_bytes ?s)" using nf s by (simp add: stream_inv_def)
  from m obtain rv where "stream_ack (w_ng ws) sid (of_nat n) ?c = Inr (rv, fst x)" by cases auto
  with r a(1) have "fst x = stream_effects (w_ng ws) (chunk_wakeups ?s s') (put_stream r s' ?c)"
    by (auto simp: stream_ack_def lk_stream_def)
  with len have x: "heap (fst x) ! r = s'" "r < length (heap (fst x))" by (simp_all add: put_stream_def)
  have keep: "stream_id s' = stream_id ?s" "ready s' = ready ?s" using acknowledge_frame [OF a(1)] by auto
  have "drop (lk_acked l + n) (lk_sent l @ bufs_bytes new) = stream_bytes s'"
    using inv bytes n link_got_sent [OF inv] by (simp add: link_inv_def add.commute flip: drop_drop)
  then show ?thesis
    using inv n nf x keep a(2) ua bytes le move_inv [OF ws m si] link_got_sent [OF inv]
    by (simp add: link_inv_def lk_stream_def)
qed

lemma link_step_inv:
  assumes "world_ok ws" and "world_ok wr" and "link_step ws wr r sid l l'" and "link_inv ws wr r sid l"
  shows "link_inv ws wr r sid l'"
  using assms(3)
proof cases
  case (sender_step lab x)
  with sender_step_inv [OF assms(1,4)] show ?thesis by blast
next
  case (ack_step n x)
  with ack_step_inv [OF assms(1,4)] show ?thesis by blast
next
  case (receiver_step lab x)
  have "side_inv wr (rcv_side l)" using assms(4) by (simp add: link_inv_def)
  from move_inv [OF assms(2) receiver_step(2) this] move_received [OF assms(2) receiver_step(2) this receiver_step(3)]
  show ?thesis using assms(4) receiver_step(1) by (simp add: link_inv_def lk_stream_def)
next
  case (deliver_step fin data x n q)
  with deliver_step_inv [OF assms(2,4)] show ?thesis by blast
qed

text \<open>A stream that was just opened, with nothing sent and nothing received.\<close>

definition link_start ::
  "('ng, 'os) world \<Rightarrow> ('ng, 'os) world \<Rightarrow> nat \<Rightarrow> int \<Rightarrow> ('ng, 'os) link \<Rightarrow> bool" where
  "link_start ws wr r sid l \<longleftrightarrow> side_inv ws (snd_side l) \<and> side_inv wr (rcv_side l) \<and>
     map_of (streams (fst (snd_side l))) sid = Some r \<and> stream_bytes (lk_stream r l) = [] \<and> unacked_size (lk_stream r l) = 0 \<and>
     stream_inv (lk_stream r l) \<and> received sid (fst (rcv_side l)) = [] \<and> lk_sent l = [] \<and> lk_acked l = 0 \<and> lk_got l = 0"

lemma link_start_inv: "link_start ws wr r sid l \<Longrightarrow> link_inv ws wr r sid l"
  by (auto simp: link_start_def link_inv_def conn_inv_def streams_inv_def conn_wf_def list_all_iff entry_ok_def
      lk_stream_def dest!: map_of_SomeD)

text \<open>What one send adds.\<close>

lemma sent_by_action:
  assumes "do_action ng (Act_send r b k) c = Inr c'"
  shows "drop (length (stream_bytes (heap c ! r))) (stream_bytes (heap c' ! r)) = b"
  using assms by (auto simp: put_stream_def append_buffer_def stream_bytes_def split: if_splits)

text \<open>
  C5: End to end: two connections with a stream between them; the receiving stream has a data callback whenever data of
  the stream arrives (without one, \<^verbatim>\<open>stream_receive\<close> drops the data), ngtcp2 delivers in order and acknowledges only what it
  delivered, and the sender's queues fit in memory.  In every state these connections can reach, whatever else their applications,
  sockets and timers do, the bytes the data callback at the receiving end was given are, in order and without gap or
  repetition, the first \<open>lk_got\<close> bytes that were sent into the stream; and what is not acknowledged, in particular
  every byte that ngtcp2 still has to deliver, is in the sender's buffers.
\<close>

theorem end_to_end_in_order:
  assumes "world_ok ws" and "world_ok wr" and "link_start ws wr r sid l0" and "(link_step ws wr r sid)\<^sup>*\<^sup>* l0 l"
  shows "received sid (fst (rcv_side l)) = take (lk_got l) (lk_sent l) \<and> lk_got l \<le> length (lk_sent l) \<and>
    drop (lk_acked l) (lk_sent l) = stream_bytes (lk_stream r l) \<and> lk_acked l \<le> lk_got l"
proof -
  from assms(4) have "link_inv ws wr r sid l"
    by (induction rule: rtranclp_induct) (use assms link_start_inv link_step_inv in blast)+
  then show ?thesis using link_got_sent [of ws wr r sid l] by (simp add: link_inv_def)
qed

section \<open>An instance\<close>

text \<open>
  Two connections with a stream each under the id 0, and an ngtcp2 that takes all data it is offered.
\<close>

definition link_ng :: "nat ngtcp2" where
  "link_ng = life_ng\<lparr>ng_writev_stream := (\<lambda>req g. if wr_bufs req = [] then (Wrote [] (- 1) 0, g)
     else (Write_error NG_WRITE_MORE (int (length (concat (wr_bufs req)))), g))\<rparr>"

definition link_world :: "(nat, unit) world" where
  "link_world = \<lparr>w_ng = link_ng, w_app = life_app, w_env = kernel_env 1, w_live = live_ids\<rparr>"

definition link0 :: "(nat, unit) link" where
  "link0 = \<lparr>snd_side = (life_conn1, ()), rcv_side = (life_conn1, ()), lk_sent = [], lk_acked = 0, lk_got = 0\<rparr>"

lemma link_world_ok: "world_ok link_world"
proof -
  have "writev_ok link_ng" by (simp add: writev_ok_def link_ng_def)
  moreover have "ids_ok link_ng live_ids" using life_ng_ok(2) by (simp add: ids_ok_def link_ng_def)
  ultimately show ?thesis by (simp add: world_ok_def link_world_def kernel_env_ok [unfolded One_nat_def])
qed

lemma link0_start: "link_start link_world link_world 0 0 link0"
proof -
  have "conn_inv (kernel_env 1) live_ids life_conn" by (rule make_conn_inv [OF life_make_eq]) simp_all
  from conn_steps_inv [OF kernel_env_ok life_ng_ok life_reach] this have "conn_inv (kernel_env 1) live_ids life_conn1" by simp
  then show ?thesis
    by (simp add: link_start_def link0_def link_world_def life_conn1_fields lk_stream_def received_def set_ready_def stream_new_def
        stream_bytes_def stream_inv_def script_total_def)
qed

definition link_str :: "u64 \<Rightarrow> stream" where
  "link_str n = (set_ready (stream_new (Some 1) None 0))\<lparr>user_buffers := [([1, 2, 3], Owned)], unacked_size := n\<rparr>"

lemma link_str_fields [simp]:
  "sent_fin (link_str n) = False" "is_closing (link_str n) = False" "stream_id (link_str n) = 0"
  "pending (link_str 0) = Inr [[1, 2, 3]]" "wrote 3 (link_str 0) = link_str 3"
  "stream_bytes (link_str n) = [1, 2, 3]" "unacked_size (link_str n) = n" "senders (link_str n) = []"
  by (simp_all add: link_str_def set_ready_def stream_new_def pending_def unsent_def stream_size_def unacked_def buf_size_def
      wrote_def stream_bytes_def)

definition sent_conn :: "nat connection" where
  "sent_conn = life_conn1\<lparr>heap := [link_str 0], io_trigger := True\<rparr>"

definition flushed_conn :: "nat connection" where
  "flushed_conn = life_conn1\<lparr>heap := [link_str 3], io_trigger := False, retransmit_timer := None\<rparr>"

lemma link_send: "do_action link_ng (Act_send 0 [1, 2, 3] Owned) life_conn1 = Inr sent_conn"
  by (simp add: life_conn1_fields append_buffer_def put_stream_def set_ready_def stream_new_def stream_effects_def io_ready_def
      sent_conn_def link_str_def)

lemma life_conn1_sends:
  "cn_ng life_conn1 = 1" "sb_n (batch life_conn1) = 0"
  "length (sb_buf (batch life_conn1)) = NGTCP2_MAX_PMTUD_UDP_PAYLOAD_SIZE * DATAGRAM_BATCH_SIZE"
  by (simp_all add: life_conn1_def get_new_stream_def life_ng_def life_conn_def conn_fresh_def io_ready_def)

lemma link_ng_fields:
  "ng_max_tx_udp_payload_size link_ng g = 1200" "ng_get_expiry link_ng g = - 1" "ng_update_pkt_tx_time link_ng ts g = g"
  "ng_writev_stream link_ng req g = (if wr_bufs req = [] then (Wrote [] (- 1) 0, g)
     else (Write_error NG_WRITE_MORE (int (length (concat (wr_bufs req)))), g))"
  by (simp_all add: link_ng_def life_ng_def sample_ng_def)

lemma link_flush: "io_event (Suc (Suc (Suc 0))) link_ng (kernel_env 1) 0 5 sent_conn () = Some (Inr (flushed_conn, ()))"
proof -
  let ?c = "life_conn1\<lparr>heap := [link_str 0], io_trigger := False\<rparr>" and ?d = "life_conn1\<lparr>heap := [link_str 3], io_trigger := False\<rparr>"
  have c: "sent_conn\<lparr>io_trigger := False\<rparr> = ?c" by (simp add: sent_conn_def)
  have start: "flush_start 0 ?c () = \<lparr>fl_conn = ?c, fl_os = (), fl_strs = [Some 0, None], fl_pos = 0, fl_packets = 0,
      fl_cancelled = False, fl_made = [], fl_handed = []\<rparr>"
    by (simp add: flush_start_def flush_order_def life_conn1_fields)
  have one: "flush_step link_ng (kernel_env 1) k 5 (flush_start 0 ?c ()) =
      Some (Inr (Next ((flush_start 0 ?c ())\<lparr>fl_conn := ?d, fl_strs := [None]\<rparr>)))" for k
    by (simp add: start flush_step_def flush_write_def link_ng_fields life_conn1_sends life_conn1_fields stream_wrote_def
        put_stream_def utils_consts Let_def)
  have two: "flush_step link_ng (kernel_env 1) k 5 ((flush_start 0 ?c ())\<lparr>fl_conn := ?d, fl_strs := [None]\<rparr>) =
      Some (Inr (Next ((flush_start 0 ?c ())\<lparr>fl_conn := ?d, fl_strs := []\<rparr>)))" for k
    by (simp add: start flush_step_def flush_write_def link_ng_fields life_conn1_sends utils_consts Let_def)
  have loop: "flush_loop (Suc (Suc (Suc 0))) link_ng (kernel_env 1) k 5 (flush_start 0 ?c ()) =
      Some (Inr (Leave_loop ((flush_start 0 ?c ())\<lparr>fl_conn := ?d, fl_strs := []\<rparr>)))" for k
    using one [of k] two [of k] by (simp add: start)
  show ?thesis
    unfolding io_event_def on_io_ready_def flush_streams_def c loop
    by (simp add: link_ng_fields n_packets_def life_conn1_sends flush_done_def start schedule_retransmit_def flushed_conn_def)
qed

definition got_conn :: "nat connection" where
  "got_conn = life_conn1\<lparr>calls := [Data_called 1 0 [1, 2]]\<rparr>"

lemma link_receive: "stream_receive link_ng life_app 0 [1, 2] False life_conn1 = Inr (NG_OK, got_conn)"
  by (simp add: stream_receive_def get_stream_def life_conn1_fields call_data_callback_def set_ready_def stream_new_def
      life_app_def receive_done_def got_conn_def link_ng_def life_ng_def sample_ng_def)

definition link1 :: "(nat, unit) link" where
  "link1 = \<lparr>snd_side = (flushed_conn, ()), rcv_side = (got_conn, ()), lk_sent = [1, 2, 3], lk_acked = 0, lk_got = 2\<rparr>"

text \<open>Three bytes are sent, flushed, and two of them delivered.\<close>

lemma link_reach: "(link_step link_world link_world 0 0)\<^sup>*\<^sup>* link0 link1"
proof -
  let ?S = "link_step link_world link_world 0 0"
  let ?a = "link0\<lparr>snd_side := (sent_conn, ()), lk_sent := [1, 2, 3]\<rparr>" and ?b = "link0\<lparr>snd_side := (flushed_conn, ()), lk_sent := [1, 2, 3]\<rparr>"
  have ok: "heap_ok sent_conn" "heap_ok flushed_conn"
    by (simp_all add: heap_ok_def sent_conn_def flushed_conn_def life_conn1_fields stream_inv_def script_total_def)
  have "conn_move link_world None (life_conn1, ()) (sent_conn, ())"
    by (rule move_app [where a = "Act_send 0 [1, 2, 3] Owned"]) (simp only: link_world_def world.simps link_send)
  from sender_step [of link_world None link0 "(sent_conn, ())" 0 link_world 0] this ok
  have 1: "?S link0 ?a"
    by (simp add: link0_def lk_stream_def life_conn1_fields sent_conn_def set_ready_def stream_new_def stream_bytes_def link_str_def)
  have "conn_move link_world None (sent_conn, ()) (flushed_conn, ())"
    by (rule move_io [OF ok(1), of "Suc (Suc (Suc 0))" link_world 0 5]) (simp add: link_world_def link_flush [unfolded One_nat_def])
  from sender_step [of link_world None ?a "(flushed_conn, ())" 0 link_world 0] this ok
  have 2: "?S ?a ?b" by (simp add: lk_stream_def sent_conn_def flushed_conn_def)
  have m: "conn_move link_world (Some (Recv_stream_data False 0 [1, 2])) (rcv_side ?b) (got_conn, ())"
    unfolding link0_def link.simps
    by (rule move_callback [where rv = NG_OK]) (simp_all add: link_world_def link_receive event_ok_def)
  have str: "lk_stream 0 ?b = link_str 3" by (simp add: lk_stream_def flushed_conn_def)
  have "?S ?b (?b\<lparr>rcv_side := (got_conn, ()), lk_got := lk_got ?b + 2\<rparr>)"
    by (rule deliver_step [OF m, where q = 0], unfold str)
      (simp_all add: link0_def life_conn1_fields set_ready_def stream_new_def)
  then have 3: "?S ?b link1" by (simp add: link0_def link1_def numeral_2_eq_2)
  from 1 2 3 show ?thesis by (blast intro: converse_rtranclp_into_rtranclp)
qed

theorem end_to_end_in_order_witness:
  "received 0 got_conn = [1, 2] \<and> received 0 got_conn = take (lk_got link1) (lk_sent link1) \<and>
    drop (lk_acked link1) (lk_sent link1) = stream_bytes (lk_stream 0 link1)"
  using end_to_end_in_order [OF link_world_ok link_world_ok link0_start link_reach]
  by (simp add: link1_def)

end
