(* ===== verification/Quic_Network.thy ===== *)
theory Quic_Network
  imports Quic_Utils
begin

text \<open>
  The network context of \<^verbatim>\<open>include/quic/network.hpp\<close> and \<^verbatim>\<open>src/network.cpp\<close>: the queue through which other
  threads hand jobs to the event loop thread, the map of endpoints and the shutdown.
\<close>

section \<open>The job queue\<close>

text \<open>
  A job is named by a number; \<open>spawns j\<close> are the jobs that job \<open>j\<close> queues with \<^verbatim>\<open>call_soon\<close> while it runs.
  \<open>unwoken\<close> counts the threads that have put a job into the queue and not yet activated the waker (the
  activation happens after the lock is released), \<open>swapped\<close> is the local queue of a running
  \<^verbatim>\<open>process_job_queue\<close>.  \<open>posted\<close> and \<open>executed\<close> record history.
\<close>

record job_net =
  job_queue :: "nat list"
  job_waker :: bool
  unwoken :: nat
  swapped :: "nat list"
  posted :: "nat list"
  executed :: "nat list"

definition job_net_init :: job_net where
  "job_net_init = \<lparr>job_queue = [], job_waker = False, unwoken = 0, swapped = [], posted = [], executed = []\<rparr>"

text \<open>\<^verbatim>\<open>call_soon\<close> in its two parts.\<close>

definition enqueue_job :: "nat \<Rightarrow> job_net \<Rightarrow> job_net" where
  "enqueue_job j n = n\<lparr>job_queue := job_queue n @ [j], posted := posted n @ [j], unwoken := unwoken n + 1\<rparr>"

definition activate_waker :: "job_net \<Rightarrow> job_net" where
  "activate_waker n = n\<lparr>job_waker := True, unwoken := unwoken n - 1\<rparr>"

definition call_soon :: "nat \<Rightarrow> job_net \<Rightarrow> job_net" where
  "call_soon j n = activate_waker (enqueue_job j n)"

text \<open>\<^verbatim>\<open>call\<close>: on the event loop thread the job runs at once.\<close>

definition run_job :: "(nat \<Rightarrow> nat list) \<Rightarrow> nat \<Rightarrow> job_net \<Rightarrow> job_net" where
  "run_job spawns j n = fold call_soon (spawns j) (n\<lparr>executed := executed n @ [j]\<rparr>)"

definition net_call :: "(nat \<Rightarrow> nat list) \<Rightarrow> bool \<Rightarrow> nat \<Rightarrow> job_net \<Rightarrow> job_net" where
  "net_call spawns in_event_loop j n = (if in_event_loop then run_job spawns j n else call_soon j n)"

text \<open>The waker event takes the whole queue under the lock and then runs it outside the lock.\<close>

definition swap_queue :: "job_net \<Rightarrow> job_net" where
  "swap_queue n = n\<lparr>job_waker := False, swapped := job_queue n, job_queue := []\<rparr>"

fun run_swapped :: "(nat \<Rightarrow> nat list) \<Rightarrow> nat list \<Rightarrow> job_net \<Rightarrow> job_net" where
  "run_swapped spawns [] n = n\<lparr>swapped := []\<rparr>"
| "run_swapped spawns (j # js) n = run_swapped spawns js (run_job spawns j (n\<lparr>swapped := js\<rparr>))"

definition process_job_queue :: "(nat \<Rightarrow> nat list) \<Rightarrow> bool \<Rightarrow> job_net \<Rightarrow> job_net result" where
  "process_job_queue spawns in_event_loop n =
     (if \<not> in_event_loop then Inl Assertion_failed
      else let n1 = swap_queue n in Inr (run_swapped spawns (swapped n1) n1))"

text \<open>
  The interleavings: other threads enqueue and activate at any time, also between two jobs of a running
  \<^verbatim>\<open>process_job_queue\<close>.
\<close>

inductive job_step :: "(nat \<Rightarrow> nat list) \<Rightarrow> job_net \<Rightarrow> job_net \<Rightarrow> bool" for spawns where
  other_enqueue: "job_step spawns n (enqueue_job j n)"
| other_activate: "0 < unwoken n \<Longrightarrow> job_step spawns n (activate_waker n)"
| loop_wakes: "job_waker n \<Longrightarrow> swapped n = [] \<Longrightarrow> job_step spawns n (swap_queue n)"
| loop_runs: "swapped n = j # js \<Longrightarrow> job_step spawns n (run_job spawns j (n\<lparr>swapped := js\<rparr>))"

section \<open>Order and wake-ups\<close>

text \<open>Everything posted is executed, being executed or queued, in the order in which it was posted, and
  a queue with jobs in it has been or is about to be announced to the loop.\<close>

definition jobs_inv :: "job_net \<Rightarrow> bool" where
  "jobs_inv n \<longleftrightarrow> executed n @ swapped n @ job_queue n = posted n \<and>
     (job_queue n \<noteq> [] \<longrightarrow> job_waker n \<or> 0 < unwoken n)"

lemma jobs_inv_init: "jobs_inv job_net_init"
  by (simp add: jobs_inv_def job_net_init_def)

lemma jobs_inv_enqueue: "jobs_inv n \<Longrightarrow> jobs_inv (enqueue_job j n)"
  by (simp add: jobs_inv_def enqueue_job_def flip: append_assoc)

lemma jobs_inv_activate: "jobs_inv n \<Longrightarrow> jobs_inv (activate_waker n)"
  by (simp add: jobs_inv_def activate_waker_def)

lemma jobs_inv_soon: "jobs_inv n \<Longrightarrow> jobs_inv (fold call_soon js n)"
  by (induction js arbitrary: n) (simp_all add: call_soon_def jobs_inv_enqueue jobs_inv_activate)

lemma jobs_inv_run:
  "jobs_inv n \<Longrightarrow> swapped n = j # js \<Longrightarrow> jobs_inv (run_job spawns j (n\<lparr>swapped := js\<rparr>))"
  unfolding run_job_def by (rule jobs_inv_soon) (simp add: jobs_inv_def)

lemma jobs_inv_swap: "jobs_inv n \<Longrightarrow> swapped n = [] \<Longrightarrow> jobs_inv (swap_queue n)"
  by (simp add: jobs_inv_def swap_queue_def)

lemma job_step_inv: "job_step spawns n n' \<Longrightarrow> jobs_inv n \<Longrightarrow> jobs_inv n'"
  by (induction rule: job_step.induct)
    (auto intro: jobs_inv_enqueue jobs_inv_activate jobs_inv_swap jobs_inv_run)

text \<open>
  C10: Jobs handed to the event loop from other threads are executed in the order in which they were
  posted, each at most once and none is dropped, under every interleaving of posting threads with the
  loop; and whenever a job waits in the queue the waker is active or the posting thread is about to
  activate it, so that no wake-up is lost.
\<close>

theorem jobs_run_in_order:
  assumes "(job_step spawns)\<^sup>*\<^sup>* job_net_init n"
  shows "executed n @ swapped n @ job_queue n = posted n \<and> (job_queue n \<noteq> [] \<longrightarrow> job_waker n \<or> 0 < unwoken n)"
proof -
  from assms have "jobs_inv n"
    by (induction rule: rtranclp_induct) (auto intro: jobs_inv_init job_step_inv)
  then show ?thesis by (simp add: jobs_inv_def)
qed

section \<open>Every posted job runs\<close>

lemma soon_swapped [simp]: "swapped (fold call_soon js n) = swapped n"
  and soon_executed [simp]: "executed (fold call_soon js n) = executed n"
  and soon_queue: "job_queue (fold call_soon js n) = job_queue n @ js"
  and soon_waker: "job_waker (fold call_soon js n) = (job_waker n \<or> js \<noteq> [])"
  by (induction js arbitrary: n) (simp_all add: call_soon_def enqueue_job_def activate_waker_def)

lemma run_swapped_steps:
  "swapped n = js \<Longrightarrow> (job_step spawns)\<^sup>*\<^sup>* n (run_swapped spawns js n)"
proof (induction js arbitrary: n)
  case (Cons j js)
  let ?n = "run_job spawns j (n\<lparr>swapped := js\<rparr>)"
  have "job_step spawns n ?n" using Cons.prems by (rule loop_runs)
  moreover have "swapped ?n = js" by (simp add: run_job_def)
  ultimately show ?case using Cons.IH [of ?n] by (simp add: converse_rtranclp_into_rtranclp)
next
  case Nil
  then have "run_swapped spawns [] n = n" by simp
  then show ?case by simp
qed

lemma run_swapped_done:
  "executed (run_swapped spawns js n) = executed n @ js \<and> swapped (run_swapped spawns js n) = [] \<and>
   job_queue (run_swapped spawns js n) = job_queue n @ concat (map spawns js)"
  by (induction js arbitrary: n) (simp_all add: run_job_def soon_queue)

text \<open>
  One run of \<^verbatim>\<open>process_job_queue\<close> executes exactly the jobs that were queued when it started, in order,
  and leaves in the queue exactly the jobs those jobs posted themselves, in order; it is one of the
  interleavings of the step relation.
\<close>

theorem process_job_queue_drains:
  assumes "job_waker n" and "swapped n = []"
  shows "\<exists>n'. process_job_queue spawns True n = Inr n' \<and> (job_step spawns)\<^sup>*\<^sup>* n n' \<and>
    executed n' = executed n @ job_queue n \<and> swapped n' = [] \<and> job_queue n' = concat (map spawns (job_queue n))"
proof -
  let ?n1 = "swap_queue n"
  let ?n' = "run_swapped spawns (swapped ?n1) ?n1"
  have "job_step spawns n ?n1" using assms by (rule loop_wakes)
  then have "(job_step spawns)\<^sup>*\<^sup>* n ?n'"
    using run_swapped_steps [of ?n1 "swapped ?n1" spawns] by (simp add: converse_rtranclp_into_rtranclp)
  with run_swapped_done [of spawns "swapped ?n1" ?n1] show ?thesis
    by (simp add: process_job_queue_def swap_queue_def)
qed

theorem jobs_run_in_order_witness:
  "\<exists>n. (job_step (\<lambda>_. []))\<^sup>*\<^sup>* job_net_init n \<and> executed n = [7] \<and> job_queue n = [8] \<and>
     executed n @ swapped n @ job_queue n = posted n \<and> (job_queue n \<noteq> [] \<longrightarrow> job_waker n \<or> 0 < unwoken n)"
proof -
  let ?s = "job_step (\<lambda>_. [])"
  let ?n1 = "enqueue_job 7 job_net_init"
  let ?n2 = "activate_waker ?n1"
  let ?n3 = "swap_queue ?n2"
  let ?n4 = "enqueue_job 8 ?n3"
  let ?n5 = "run_job (\<lambda>_. []) 7 (?n4\<lparr>swapped := []\<rparr>)"
  have "?s\<^sup>*\<^sup>* job_net_init ?n1" by (rule r_into_rtranclp, rule other_enqueue)
  also have "?s\<^sup>*\<^sup>* ?n1 ?n2" by (rule r_into_rtranclp, rule other_activate) (simp add: enqueue_job_def)
  also have "?s\<^sup>*\<^sup>* ?n2 ?n3"
    by (rule r_into_rtranclp, rule loop_wakes) (simp_all add: activate_waker_def enqueue_job_def job_net_init_def)
  also have "?s\<^sup>*\<^sup>* ?n3 ?n4" by (rule r_into_rtranclp, rule other_enqueue)
  also have "?s\<^sup>*\<^sup>* ?n4 ?n5"
    by (rule r_into_rtranclp, rule loop_runs)
      (simp add: activate_waker_def enqueue_job_def job_net_init_def swap_queue_def)
  finally have r: "?s\<^sup>*\<^sup>* job_net_init ?n5" .
  moreover have "executed ?n5 = [7]" "job_queue ?n5 = [8]"
    by (simp_all add: run_job_def activate_waker_def enqueue_job_def job_net_init_def swap_queue_def)
  ultimately show ?thesis using jobs_run_in_order [OF r] by blast
qed

theorem process_job_queue_drains_witness:
  "\<exists>n'. process_job_queue (\<lambda>j. if j = 1 then [5] else []) True (call_soon 2 (call_soon 1 job_net_init)) = Inr n' \<and>
     executed n' = [1, 2] \<and> job_queue n' = [5]"
  using process_job_queue_drains [of "call_soon 2 (call_soon 1 job_net_init)" "\<lambda>j. if j = 1 then [5] else []"]
  by (auto simp: call_soon_def activate_waker_def enqueue_job_def job_net_init_def)

section \<open>Endpoints and shutdown\<close>

text \<open>
  The callback libevent's log messages go to: it logs the message at its level and then aborts, whatever
  the level.
\<close>

datatype ev_severity = EVENT_LOG_DEBUG | EVENT_LOG_MSG | EVENT_LOG_WARN | EVENT_LOG_ERR

definition libevent_log :: "ev_severity \<Rightarrow> string \<Rightarrow> (ev_severity \<times> string) list \<Rightarrow> (ev_severity \<times> string) list \<times> unit result" where
  "libevent_log severity msg logged = (logged @ [(severity, msg)], Inl Process_abort)"

text \<open>
  \<open>'ep\<close> is the endpoint object; \<open>None\<close> in the map is a null pointer.  \<open>fulfilled\<close> lists the promises set so
  far, \<open>close_jobs\<close> the shutdown jobs queued from other threads.
\<close>

record 'ep network =
  endpoint_map :: "(address \<times> 'ep option) list"
  running :: bool
  own_thread :: bool
  loop_exited :: bool
  close_jobs :: "(nat \<times> bool) list"
  fulfilled :: "nat list"

definition addr_find :: "address \<Rightarrow> (address \<times> 'v) list \<Rightarrow> 'v option" where
  "addr_find a m = map_option snd (find (\<lambda>e. address_eq (fst e) a) m)"

text \<open>
  \<^verbatim>\<open>Network::endpoint\<close>: \<^verbatim>\<open>emplace\<close> with a null pointer (the hash asserts that the address is IPv4 or IPv6), then
  the construction \<open>mk\<close> of the endpoint, which may throw and leaves the null entry behind.
\<close>

definition net_endpoint ::
  "(address \<Rightarrow> 'ep result) \<Rightarrow> address \<Rightarrow> 'ep network \<Rightarrow> 'ep option result \<times> 'ep network" where
  "net_endpoint mk a n =
     (if \<not> (is_ipv4 a \<or> is_ipv6 a) then (Inl Assertion_failed, n)
      else case addr_find a (endpoint_map n) of
        Some ep \<Rightarrow> (Inr ep, n)
      | None \<Rightarrow>
          (case mk a of
             Inl f \<Rightarrow> (Inl f, n\<lparr>endpoint_map := endpoint_map n @ [(a, None)]\<rparr>)
           | Inr ep \<Rightarrow> (Inr (Some ep), n\<lparr>endpoint_map := endpoint_map n @ [(a, Some ep)]\<rparr>)))"

definition close_final :: "nat \<Rightarrow> 'ep network \<Rightarrow> 'ep network" where
  "close_final p n = n\<lparr>endpoint_map := [], loop_exited := loop_exited n \<or> own_thread n, fulfilled := fulfilled n @ [p]\<rparr>"

text \<open>\<open>close_conns\<close> is \<^verbatim>\<open>Endpoint::close_conns\<close>.  The job runs on the event loop thread, where \<^verbatim>\<open>call\<close> is immediate.\<close>

fun close_endpoints :: "('ep \<Rightarrow> unit result) \<Rightarrow> (address \<times> 'ep option) list \<Rightarrow> unit result" where
  "close_endpoints close_conns [] = Inr ()"
| "close_endpoints close_conns ((a, None) # m) = Inl Null_dereference"
| "close_endpoints close_conns ((a, Some ep) # m) =
     and_then (close_conns ep) (\<lambda>_. close_endpoints close_conns m)"

definition close_all :: "('ep \<Rightarrow> unit result) \<Rightarrow> nat \<Rightarrow> 'ep network \<Rightarrow> 'ep network result" where
  "close_all close_conns p n = and_then (close_endpoints close_conns (endpoint_map n)) (\<lambda>_. Inr (close_final p n))"

text \<open>The job of \<^verbatim>\<open>close\<close> captures its parameter by reference; \<open>alive\<close> is whether \<^verbatim>\<open>close\<close> is still running.\<close>

definition close_job :: "('ep \<Rightarrow> unit result) \<Rightarrow> bool \<Rightarrow> nat \<times> bool \<Rightarrow> 'ep network \<Rightarrow> 'ep network result" where
  "close_job close_conns alive j n =
     (if endpoint_map n = [] then Inr (close_final (fst j) n)
      else if \<not> alive then Inl Use_of_destroyed_object
      else if \<not> snd j then Inr (close_final (fst j) n)
      else close_all close_conns (fst j) n)"

definition net_close :: "('ep \<Rightarrow> unit result) \<Rightarrow> bool \<Rightarrow> nat \<Rightarrow> bool \<Rightarrow> 'ep network \<Rightarrow> 'ep network result" where
  "net_close close_conns in_event_loop p graceful n =
     (if \<not> running n then Inr (n\<lparr>fulfilled := fulfilled n @ [p]\<rparr>)
      else let n1 = n\<lparr>running := False\<rparr>
           in if in_event_loop then close_job close_conns True (p, graceful) n1
              else Inr (n1\<lparr>close_jobs := close_jobs n1 @ [(p, graceful)]\<rparr>))"

lemma addr_find_snoc:
  "addr_find a (m @ [(b, v)]) = (case addr_find a m of Some x \<Rightarrow> Some x | None \<Rightarrow> if address_eq b a then Some v else None)"
  by (induction m) (auto simp: addr_find_def)

lemma addr_find_cong: "address_eq a b \<Longrightarrow> addr_find a m = addr_find b m"
proof -
  assume ab: "address_eq a b"
  have "address_eq k a = address_eq k b" for k
    using ab address_eq_trans address_eq_sym by blast
  then show ?thesis by (simp add: addr_find_def)
qed

text \<open>
  Asking for an endpoint twice with equal addresses gives the same object, and the second time changes
  nothing.
\<close>

theorem endpoint_shared:
  assumes "net_endpoint mk a n = (Inr (Some ep), n1)" and "address_eq a b"
  shows "net_endpoint mk b n1 = (Inr (Some ep), n1)"
proof -
  have "is_ipv4 b \<or> is_ipv6 b" using assms(2) by (auto simp: address_eq_def split: if_splits)
  with assms addr_find_cong [OF assms(2), of "endpoint_map n"] show ?thesis
    by (auto simp: net_endpoint_def addr_find_snoc split: if_splits option.splits sum.splits)
qed

text \<open>
  When the construction of an endpoint throws (its address cannot be bound, say), the map keeps a null
  entry, and asking for the same address again returns a null pointer without any error.
\<close>

theorem endpoint_null_after_throw:
  assumes "is_ipv4 a \<or> is_ipv6 a" and "addr_find a (endpoint_map n) = None" and "mk a = Inl f"
  shows "\<exists>n1. net_endpoint mk a n = (Inl f, n1) \<and> net_endpoint mk' a n1 = (Inr None, n1)"
  using assms address_eq_refl [OF assms(1)] by (simp add: net_endpoint_def addr_find_snoc)

text \<open>
  Closing a running network from the event loop thread, with endpoints whose connections can be closed,
  removes all endpoints, ends a loop the network owns and fulfils the promise exactly once; closing again
  only fulfils the new promise.
\<close>

theorem net_close_once:
  assumes "running n" and "close_endpoints close_conns (endpoint_map n) = Inr ()"
  shows "\<exists>n1. net_close close_conns True p graceful n = Inr n1 \<and> endpoint_map n1 = [] \<and> \<not> running n1 \<and>
    fulfilled n1 = fulfilled n @ [p] \<and> (own_thread n \<longrightarrow> loop_exited n1) \<and>
    net_close close_conns in_loop q g n1 = Inr (n1\<lparr>fulfilled := fulfilled n @ [p, q]\<rparr>)"
proof -
  let ?n1 = "close_final p (n\<lparr>running := False\<rparr>)"
  have "net_close close_conns True p graceful n = Inr ?n1"
    using assms by (simp add: net_close_def close_job_def close_all_def Let_def)
  then show ?thesis by (intro exI [of _ ?n1]) (simp add: net_close_def close_final_def)
qed

text \<open>
  Closing from another thread queues a job that refers to a parameter of \<^verbatim>\<open>close\<close>: if the network has
  endpoints and the job runs after \<^verbatim>\<open>close\<close> has returned, it reads a variable that no longer exists.
\<close>

theorem net_close_deferred_dangling:
  assumes "running n" and "endpoint_map n \<noteq> []"
  shows "\<exists>n1. net_close close_conns False p graceful n = Inr n1 \<and>
    close_job close_conns False (last (close_jobs n1)) n1 = Inl Use_of_destroyed_object"
  using assms by (simp add: net_close_def close_job_def)

definition sample_net :: "nat network" where
  "sample_net = \<lparr>endpoint_map = [(address_default, Some 3)], running = True, own_thread = True, loop_exited = False,
     close_jobs = [], fulfilled = []\<rparr>"

lemma address_default_ok: "is_ipv6 address_default"
  by (simp add: is_ipv6_def address_default_def zero_sockaddr_def)

theorem endpoint_shared_witness:
  "net_endpoint (\<lambda>a. Inr 9) address_default sample_net = (Inr (Some 3), sample_net)"
proof -
  have "address_eq address_default address_default" by (simp add: address_eq_refl address_default_ok)
  moreover from this have "net_endpoint (\<lambda>a. Inr 9) address_default sample_net = (Inr (Some 3), sample_net)"
    by (simp add: net_endpoint_def sample_net_def addr_find_def address_default_ok)
  ultimately show ?thesis using endpoint_shared by blast
qed

theorem endpoint_null_after_throw_witness:
  "\<exists>n1. net_endpoint (\<lambda>a. Inl (System_error 98)) address_default (sample_net\<lparr>endpoint_map := []\<rparr>) = (Inl (System_error 98), n1) \<and>
     net_endpoint (\<lambda>a. Inr (3 :: nat)) address_default n1 = (Inr None, n1)"
  by (rule endpoint_null_after_throw) (simp_all add: address_default_ok addr_find_def)

theorem net_close_once_witness:
  "\<exists>n1. net_close (\<lambda>ep. Inr ()) True 1 True sample_net = Inr n1 \<and> endpoint_map n1 = [] \<and> \<not> running n1 \<and>
    fulfilled n1 = fulfilled sample_net @ [1] \<and> (own_thread sample_net \<longrightarrow> loop_exited n1) \<and>
    net_close (\<lambda>ep. Inr ()) False 2 True n1 = Inr (n1\<lparr>fulfilled := fulfilled sample_net @ [1, 2]\<rparr>)"
  by (rule net_close_once) (simp_all add: sample_net_def)

theorem net_close_deferred_dangling_witness:
  "\<exists>n1. net_close (\<lambda>ep. Inr ()) False 1 True sample_net = Inr n1 \<and>
    close_job (\<lambda>ep. Inr ()) False (last (close_jobs n1)) n1 = Inl Use_of_destroyed_object"
  by (rule net_close_deferred_dangling) (simp_all add: sample_net_def)

end
