(* ===== verification/Quic_Endpoint.thy ===== *)
theory Quic_Endpoint
  imports Quic_Conn_Life
begin

text \<open>
  The endpoint of \<^verbatim>\<open>include/quic/endpoint.hpp\<close> and \<^verbatim>\<open>src/endpoint.cpp\<close>: the connections by connection id,
  the dispatch of received packets to them, accepting and making connections, closing, draining and
  deleting them.
\<close>

section \<open>State and parameters\<close>

text \<open>
  What \<^verbatim>\<open>ngtcp2_pkt_decode_version_cid\<close> finds in a packet, and the functions of ngtcp2 that work on packets
  without a connection, with what \<^verbatim>\<open>make_conn\<close> needs of ngtcp2, of the TLS library, of the clock and of the
  uninitialised memory the send arrays come from.
\<close>

record version_cid =
  vc_dcid :: bytes
  vc_scid :: bytes

record 'ng pkt_api =
  pk_decode :: "bytes \<Rightarrow> ng_rv \<times> version_cid"
  pk_accept :: "bytes \<Rightarrow> bool \<times> pkt_hd"
  pk_write_version_negotiation :: "nat \<Rightarrow> version_cid \<Rightarrow> u32 list \<Rightarrow> int \<times> bytes"
  pk_ver_min :: u32
  pk_ver_max :: u32
  pk_conn_new ::
    "direction \<Rightarrow> connection_id \<Rightarrow> connection_id \<Rightarrow> path \<Rightarrow> settings \<Rightarrow> transport_params \<Rightarrow> 'ng option"
  pk_tls :: "bool \<Rightarrow> 'ng \<Rightarrow> 'ng result"
  pk_now :: u64
  pk_junk :: bytes
  pk_junk_sizes :: "nat list"

definition pk_make_conn ::
  "'ng pkt_api \<Rightarrow> connection_id \<Rightarrow> connection_id \<Rightarrow> path \<Rightarrow> conn_ctx \<Rightarrow> direction \<Rightarrow> pkt_hd option \<Rightarrow>
   'ng connection result" where
  "pk_make_conn pk scid dcid p ctx dir hdr =
     make_conn (pk_conn_new pk) (pk_tls pk) (pk_now pk) (pk_junk pk) (pk_junk_sizes pk) scid dcid p ctx dir hdr"

text \<open>
  The map of connections is keyed by the bytes of the connection id, which is what \<^verbatim>\<open>operator==\<close> compares;
  \<open>None\<close> is a null pointer.  \<open>draining_map\<close> is ordered by time.  \<open>waiting\<close> are the packets queued with
  \<^verbatim>\<open>when_writeable\<close>, each with the connection id its callback would delete; \<open>dropped\<close> records the
  connections the endpoint gave up, \<open>sent\<close> the one-shot packets given to the socket.
\<close>

record 'ng endpoint =
  accepting_inbound :: bool
  inbound_ctx :: "conn_ctx option"
  outbound_ctx :: "conn_ctx option"
  conns :: "(bytes \<times> 'ng connection option) list"
  draining_map :: "(u64 \<times> connection_id) list"
  waiting :: "(path \<times> bytes \<times> connection_id option) list"
  sent :: "(path \<times> bytes) list"
  dropped :: "'ng connection list"

definition cid_key :: "connection_id \<Rightarrow> bytes" where
  "cid_key c = take (cid_datalen c) (cid_data c)"

definition get_conn :: "connection_id \<Rightarrow> 'ng endpoint \<Rightarrow> 'ng connection option" where
  "get_conn cid ep = (case map_of (conns ep) (cid_key cid) of Some c \<Rightarrow> c | None \<Rightarrow> None)"

definition put_conn :: "'ng connection \<Rightarrow> 'ng endpoint \<Rightarrow> 'ng endpoint" where
  "put_conn c ep = ep\<lparr>conns := umap_put (cid_key (cn_source_cid c)) (Some c) (conns ep)\<rparr>"

definition get_all_conns :: "direction option \<Rightarrow> 'ng endpoint \<Rightarrow> 'ng connection option list result" where
  "get_all_conns d ep =
     (case d of
        None \<Rightarrow> Inr (map snd (conns ep))
      | Some dir \<Rightarrow>
          if list_ex (\<lambda>e. snd e = None) (conns ep) then Inl Null_dereference
          else Inr (filter (\<lambda>c. case c of Some x \<Rightarrow> cn_dir x = dir | None \<Rightarrow> False) (map snd (conns ep))))"

section \<open>Deleting and draining\<close>

definition delete_connection :: "connection_id \<Rightarrow> 'ng endpoint \<Rightarrow> 'ng endpoint result" where
  "delete_connection cid ep =
     (case map_of (conns ep) (cid_key cid) of
        None \<Rightarrow> Inr ep
      | Some None \<Rightarrow> Inl Null_dereference
      | Some (Some c) \<Rightarrow>
          Inr (ep\<lparr>conns := assoc_erase (cid_key cid) (conns ep), dropped := dropped ep @ [call_closing c]\<rparr>))"

text \<open>The deadline is three probe timeouts from now; \<^verbatim>\<open>emplace\<close> keeps an entry that has the same deadline.\<close>

definition drain_connection :: "'ng ngtcp2 \<Rightarrow> u64 \<Rightarrow> 'ng connection \<Rightarrow> 'ng endpoint \<Rightarrow> 'ng endpoint" where
  "drain_connection ng now c ep =
     (if draining c then put_conn c ep
      else let c1 = (call_closing c)\<lparr>draining := True\<rparr>
           in (put_conn c1 ep)\<lparr>draining_map :=
                 fst (omap_emplace (now + ng_get_pto ng (cn_ng c1) * 3) (cn_source_cid c1) (draining_map ep))\<rparr>)"

text \<open>
  \<^verbatim>\<open>check_timeouts\<close>: the iterator to the first entry is taken once, erased in the loop, and read again by
  the loop condition unless nothing is left.
\<close>

definition check_timeouts :: "u64 \<Rightarrow> 'ng endpoint \<Rightarrow> 'ng endpoint result" where
  "check_timeouts now ep =
     (case draining_map ep of
        [] \<Rightarrow> Inr ep
      | (t, cid) # rest \<Rightarrow>
          if \<not> t < now then Inr ep
          else
            let ep1 =
              (case map_of (conns ep) (cid_key cid) of
                 None \<Rightarrow> ep
               | Some x \<Rightarrow> ep\<lparr>conns := assoc_erase (cid_key cid) (conns ep),
                              dropped := dropped ep @ (case x of None \<Rightarrow> [] | Some c \<Rightarrow> [c])\<rparr>)
            in if rest = [] then Inr (ep1\<lparr>draining_map := []\<rparr>) else Inl Use_of_erased_iterator)"

section \<open>One-shot packets\<close>

text \<open>\<^verbatim>\<open>send_or_queue_packet\<close> with the callback of \<^verbatim>\<open>close_connection\<close>, which deletes the connection on failure.\<close>

definition ep_send_packet ::
  "'os udp_env \<Rightarrow> path \<Rightarrow> bytes \<Rightarrow> connection_id option \<Rightarrow> 'ng endpoint \<Rightarrow> 'os \<Rightarrow>
   ('ng endpoint \<times> 'os) result option" where
  "ep_send_packet env p buf cb ep os =
     obind (send_or_queue_packet (ue_socket env) (ue_max_batch env) (ue_send env) buf (cb \<noteq> None) os)
       (\<lambda>(queued, calls, os').
          let ep1 = ep\<lparr>sent := sent ep @ (if ue_socket env then [(p, buf)] else []),
                       waiting := waiting ep @ (if queued then [(p, buf, cb)] else [])\<rparr>
          in case (calls, cb) of
               (rv # _, Some cid) \<Rightarrow>
                 if io_failure rv
                 then Some (and_then (delete_connection cid ep1) (\<lambda>ep2. Inr (ep2, os')))
                 else Some (Inr (ep1, os'))
             | _ \<Rightarrow> Some (Inr (ep1, os')))"

text \<open>
  The write event runs the queued packets' callbacks, each of which calls \<^verbatim>\<open>send_or_queue_packet\<close> again
  and may queue its packet anew.
\<close>

fun ep_resend ::
  "'os udp_env \<Rightarrow> (path \<times> bytes \<times> connection_id option) list \<Rightarrow> 'ng endpoint \<Rightarrow> 'os \<Rightarrow>
   ('ng endpoint \<times> 'os) result option" where
  "ep_resend env [] ep os = Some (Inr (ep, os))"
| "ep_resend env ((p, buf, cb) # ws) ep os =
     obind (ep_send_packet env p buf cb ep os) (\<lambda>(ep1, os1). ep_resend env ws ep1 os1)"

definition ep_writeable :: "'os udp_env \<Rightarrow> 'ng endpoint \<Rightarrow> 'os \<Rightarrow> ('ng endpoint \<times> 'os) result option" where
  "ep_writeable env ep os = ep_resend env (waiting ep) (ep\<lparr>waiting := []\<rparr>) os"

text \<open>The versions offered: a reserved one and all from the lowest to the highest ngtcp2 supports.\<close>

definition negotiation_versions :: "u32 \<Rightarrow> u32 \<Rightarrow> u32 list" where
  "negotiation_versions lo hi = 0x1a2a3a4a # map (\<lambda>i. lo + of_nat i) [0..<unat (hi - lo) + 1]"

text \<open>The whole buffer is sent, of which ngtcp2 wrote a prefix.\<close>

definition fill_buffer :: "bytes \<Rightarrow> bytes" where
  "fill_buffer written = written @ replicate (max_payload_size - length written) 0"

definition send_version_negotiation ::
  "'ng pkt_api \<Rightarrow> 'os udp_env \<Rightarrow> version_cid \<Rightarrow> path \<Rightarrow> 'ng endpoint \<Rightarrow> 'os \<Rightarrow> ('ng endpoint \<times> 'os) result option" where
  "send_version_negotiation pk env vid p ep os =
     (let (nwrite, out) = pk_write_version_negotiation pk max_payload_size vid
        (negotiation_versions (pk_ver_min pk) (pk_ver_max pk))
      in if nwrite \<le> 0 then Some (Inr (ep, os))
         else ep_send_packet env p (fill_buffer out) None ep os)"

section \<open>Closing\<close>

definition close_connection ::
  "'ng ngtcp2 \<Rightarrow> 'os udp_env \<Rightarrow> u64 \<Rightarrow> ng_rv \<Rightarrow> string \<Rightarrow> 'ng connection \<Rightarrow> 'ng endpoint \<Rightarrow> 'os \<Rightarrow>
   ('ng endpoint \<times> 'os) result option" where
  "close_connection ng env now code msg c ep os =
     (if closing c \<or> draining c then Some (Inr (put_conn c ep, os))
      else if code = NG_IDLE_CLOSE
      then Some (and_then (delete_connection (cn_source_cid c) (put_conn c ep)) (\<lambda>ep1. Inr (ep1, os)))
      else
        let (written, out, g) = ng_write_connection_close ng code msg max_payload_size now (cn_ng c);
            ep1 = put_conn (c\<lparr>cn_ng := g\<rparr>) ep
        in if written \<le> 0
           then Some (and_then (delete_connection (cn_source_cid c) ep1) (\<lambda>ep2. Inr (ep2, os)))
           else if int max_payload_size < written then Some (Inl Assertion_failed)
           else ep_send_packet env (cn_path c) (fill_buffer out) (Some (cn_source_cid c)) ep1 os)"

text \<open>
  \<^verbatim>\<open>close_conns\<close> iterates over the map while \<^verbatim>\<open>close_connection\<close> may erase the current entry.
\<close>

fun close_conns_loop ::
  "'ng ngtcp2 \<Rightarrow> 'os udp_env \<Rightarrow> u64 \<Rightarrow> direction option \<Rightarrow> bytes list \<Rightarrow> 'ng endpoint \<Rightarrow> 'os \<Rightarrow>
   ('ng endpoint \<times> 'os) result option" where
  "close_conns_loop ng env now d [] ep os = Some (Inr (ep, os))"
| "close_conns_loop ng env now d (k # ks) ep os =
     (case map_of (conns ep) k of
        None \<Rightarrow> Some (Inl Use_of_erased_iterator)
      | Some None \<Rightarrow> Some (Inl Null_dereference)
      | Some (Some c) \<Rightarrow>
          if d \<noteq> None \<and> d \<noteq> Some (cn_dir c) then close_conns_loop ng env now d ks ep os
          else obind (close_connection ng env now NG_OK ''NO_ERROR'' c ep os) (\<lambda>(ep1, os1).
            if map_of (conns ep1) k = None then Some (Inl Use_of_erased_iterator)
            else close_conns_loop ng env now d ks ep1 os1))"

definition close_conns ::
  "'ng ngtcp2 \<Rightarrow> 'os udp_env \<Rightarrow> u64 \<Rightarrow> direction option \<Rightarrow> 'ng endpoint \<Rightarrow> 'os \<Rightarrow> ('ng endpoint \<times> 'os) result option" where
  "close_conns ng env now d ep os = close_conns_loop ng env now d (map fst (conns ep)) ep os"

section \<open>Receiving\<close>

text \<open>Reading a packet: ngtcp2 makes its callbacks, and a failing callback becomes its return value.\<close>

definition conn_read_pkt ::
  "'ng ngtcp2 \<Rightarrow> app \<Rightarrow> packet \<Rightarrow> u64 \<Rightarrow> 'ng connection \<Rightarrow> (ng_rv \<times> 'ng connection) result" where
  "conn_read_pkt ng ap pkt ts c =
     (let (es, rv, g) = ng_read_pkt ng pkt ts (cn_ng c)
      in and_then (ng_callbacks ng ap es (c\<lparr>cn_ng := g\<rparr>)) (\<lambda>(cb, c1).
           Inr (if cb = NG_OK then rv else NG_CALLBACK_FAILURE, c1)))"

definition read_packet ::
  "'ng ngtcp2 \<Rightarrow> app \<Rightarrow> 'os udp_env \<Rightarrow> u64 \<Rightarrow> packet \<Rightarrow> 'ng connection \<Rightarrow> 'ng endpoint \<Rightarrow> 'os \<Rightarrow>
   (io_result \<times> 'ng endpoint \<times> 'os) result option" where
  "read_packet ng ap env now pkt c ep os =
     obind (Some (conn_read_pkt ng ap pkt now c)) (\<lambda>(rv, c1).
     obind
       (case rv of
          NG_OK \<Rightarrow> Some (Inr (put_conn (io_ready c1) ep, os))
        | NG_DRAINING \<Rightarrow> Some (Inr (drain_connection ng now c1 ep, os))
        | NG_PROTO \<Rightarrow> close_connection ng env now rv ''ERR_PROTO'' c1 ep os
        | NG_DROP_CONN \<Rightarrow> Some (and_then (delete_connection (cn_source_cid c1) (put_conn c1 ep)) (\<lambda>ep1. Inr (ep1, os)))
        | NG_CRYPTO \<Rightarrow> Some (and_then (delete_connection (cn_source_cid c1) (put_conn c1 ep)) (\<lambda>ep1. Inr (ep1, os)))
        | _ \<Rightarrow> close_connection ng env now rv (ng_strerror ng rv) c1 ep os)
       (\<lambda>(ep1, os1). Some (Inr (Io_ngtcp2 rv, ep1, os1))))"

definition handle_conn_packet ::
  "'ng ngtcp2 \<Rightarrow> app \<Rightarrow> 'os udp_env \<Rightarrow> u64 \<Rightarrow> packet \<Rightarrow> 'ng connection \<Rightarrow> 'ng endpoint \<Rightarrow> 'os \<Rightarrow>
   ('ng endpoint \<times> 'os) result option" where
  "handle_conn_packet ng ap env now pkt c ep os =
     (if ng_in_closing_period ng (cn_ng c)
      then Some (and_then (delete_connection (cn_source_cid c) ep) (\<lambda>ep1. Inr (ep1, os)))
      else obind (read_packet ng ap env now pkt c ep os) (\<lambda>(_, ep1, os1). Some (Inr (ep1, os1))))"

text \<open>\<^verbatim>\<open>handle_packet_connid\<close>: the destination id of the packet, if it has a usable one.\<close>

definition handle_packet_connid ::
  "'ng pkt_api \<Rightarrow> 'os udp_env \<Rightarrow> bytes \<Rightarrow> packet \<Rightarrow> 'ng endpoint \<Rightarrow> 'os \<Rightarrow>
   (connection_id option \<times> 'ng endpoint \<times> 'os) result option" where
  "handle_packet_connid pk env junk pkt ep os =
     (let (rv, vid) = pk_decode pk (pkt_data pkt)
      in if rv = NG_VERSION_NEGOTIATION
         then obind (send_version_negotiation pk env vid (pkt_path pkt) ep os) (\<lambda>(ep1, os1). Some (Inr (None, ep1, os1)))
         else if rv \<noteq> NG_OK then Some (Inr (None, ep, os))
         else if NGTCP2_MAX_CIDLEN < length (vc_dcid vid) then Some (Inr (None, ep, os))
         else obind (Some (cid_make junk (vc_dcid vid) (length (vc_dcid vid)))) (\<lambda>cid. Some (Inr (Some cid, ep, os))))"

text \<open>Random ids are drawn until one is new; \<open>rnd\<close> are the values the generator gives.\<close>

fun fresh_cid :: "bytes list \<Rightarrow> 'v endpoint \<Rightarrow> (connection_id \<times> bytes list) option" where
  "fresh_cid [] ep = None"
| "fresh_cid (b # bs) ep =
     (if map_of (conns ep) (cid_key (cid_random b)) = None then Some (cid_random b, bs) else fresh_cid bs ep)"

definition accept_initial_connection ::
  "'ng pkt_api \<Rightarrow> bytes list \<Rightarrow> packet \<Rightarrow> 'ng endpoint \<Rightarrow> ('ng connection option \<times> 'ng endpoint \<times> bytes list) result option" where
  "accept_initial_connection pk rnd pkt ep =
     (let (ok, hd) = pk_accept pk (pkt_data pkt)
      in if \<not> ok then Some (Inr (None, ep, rnd))
         else if hd_is_0rtt hd then Some (Inr (None, ep, rnd))
         else if hd_is_initial hd \<and> hd_token hd \<noteq> [] then Some (Inr (None, ep, rnd))
         else case fresh_cid rnd ep of
             None \<Rightarrow> None
           | Some (cid, rnd') \<Rightarrow>
               (case inbound_ctx ep of
                  None \<Rightarrow> Some (Inl Null_dereference)
                | Some ctx \<Rightarrow>
                    Some (and_then (pk_make_conn pk cid (hd_scid hd) (pkt_path pkt) ctx INBOUND (Some hd))
                      (\<lambda>c. Inr (Some c, ep\<lparr>conns := umap_put (cid_key cid) (Some c) (conns ep)\<rparr>, rnd')))))"

definition handle_packet ::
  "'ng pkt_api \<Rightarrow> 'ng ngtcp2 \<Rightarrow> app \<Rightarrow> 'os udp_env \<Rightarrow> u64 \<Rightarrow> bytes \<Rightarrow> packet \<Rightarrow> bytes list \<Rightarrow> 'ng endpoint \<Rightarrow> 'os \<Rightarrow>
   ('ng endpoint \<times> bytes list \<times> 'os) result option" where
  "handle_packet pk ng ap env now junk pkt rnd ep os =
     obind (handle_packet_connid pk env junk pkt ep os) (\<lambda>(dcid, ep1, os1).
       case dcid of
         None \<Rightarrow> Some (Inr (ep1, rnd, os1))
       | Some cid \<Rightarrow>
           (case get_conn cid ep1 of
              Some c \<Rightarrow>
                obind (handle_conn_packet ng ap env now pkt c ep1 os1) (\<lambda>(ep2, os2). Some (Inr (ep2, rnd, os2)))
            | None \<Rightarrow>
                if \<not> accepting_inbound ep1 then Some (Inr (ep1, rnd, os1))
                else obind (accept_initial_connection pk rnd pkt ep1) (\<lambda>(c, ep2, rnd').
                  case c of
                    None \<Rightarrow> Some (Inr (ep2, rnd', os1))
                  | Some c' \<Rightarrow>
                      obind (handle_conn_packet ng ap env now pkt c' ep2 os1) (\<lambda>(ep3, os3).
                        Some (Inr (ep3, rnd', os3))))))"

section \<open>Listening and connecting\<close>

text \<open>
  The context construction \<open>mk_ctx\<close> may throw; exceptions reach the caller through the promise, so the
  state they leave behind is part of the result.
\<close>

definition listen :: "conn_ctx result \<Rightarrow> 'ng endpoint \<Rightarrow> bool result \<times> 'ng endpoint" where
  "listen mk_ctx ep =
     (case mk_ctx of
        Inl f \<Rightarrow> (Inl f, ep)
      | Inr ctx \<Rightarrow> (Inr True, ep\<lparr>inbound_ctx := Some ctx, accepting_inbound := True\<rparr>))"

definition connect ::
  "'ng pkt_api \<Rightarrow> path \<Rightarrow> conn_ctx result \<Rightarrow> connection_id \<Rightarrow> bytes list \<Rightarrow> 'ng endpoint \<Rightarrow>
   ('ng connection result \<times> 'ng endpoint \<times> bytes list) option" where
  "connect pk p mk_ctx dcid rnd ep =
     (case mk_ctx of
        Inl f \<Rightarrow> Some (Inl f, ep, rnd)
      | Inr ctx \<Rightarrow>
          (let ep1 = ep\<lparr>outbound_ctx := Some ctx\<rparr>
           in case fresh_cid rnd ep1 of
                None \<Rightarrow> None
              | Some (cid, rnd') \<Rightarrow>
                  (case pk_make_conn pk cid dcid p ctx OUTBOUND None of
                     Inl f \<Rightarrow> Some (Inl f, ep1\<lparr>conns := umap_put (cid_key cid) None (conns ep1)\<rparr>, rnd')
                   | Inr c \<Rightarrow> Some (Inr c, ep1\<lparr>conns := umap_put (cid_key cid) (Some c) (conns ep1)\<rparr>, rnd'))))"

section \<open>Connections keep their identity\<close>

definition same_id :: "'ng connection \<Rightarrow> 'ng connection \<Rightarrow> bool" where
  "same_id c c' \<longleftrightarrow> cn_source_cid c' = cn_source_cid c \<and> cn_dir c' = cn_dir c \<and> cn_path c' = cn_path c"

lemma same_id_refl [simp]: "same_id c c"
  by (simp add: same_id_def)

lemma same_id_trans: "same_id a b \<Longrightarrow> same_id b c \<Longrightarrow> same_id a c"
  by (simp add: same_id_def)

lemma same_id_put [simp]: "same_id c (put_stream r s c)"
  and same_id_io [simp]: "same_id c (io_ready c)"
  by (simp_all add: same_id_def put_stream_def io_ready_def)

lemma same_id_effects: "same_id c (stream_effects ng es c)"
proof (induction es arbitrary: c)
  case (Cons e es)
  have "same_id c (stream_effect ng e c)" by (cases e) (simp_all add: same_id_def io_ready_def)
  with Cons [of "stream_effect ng e c"] show ?case by (auto simp: stream_effects_def intro: same_id_trans)
qed (simp add: stream_effects_def)

lemma same_id_put_effects: "same_id c (stream_effects ng es (put_stream r s c))"
  by (blast intro: same_id_trans same_id_put same_id_effects)

lemma same_id_action: "do_action ng a c = Inr c' \<Longrightarrow> same_id c c'"
proof (cases a)
  case (Act_open_stream d cl)
  assume "do_action ng a c = Inr c'"
  with Act_open_stream show ?thesis
    by (auto simp: get_new_stream_def Let_def same_id_def split: prod.splits option.splits)
qed (auto split: if_splits prod.splits elim!: and_then_InrE intro: same_id_put_effects)

lemma same_id_actions: "do_actions ng as c = Inr c' \<Longrightarrow> same_id c c'"
  by (induction as arbitrary: c) (auto elim!: and_then_InrE intro: same_id_trans same_id_action)

lemma same_id_calls: "same_id c (c\<lparr>calls := x\<rparr>)"
  by (simp add: same_id_def)

lemma same_id_pending_loop: "same_id c (check_pending_loop ng avail popped ps c)"
  by (induction ng avail popped ps c rule: check_pending_loop.induct)
    (auto simp: same_id_def put_stream_def split: prod.splits option.splits)

lemma same_id_call_close: "call_close_callback ng ap cb sid code c = Inr c' \<Longrightarrow> same_id c c'"
  by (auto simp: call_close_callback_def Let_def split: close_cb.splits
      intro: same_id_trans [OF same_id_calls] dest!: same_id_actions)

lemma same_id_erase: "same_id c (erase_stream ng sid c)"
  by (simp add: erase_stream_def io_ready_def same_id_def)

lemma same_id_closed:
  assumes r: "stream_closed ng ap sid code c = Inr c'"
  shows "same_id c c'"
proof (cases "map_of (streams c) sid")
  case None
  with r show ?thesis by (auto simp: stream_closed_def split: if_splits)
next
  case (Some i)
  obtain s new where m: "stream_mark_closed code (heap c ! i) = (s, new)" by fastforce
  from r Some m obtain c1 where
    c1: "c1 = put_stream i s c \<or> (\<exists>cb. call_close_callback ng ap cb (stream_id s) code (put_stream i s c) = Inr c1)"
    and c': "c' = erase_stream ng sid c1"
    by (auto simp: stream_closed_def split: if_splits list.splits close_call.splits elim!: and_then_InrE)
  have "same_id (put_stream i s c) c1" using c1 same_id_call_close by auto
  with c' show ?thesis by (metis same_id_erase same_id_put same_id_trans)
qed

lemma same_id_ack: "stream_ack ng sid n c = Inr (rv, c') \<Longrightarrow> same_id c c'"
  by (auto simp: stream_ack_def split: option.splits elim!: and_then_InrE intro: same_id_put_effects)

lemma same_id_receive:
  assumes "stream_receive ng ap sid data fin c = Inr (rv, c')"
  shows "same_id c c'"
proof -
  from assms obtain i good c2 where c2: "call_data_callback ng ap i sid data c = Inr (good, c2)"
    and c': "c' = snd (receive_done ng i sid data fin good c2)"
    by (fastforce simp: stream_receive_def elim!: and_then_InrE)
  have "same_id c c2"
    using c2 by (auto simp: call_data_callback_def Let_def split: option.splits prod.splits elim!: and_then_InrE
        intro: same_id_trans [OF same_id_calls] dest!: same_id_actions)
  moreover have "same_id c2 c'"
    unfolding c' receive_done_def Let_def
    by (auto split: prod.splits intro: same_id_put_effects) (auto simp: same_id_def)
  ultimately show ?thesis by (rule same_id_trans)
qed

lemma same_id_opened:
  assumes "stream_opened ng ap sid c = Inr (rv, c')"
  shows "same_id c c'"
proof -
  let ?c0 = "c\<lparr>heap := heap c @ [set_ready (stream_new (ctx_stream_data_cb (cn_ctx c)) (ctx_stream_close_cb (cn_ctx c)) sid)]\<rparr>"
  from assms obtain code c1 where c1: "call_open_callback ng ap sid ?c0 = Inr (code, c1)"
    and c': "enter_stream ng (length (heap c)) sid code c1 = Inr (rv, c')"
    by (auto simp: stream_opened_def elim!: and_then_InrE)
  have "same_id c ?c0" by (simp add: same_id_def)
  moreover have "same_id ?c0 c1"
    using c1 by (auto simp: call_open_callback_def Let_def split: option.splits prod.splits elim!: and_then_InrE
        intro: same_id_trans [OF same_id_calls] dest!: same_id_actions)
  moreover have "same_id c1 c'"
  proof (cases "code = 0")
    case False
    with c' same_id_put_effects show ?thesis by (auto simp: enter_stream_def split: prod.splits)
  next
    case True
    with c' show ?thesis by (auto simp: enter_stream_def same_id_def split: prod.splits bool.splits)
  qed
  ultimately show ?thesis by (blast intro: same_id_trans)
qed

lemma same_id_callback: "ng_callback ng ap e c = Inr (rv, c') \<Longrightarrow> same_id c c'"
  by (cases e) (auto simp: extend_max_local_streams_bidi_def check_pending_streams_def Let_def
      elim!: and_then_InrE intro: same_id_receive same_id_ack same_id_opened same_id_closed same_id_pending_loop)

lemma same_id_callbacks: "ng_callbacks ng ap es c = Inr (rv, c') \<Longrightarrow> same_id c c'"
  by (induction es arbitrary: c) (auto elim!: and_then_InrE split: if_splits intro: same_id_trans same_id_callback)

lemma same_id_read:
  assumes "conn_read_pkt ng ap pkt ts c = Inr (rv, c')"
  shows "same_id c c'"
proof -
  obtain es r g where "ng_read_pkt ng pkt ts (cn_ng c) = (es, r, g)" by (metis prod_cases3)
  with assms have "\<exists>cb. ng_callbacks ng ap es (c\<lparr>cn_ng := g\<rparr>) = Inr (cb, c')"
    by (auto simp: conn_read_pkt_def elim!: and_then_InrE)
  then have "same_id (c\<lparr>cn_ng := g\<rparr>) c'" by (auto dest: same_id_callbacks)
  then show ?thesis by (simp add: same_id_def)
qed

section \<open>The map of connections\<close>

text \<open>
  Every connection is stored under its own source id, which has the full length; the deadlines are in
  order; an endpoint that accepts connections has a context for them.
\<close>

definition conn_at :: "bytes \<Rightarrow> 'ng connection option \<Rightarrow> bool" where
  "conn_at k x \<longleftrightarrow> length k = NGTCP2_MAX_CIDLEN \<and>
     (case x of None \<Rightarrow> True | Some c \<Rightarrow> cid_key (cn_source_cid c) = k)"

definition ep_inv :: "'ng endpoint \<Rightarrow> bool" where
  "ep_inv ep \<longleftrightarrow> umap_wf (conns ep) \<and> omap_wf (draining_map ep) \<and> list_all (\<lambda>(k, x). conn_at k x) (conns ep) \<and>
     (accepting_inbound ep \<longrightarrow> inbound_ctx ep \<noteq> None)"

text \<open>
  A change that concerns only the connection with key \<open>k\<close>: all others stay as they are, and what is
  stored under \<open>k\<close> afterwards is a connection with that key or what was there before.
\<close>

definition only_at :: "bytes \<Rightarrow> 'ng endpoint \<Rightarrow> 'ng endpoint \<Rightarrow> bool" where
  "only_at k ep ep' \<longleftrightarrow> umap_wf (conns ep') \<and> (omap_wf (draining_map ep) \<longrightarrow> omap_wf (draining_map ep')) \<and>
     (\<forall>k'. k' \<noteq> k \<longrightarrow> map_of (conns ep') k' = map_of (conns ep) k') \<and>
     (\<forall>x. map_of (conns ep') k = Some x \<longrightarrow>
        map_of (conns ep) k = Some x \<or> (\<exists>c. x = Some c \<and> cid_key (cn_source_cid c) = k)) \<and>
     accepting_inbound ep' = accepting_inbound ep \<and> inbound_ctx ep' = inbound_ctx ep"

lemma only_at_refl: "umap_wf (conns ep) \<Longrightarrow> only_at k ep ep"
  by (simp add: only_at_def)

lemma only_at_trans:
  assumes "only_at k a b" and "only_at k b c"
  shows "only_at k a c"
  using assms unfolding only_at_def by metis

lemma only_at_wf: "only_at k ep ep' \<Longrightarrow> umap_wf (conns ep')"
  by (simp add: only_at_def)

lemma only_at_inv:
  assumes o: "only_at k ep ep'" and inv: "ep_inv ep" and k: "length k = NGTCP2_MAX_CIDLEN"
  shows "ep_inv ep'"
proof -
  have "conn_at k' x" if "(k', x) \<in> set (conns ep')" for k' x
  proof -
    from o have wf': "umap_wf (conns ep')" by (rule only_at_wf)
    with that have m': "map_of (conns ep') k' = Some x" by (simp add: um.find_iff)
    have old: "conn_at k' x" if "map_of (conns ep) k' = Some x"
      using inv map_of_SomeD [OF that] by (auto simp: ep_inv_def list_all_iff)
    show ?thesis
    proof (cases "k' = k")
      case True
      with m' o have "map_of (conns ep) k = Some x \<or> (\<exists>c. x = Some c \<and> cid_key (cn_source_cid c) = k)"
        by (simp add: only_at_def)
      with True old k show ?thesis by (auto simp: conn_at_def)
    next
      case False
      with m' o old show ?thesis by (simp add: only_at_def)
    qed
  qed
  with o inv show ?thesis by (auto simp: ep_inv_def only_at_def list_all_iff)
qed

lemma only_at_put:
  assumes "umap_wf (conns ep)" and "cid_key (cn_source_cid c) = k"
  shows "only_at k ep (put_conn c ep)"
  using assms by (simp add: only_at_def put_conn_def um.find_put um.wf_put)

lemma only_at_delete:
  assumes "umap_wf (conns ep)" and "cid_key cid = k" and "delete_connection cid ep = Inr ep'"
  shows "only_at k ep ep'"
  using assms um.find_erase [of k "conns ep"] um.wf_erase [of "conns ep" k]
  by (auto simp: only_at_def delete_connection_def split: option.splits)

lemma only_at_put_delete:
  assumes "umap_wf (conns ep)" and "cid_key (cn_source_cid c) = k" and "cid_key cid = k"
    and "delete_connection cid (put_conn c ep) = Inr ep'"
  shows "only_at k ep ep'"
  using only_at_trans [OF only_at_put only_at_delete] assms only_at_wf [OF only_at_put] by blast

lemma only_at_drain:
  assumes "umap_wf (conns ep)" and "cid_key (cn_source_cid c) = k"
  shows "only_at k ep (drain_connection ng now c ep)"
proof -
  have id: "cn_source_cid (call_closing c) = cn_source_cid c"
    by (simp add: call_closing_def split: option.splits)
  let ?c1 = "(call_closing c)\<lparr>draining := True\<rparr>"
  from id assms have 1: "only_at k ep (put_conn ?c1 ep)" by (intro only_at_put) simp_all
  show ?thesis
  proof (cases "draining c")
    case True
    with assms show ?thesis by (simp add: drain_connection_def only_at_put)
  next
    case False
    have "only_at k (put_conn ?c1 ep) (drain_connection ng now c ep)"
      using False only_at_wf [OF 1]
      by (auto simp: drain_connection_def Let_def only_at_def put_conn_def omap_emplace_def om.wf_put split: option.splits)
    with 1 show ?thesis by (rule only_at_trans)
  qed
qed

lemma only_at_send:
  assumes wf: "umap_wf (conns ep)" and cb: "\<And>cid. cb = Some cid \<Longrightarrow> cid_key cid = k"
    and r: "ep_send_packet env p buf cb ep os = Some (Inr (ep', os'))"
  shows "only_at k ep ep'"
proof -
  from r obtain queued calls os1 where
    "send_or_queue_packet (ue_socket env) (ue_max_batch env) (ue_send env) buf (cb \<noteq> None) os = Some (Inr (queued, calls, os1))"
    by (auto simp: ep_send_packet_def elim!: obind_InrE)
  note s = this
  let ?ep1 = "ep\<lparr>sent := sent ep @ (if ue_socket env then [(p, buf)] else []), waiting := waiting ep @ (if queued then [(p, buf, cb)] else [])\<rparr>"
  have 1: "only_at k ep ?ep1" using wf by (simp add: only_at_def)
  from r s consider "ep' = ?ep1" | cid where "cb = Some cid" "delete_connection cid ?ep1 = Inr ep'"
    by (auto simp: ep_send_packet_def Let_def split: list.splits option.splits if_splits elim!: and_then_InrE)
  then show ?thesis
  proof cases
    case 2
    with cb only_at_delete [of ?ep1 cid k ep'] wf 1 show ?thesis by (auto intro: only_at_trans)
  qed (use 1 in simp)
qed

lemma only_at_close:
  assumes wf: "umap_wf (conns ep)" and k: "cid_key (cn_source_cid c) = k"
    and r: "close_connection ng env now code msg c ep os = Some (Inr (ep', os'))"
  shows "only_at k ep ep'"
proof -
  obtain written out g where w: "ng_write_connection_close ng code msg max_payload_size now (cn_ng c) = (written, out, g)"
    by (metis prod_cases3)
  let ?ep1 = "put_conn (c\<lparr>cn_ng := g\<rparr>) ep"
  have 1: "only_at k ep ?ep1" using wf k by (intro only_at_put) simp_all
  from r w consider "ep' = put_conn c ep" | "delete_connection (cn_source_cid c) (put_conn c ep) = Inr ep'"
    | "delete_connection (cn_source_cid c) ?ep1 = Inr ep'"
    | "ep_send_packet env (cn_path c) (fill_buffer out) (Some (cn_source_cid c)) ?ep1 os = Some (Inr (ep', os'))"
    by (auto simp: close_connection_def Let_def split: if_splits elim!: and_then_InrE)
  then show ?thesis
  proof cases
    case 1
    with wf k show ?thesis by (simp add: only_at_put)
  next
    case 2
    with wf k show ?thesis by (intro only_at_put_delete [where cid = "cn_source_cid c" and c = c]) simp_all
  next
    case 3
    with wf k show ?thesis by (intro only_at_put_delete [where cid = "cn_source_cid c" and c = "c\<lparr>cn_ng := g\<rparr>"]) simp_all
  next
    case 4
    from only_at_send [OF only_at_wf [OF 1] _ 4, of k] k 1 show ?thesis by (auto intro: only_at_trans)
  qed
qed

lemma only_at_read:
  assumes wf: "umap_wf (conns ep)" and k: "cid_key (cn_source_cid c) = k"
    and r: "read_packet ng ap env now pkt c ep os = Some (Inr (res, ep', os'))"
  shows "only_at k ep ep'"
proof -
  from r obtain rv c1 where rd: "conn_read_pkt ng ap pkt now c = Inr (rv, c1)"
    by (auto simp: read_packet_def elim!: obind_InrE)
  from same_id_read [OF this] k have k1: "cid_key (cn_source_cid c1) = k" by (simp add: same_id_def)
  have del: "only_at k ep ep1" if "delete_connection (cn_source_cid c1) (put_conn c1 ep) = Inr ep1" for ep1
    by (rule only_at_put_delete [OF wf k1 k1 that])
  have cl: "only_at k ep ep1" if "close_connection ng env now code msg c1 ep os = Some (Inr (ep1, os1))" for code msg ep1 os1
    by (rule only_at_close [OF wf k1 that])
  have "only_at k ep (put_conn (io_ready c1) ep)" using wf k1 by (intro only_at_put) (simp_all add: io_ready_def)
  with r rd del cl only_at_drain [OF wf k1] show ?thesis
    by (cases rv) (auto simp: read_packet_def elim!: obind_InrE and_then_InrE)
qed

lemma only_at_handle:
  assumes wf: "umap_wf (conns ep)" and k: "cid_key (cn_source_cid c) = k"
    and r: "handle_conn_packet ng ap env now pkt c ep os = Some (Inr (ep', os'))"
  shows "only_at k ep ep'"
proof (cases "ng_in_closing_period ng (cn_ng c)")
  case True
  with r only_at_delete [OF wf k] show ?thesis by (auto simp: handle_conn_packet_def elim!: and_then_InrE)
next
  case False
  with r obtain res where "read_packet ng ap env now pkt c ep os = Some (Inr (res, ep', os'))"
    by (auto simp: handle_conn_packet_def elim!: obind_InrE)
  then show ?thesis by (rule only_at_read [OF wf k])
qed

text \<open>A version negotiation leaves the connections alone.\<close>

lemma connid_conns:
  assumes "handle_packet_connid pk env junk pkt ep os = Some (Inr (d, ep', os'))"
  shows "conns ep' = conns ep \<and> draining_map ep' = draining_map ep \<and> accepting_inbound ep' = accepting_inbound ep \<and>
    inbound_ctx ep' = inbound_ctx ep"
proof -
  have send: "conns ep1 = conns ep \<and> draining_map ep1 = draining_map ep \<and> accepting_inbound ep1 = accepting_inbound ep \<and>
      inbound_ctx ep1 = inbound_ctx ep"
    if "ep_send_packet env p buf None ep os = Some (Inr (ep1, os1))" for p buf ep1 os1
    using that by (auto simp: ep_send_packet_def Let_def split: list.splits elim!: obind_InrE)
  obtain rv vid where dec: "pk_decode pk (pkt_data pkt) = (rv, vid)" by fastforce
  show ?thesis
  proof (cases "rv = NG_VERSION_NEGOTIATION")
    case True
    with assms dec obtain ep1 os1 where "send_version_negotiation pk env vid (pkt_path pkt) ep os = Some (Inr (ep1, os1))"
      and "ep' = ep1" by (auto simp: handle_packet_connid_def elim!: obind_InrE)
    with send show ?thesis by (auto simp: send_version_negotiation_def Let_def split: if_splits prod.splits)
  next
    case False
    with assms dec show ?thesis by (auto simp: handle_packet_connid_def split: if_splits elim!: obind_InrE)
  qed
qed

lemma fresh_cid_new:
  "fresh_cid rnd ep = Some (cid, rnd') \<Longrightarrow> map_of (conns ep) (cid_key cid) = None \<and> (\<exists>b \<in> set rnd. cid = cid_random b) \<and>
    set rnd' \<subseteq> set rnd"
  by (induction rnd) (auto split: if_splits)

text \<open>A connection has the source id it was made with.\<close>

lemma make_conn_source: "pk_make_conn pk scid dcid p ctx dir hdr = Inr c \<Longrightarrow> cn_source_cid c = scid"
  unfolding pk_make_conn_def by (drule make_conn_fresh) (auto simp: io_ready_def conn_fresh_def)

text \<open>Random ids have the full length.\<close>

definition rnd_ok :: "bytes list \<Rightarrow> bool" where
  "rnd_ok rnd \<longleftrightarrow> list_all (\<lambda>b. length b = NGTCP2_MAX_CIDLEN) rnd"

lemma cid_random_key: "length b = NGTCP2_MAX_CIDLEN \<Longrightarrow> cid_key (cid_random b) = b"
  by (simp add: cid_key_def cid_random_def)

section \<open>Packets concern one connection\<close>

lemma connid_key:
  assumes "pk_decode pk (pkt_data pkt) = (NG_OK, vid)"
    and "handle_packet_connid pk env junk pkt ep os = Some (Inr (d, ep', os'))"
  shows "(d = None \<and> NGTCP2_MAX_CIDLEN < length (vc_dcid vid)) \<or> (\<exists>cid. d = Some cid \<and> cid_key cid = vc_dcid vid)"
  using assms
  by (auto simp: handle_packet_connid_def cid_make_def cid_key_def split: if_splits elim!: obind_InrE)

lemma accept_only_new:
  assumes wf: "umap_wf (conns ep)"
    and r: "accept_initial_connection pk rnd pkt ep = Some (Inr (x, ep', rnd'))"
  shows "(x = None \<and> ep' = ep) \<or> (\<exists>c b. x = Some c \<and> b \<in> set rnd \<and> cid_key (cn_source_cid c) = cid_key (cid_random b) \<and>
    map_of (conns ep) (cid_key (cn_source_cid c)) = None \<and> only_at (cid_key (cn_source_cid c)) ep ep')"
proof -
  obtain ok h where a: "pk_accept pk (pkt_data pkt) = (ok, h)" by fastforce
  show ?thesis
  proof (cases "\<not> ok \<or> hd_is_0rtt h \<or> hd_is_initial h \<and> hd_token h \<noteq> []")
    case True
    with r a show ?thesis by (auto simp: accept_initial_connection_def split: if_splits)
  next
    case False
    with r a obtain cid ctx c where f: "fresh_cid rnd ep = Some (cid, rnd')" and ctx: "inbound_ctx ep = Some ctx"
      and c: "pk_make_conn pk cid (hd_scid h) (pkt_path pkt) ctx INBOUND (Some h) = Inr c"
      and x: "x = Some c" and ep': "ep' = ep\<lparr>conns := umap_put (cid_key cid) (Some c) (conns ep)\<rparr>"
      by (auto simp: accept_initial_connection_def split: option.splits elim!: and_then_InrE)
    from make_conn_source [OF c] have id: "cn_source_cid c = cid" .
    have "ep' = put_conn c ep" by (simp add: ep' put_conn_def id)
    with only_at_put [OF wf, of c "cid_key cid"] id have "only_at (cid_key cid) ep ep'" by simp
    moreover obtain b where "b \<in> set rnd" "cid = cid_random b" using fresh_cid_new [OF f] by blast
    ultimately show ?thesis using fresh_cid_new [OF f] id x by auto
  qed
qed

text \<open>What one received packet can do to the map: nothing, a change at its own id, or at a new one.\<close>

definition same_conns :: "'ng endpoint \<Rightarrow> 'ng endpoint \<Rightarrow> bool" where
  "same_conns ep ep' \<longleftrightarrow> conns ep' = conns ep \<and> draining_map ep' = draining_map ep \<and>
     accepting_inbound ep' = accepting_inbound ep \<and> inbound_ctx ep' = inbound_ctx ep"

definition packet_effect :: "'ng pkt_api \<Rightarrow> packet \<Rightarrow> bytes list \<Rightarrow> 'ng endpoint \<Rightarrow> 'ng endpoint \<Rightarrow> bool" where
  "packet_effect pk pkt rnd ep ep' \<longleftrightarrow> same_conns ep ep' \<or>
     (\<exists>vid c. pk_decode pk (pkt_data pkt) = (NG_OK, vid) \<and> map_of (conns ep) (vc_dcid vid) = Some (Some c) \<and>
        only_at (vc_dcid vid) ep ep') \<or>
     (\<exists>b \<in> set rnd. accepting_inbound ep \<and> map_of (conns ep) (cid_key (cid_random b)) = None \<and>
        only_at (cid_key (cid_random b)) ep ep')"

lemma only_at_cong: "same_conns ep ep1 \<Longrightarrow> only_at k ep1 ep' = only_at k ep ep'"
  by (simp add: only_at_def same_conns_def)

lemma handle_known_effect:
  assumes inv: "ep_inv ep" and at: "map_of (conns ep) k = Some (Some c)"
    and r: "handle_conn_packet ng ap env now pkt c ep os = Some (Inr (ep', os'))"
  shows "only_at k ep ep'"
proof -
  from inv map_of_SomeD [OF at] have "cid_key (cn_source_cid c) = k"
    by (auto simp: ep_inv_def conn_at_def list_all_iff)
  moreover from inv have "umap_wf (conns ep)" by (simp add: ep_inv_def)
  ultimately show ?thesis using r by (blast intro: only_at_handle)
qed

lemma handle_new_effect:
  assumes wf: "umap_wf (conns ep)" and acc: "accepting_inbound ep"
    and r: "obind (accept_initial_connection pk rnd pkt ep) (\<lambda>(c, ep2, rnd').
        case c of None \<Rightarrow> Some (Inr (ep2, rnd', os))
        | Some c' \<Rightarrow> obind (handle_conn_packet ng ap env now pkt c' ep2 os) (\<lambda>(ep3, os3). Some (Inr (ep3, rnd', os3))))
      = Some (Inr (ep', rnd', os'))"
  shows "same_conns ep ep' \<or> (\<exists>b \<in> set rnd. map_of (conns ep) (cid_key (cid_random b)) = None \<and>
    only_at (cid_key (cid_random b)) ep ep')"
proof -
  from r obtain x ep2 rnd2 where ac: "accept_initial_connection pk rnd pkt ep = Some (Inr (x, ep2, rnd2))"
    and rest: "(case x of None \<Rightarrow> Some (Inr (ep2, rnd2, os)) | Some c' \<Rightarrow>
        obind (handle_conn_packet ng ap env now pkt c' ep2 os) (\<lambda>(ep3, os3). Some (Inr (ep3, rnd2, os3))))
      = Some (Inr (ep', rnd', os'))"
    by (auto elim!: obind_InrE)
  show ?thesis
  proof (cases x)
    case None
    with rest accept_only_new [OF wf ac] show ?thesis by (auto simp: same_conns_def)
  next
    case (Some c)
    with accept_only_new [OF wf ac] obtain b where b: "b \<in> set rnd"
      "cid_key (cn_source_cid c) = cid_key (cid_random b)" "map_of (conns ep) (cid_key (cn_source_cid c)) = None"
      and o: "only_at (cid_key (cn_source_cid c)) ep ep2" by auto
    from rest Some obtain os3 where "handle_conn_packet ng ap env now pkt c ep2 os = Some (Inr (ep', os3))"
      by (auto elim!: obind_InrE)
    from only_at_trans [OF o only_at_handle [OF only_at_wf [OF o] refl this]] b show ?thesis by auto
  qed
qed

lemma connid_some:
  assumes "handle_packet_connid pk env junk pkt ep os = Some (Inr (Some cid, ep', os'))"
  shows "\<exists>vid. pk_decode pk (pkt_data pkt) = (NG_OK, vid) \<and> cid_key cid = vc_dcid vid"
proof -
  obtain rv vid where d: "pk_decode pk (pkt_data pkt) = (rv, vid)" by fastforce
  with assms have "rv = NG_OK"
    by (auto simp: handle_packet_connid_def split: if_splits elim!: obind_InrE)
  with d connid_key [of pk pkt vid env junk ep os "Some cid"] assms show ?thesis by auto
qed

lemma handle_packet_effect:
  assumes inv: "ep_inv ep"
    and r: "handle_packet pk ng ap env now junk pkt rnd ep os = Some (Inr (ep', rnd', os'))"
  shows "packet_effect pk pkt rnd ep ep'"
proof -
  from r obtain d ep1 os1 where cd: "handle_packet_connid pk env junk pkt ep os = Some (Inr (d, ep1, os1))"
    by (auto simp: handle_packet_def elim!: obind_InrE)
  have same: "same_conns ep ep1" using connid_conns [OF cd] by (simp add: same_conns_def)
  with inv have inv1: "ep_inv ep1" by (simp add: ep_inv_def same_conns_def)
  show ?thesis
  proof (cases d)
    case None
    with r cd same show ?thesis by (auto simp: handle_packet_def packet_effect_def)
  next
    case (Some cid)
    from connid_some [OF cd [unfolded Some]] obtain vid where
      vid: "pk_decode pk (pkt_data pkt) = (NG_OK, vid)" "cid_key cid = vc_dcid vid" by blast
    show ?thesis
    proof (cases "get_conn cid ep1")
      case c: (Some c)
      then have at: "map_of (conns ep1) (vc_dcid vid) = Some (Some c)" by (simp add: get_conn_def vid split: option.splits)
      from r cd Some c obtain os2 where "handle_conn_packet ng ap env now pkt c ep1 os1 = Some (Inr (ep', os2))"
        by (auto simp: handle_packet_def elim!: obind_InrE)
      from handle_known_effect [OF inv1 at this] at vid same show ?thesis
        by (auto simp: packet_effect_def only_at_cong [OF same] same_conns_def)
    next
      case None
      have wf1: "umap_wf (conns ep1)" using inv1 by (simp add: ep_inv_def)
      show ?thesis
      proof (cases "accepting_inbound ep1")
        case False
        with None r cd Some same show ?thesis by (auto simp: handle_packet_def packet_effect_def)
      next
        case True
        with handle_new_effect [OF wf1 True, of pk rnd pkt os1 ng ap env now ep' rnd' os'] None r cd Some same
        show ?thesis
          by (auto simp: handle_packet_def packet_effect_def only_at_cong [OF same]) (auto simp: same_conns_def)
      qed
    qed
  qed
qed

end
