(* ===== verification/Quic_Ep_Life.thy ===== *)
theory Quic_Ep_Life
  imports Quic_Endpoint
begin

text \<open>
  The endpoint over its life: packets, timeouts, listening, connecting and closing as a step relation, the
  invariant of the connection map in every reachable state, and what single events do: which
  connection a packet can affect, how the return codes of ngtcp2 are handled, and where the code reads
  an iterator that it erased or a pointer that is null.
\<close>

section \<open>The invariant in every reachable state\<close>

text \<open>
  \<open>ep_internal\<close> stands for everything that happens inside one connection (its own events): the connection
  keeps its identity.
\<close>

inductive ep_step :: "'ng ngtcp2 \<Rightarrow> app \<Rightarrow> 'os udp_env \<Rightarrow> 'ng endpoint \<Rightarrow> 'ng endpoint \<Rightarrow> bool"
  for ng ap env where
  ep_packet: "rnd_ok rnd \<Longrightarrow> handle_packet pk ng ap env now junk pkt rnd ep os = Some (Inr (ep', rnd', os')) \<Longrightarrow>
    ep_step ng ap env ep ep'"
| ep_timeouts: "check_timeouts now ep = Inr ep' \<Longrightarrow> ep_step ng ap env ep ep'"
| ep_listen: "listen mk_ctx ep = (r, ep') \<Longrightarrow> ep_step ng ap env ep ep'"
| ep_connect: "rnd_ok rnd \<Longrightarrow> connect pk p mk_ctx dcid rnd ep = Some (r, ep', rnd') \<Longrightarrow> ep_step ng ap env ep ep'"
| ep_close: "map_of (conns ep) k = Some (Some c) \<Longrightarrow>
    close_connection ng env now code msg c ep os = Some (Inr (ep', os')) \<Longrightarrow> ep_step ng ap env ep ep'"
| ep_close_conns: "close_conns ng env now d ep os = Some (Inr (ep', os')) \<Longrightarrow> ep_step ng ap env ep ep'"
| ep_write: "ep_writeable env ep os = Some (Inr (ep', os')) \<Longrightarrow> ep_step ng ap env ep ep'"
| ep_internal: "map_of (conns ep) k = Some (Some c) \<Longrightarrow> same_id c c' \<Longrightarrow> ep_step ng ap env ep (put_conn c' ep)"

lemma ep_invD:
  assumes "ep_inv ep" and "map_of (conns ep) k = Some x"
  shows "conn_at k x"
  using assms(1) map_of_SomeD [OF assms(2)] by (auto simp: ep_inv_def list_all_iff)

lemma ep_inv_wf: "ep_inv ep \<Longrightarrow> umap_wf (conns ep)"
  by (simp add: ep_inv_def)

lemma ep_inv_packet:
  assumes "ep_inv ep" and "packet_effect pk pkt rnd ep ep'" and "rnd_ok rnd"
  shows "ep_inv ep'"
  using assms(2) unfolding packet_effect_def
proof (elim disjE exE conjE bexE)
  assume "same_conns ep ep'"
  with assms(1) show ?thesis by (simp add: ep_inv_def same_conns_def)
next
  fix vid c assume at: "map_of (conns ep) (vc_dcid vid) = Some (Some c)" and o: "only_at (vc_dcid vid) ep ep'"
  from ep_invD [OF assms(1) at] show ?thesis by (intro only_at_inv [OF o assms(1)]) (simp add: conn_at_def)
next
  fix b assume "b \<in> set rnd" and o: "only_at (cid_key (cid_random b)) ep ep'"
  with assms(3) show ?thesis by (intro only_at_inv [OF o assms(1)]) (simp add: rnd_ok_def list_all_iff cid_random_key)
qed

lemma ep_inv_timeouts:
  assumes inv: "ep_inv ep" and r: "check_timeouts now ep = Inr ep'"
  shows "ep_inv ep'"
proof -
  have "(conns ep' = conns ep \<or> (\<exists>k. conns ep' = assoc_erase k (conns ep))) \<and>
      (draining_map ep' = draining_map ep \<or> draining_map ep' = []) \<and>
      accepting_inbound ep' = accepting_inbound ep \<and> inbound_ctx ep' = inbound_ctx ep"
    using r by (auto simp: check_timeouts_def Let_def split: list.splits if_splits option.splits) blast+
  moreover have "umap_wf (assoc_erase k (conns ep)) \<and> list_all (\<lambda>(k, x). conn_at k x) (assoc_erase k (conns ep))" for k
    using inv um.wf_erase [of "conns ep" k] by (auto simp: ep_inv_def list_all_iff assoc_erase_def)
  ultimately show ?thesis using inv by (auto simp: ep_inv_def omap_wf_def)
qed

lemma ep_inv_put:
  assumes inv: "ep_inv ep" and k: "conn_at k x"
  shows "ep_inv (ep\<lparr>conns := umap_put k x (conns ep)\<rparr>)"
  using inv k um.set_put [OF ep_inv_wf [OF inv]] um.wf_put [OF ep_inv_wf [OF inv]]
  by (auto simp: ep_inv_def list_all_iff)

lemma ep_inv_connect:
  assumes inv: "ep_inv ep" and rnd: "rnd_ok rnd"
    and r: "connect pk p mk_ctx dcid rnd ep = Some (r, ep', rnd')"
  shows "ep_inv ep'"
proof (cases mk_ctx)
  case (Inl f)
  with r inv show ?thesis by (simp add: connect_def)
next
  case (Inr ctx)
  let ?ep1 = "ep\<lparr>outbound_ctx := Some ctx\<rparr>"
  from Inr r obtain cid where f: "fresh_cid rnd ?ep1 = Some (cid, rnd')"
    by (auto simp: connect_def Let_def split: option.splits sum.splits)
  have len: "length (cid_key cid) = NGTCP2_MAX_CIDLEN"
    using fresh_cid_new [OF f] rnd by (auto simp: rnd_ok_def list_all_iff cid_random_key)
  have inv1: "ep_inv ?ep1" using inv by (simp add: ep_inv_def)
  show ?thesis
  proof (cases "pk_make_conn pk cid dcid p ctx OUTBOUND None")
    case m: (Inl e)
    with r f Inr have "ep' = ?ep1\<lparr>conns := umap_put (cid_key cid) None (conns ?ep1)\<rparr>" by (simp add: connect_def Let_def)
    with ep_inv_put [OF inv1, of "cid_key cid" None] len show ?thesis by (simp add: conn_at_def)
  next
    case m: (Inr c)
    with r f Inr have "ep' = ?ep1\<lparr>conns := umap_put (cid_key cid) (Some c) (conns ?ep1)\<rparr>" by (simp add: connect_def Let_def)
    with ep_inv_put [OF inv1, of "cid_key cid" "Some c"] len make_conn_source [OF m] show ?thesis by (simp add: conn_at_def)
  qed
qed

lemma ep_inv_close:
  assumes inv: "ep_inv ep" and at: "map_of (conns ep) k = Some (Some c)"
    and r: "close_connection ng env now code msg c ep os = Some (Inr (ep', os'))"
  shows "ep_inv ep'"
proof -
  from ep_invD [OF inv at] have k: "cid_key (cn_source_cid c) = k" "length k = NGTCP2_MAX_CIDLEN"
    by (simp_all add: conn_at_def)
  from only_at_inv [OF only_at_close [OF ep_inv_wf [OF inv] k(1) r] inv k(2)] show ?thesis .
qed

lemma ep_inv_close_loop:
  "ep_inv ep \<Longrightarrow> close_conns_loop ng env now d ks ep os = Some (Inr (ep', os')) \<Longrightarrow> ep_inv ep'"
proof (induction ks arbitrary: ep os)
  case (Cons k ks)
  from Cons.prems(2) obtain c where at: "map_of (conns ep) k = Some (Some c)"
    by (auto split: option.splits)
  show ?case
  proof (cases "d \<noteq> None \<and> d \<noteq> Some (cn_dir c)")
    case True
    with Cons at show ?thesis by simp
  next
    case False
    with Cons.prems(2) at obtain ep1 os1 where c: "close_connection ng env now NG_OK ''NO_ERROR'' c ep os = Some (Inr (ep1, os1))"
      and r: "close_conns_loop ng env now d ks ep1 os1 = Some (Inr (ep', os'))"
      by (auto simp: if_splits elim!: obind_InrE split: if_splits)
    from Cons.IH [OF ep_inv_close [OF Cons.prems(1) at c] r] show ?thesis .
  qed
qed simp

lemma ep_inv_delete:
  assumes "ep_inv ep" and "delete_connection cid ep = Inr ep'"
  shows "ep_inv ep'"
proof -
  have "umap_wf (assoc_erase k (conns ep)) \<and> list_all (\<lambda>(k, x). conn_at k x) (assoc_erase k (conns ep))" for k
    using assms(1) um.wf_erase [of "conns ep" k] by (auto simp: ep_inv_def list_all_iff assoc_erase_def)
  with assms show ?thesis by (auto simp: delete_connection_def ep_inv_def split: option.splits)
qed

lemma ep_inv_send:
  assumes "ep_inv ep" and r: "ep_send_packet env p buf cb ep os = Some (Inr (ep', os'))"
  shows "ep_inv ep'"
proof -
  from r obtain queued calls os1 where
    s: "send_or_queue_packet (ue_socket env) (ue_max_batch env) (ue_send env) buf (cb \<noteq> None) os = Some (Inr (queued, calls, os1))"
    by (auto simp: ep_send_packet_def elim!: obind_InrE)
  let ?ep1 = "ep\<lparr>sent := sent ep @ (if ue_socket env then [(p, buf)] else []),
    waiting := waiting ep @ (if queued then [(p, buf, cb)] else [])\<rparr>"
  have 1: "ep_inv ?ep1" using assms(1) by (simp add: ep_inv_def)
  from r s consider "ep' = ?ep1" | cid where "delete_connection cid ?ep1 = Inr ep'"
    by (auto simp: ep_send_packet_def Let_def split: list.splits option.splits if_splits elim!: and_then_InrE)
  then show ?thesis using 1 ep_inv_delete by cases auto
qed

lemma ep_inv_resend:
  "ep_inv ep \<Longrightarrow> ep_resend env ws ep os = Some (Inr (ep', os')) \<Longrightarrow> ep_inv ep'"
proof (induction ws arbitrary: ep os)
  case (Cons w ws)
  obtain p buf cb where w: "w = (p, buf, cb)" by (metis prod_cases3)
  with Cons.prems(2) obtain ep1 os1 where "ep_send_packet env p buf cb ep os = Some (Inr (ep1, os1))"
    and r: "ep_resend env ws ep1 os1 = Some (Inr (ep', os'))" by (auto elim!: obind_InrE)
  from Cons.IH [OF ep_inv_send [OF Cons.prems(1) this(1)] r] show ?case .
qed simp

lemma ep_step_inv:
  assumes "ep_step ng ap env ep ep'" and "ep_inv ep"
  shows "ep_inv ep'"
  using assms
proof (induction rule: ep_step.induct)
  case (ep_packet rnd pk now junk pkt ep os ep' rnd' os')
  from ep_inv_packet [OF ep_packet.prems handle_packet_effect [OF ep_packet.prems ep_packet.hyps(2)] ep_packet.hyps(1)]
  show ?case .
next
  case (ep_timeouts now ep ep')
  then show ?case by (blast intro: ep_inv_timeouts)
next
  case (ep_listen mk_ctx ep r ep')
  then show ?case by (auto simp: listen_def ep_inv_def split: sum.splits)
next
  case (ep_connect rnd pk p mk_ctx dcid ep r ep' rnd')
  then show ?case by (blast intro: ep_inv_connect)
next
  case (ep_close ep k c now code msg os ep' os')
  then show ?case by (blast intro: ep_inv_close)
next
  case (ep_close_conns now d ep os ep' os')
  then show ?case by (auto simp: close_conns_def intro: ep_inv_close_loop)
next
  case (ep_write ep os ep' os')
  then have "ep_inv (ep\<lparr>waiting := []\<rparr>)" by (simp add: ep_inv_def)
  with ep_write show ?case unfolding ep_writeable_def by (blast intro: ep_inv_resend)
next
  case (ep_internal ep k c c')
  with ep_invD [of ep k "Some c"] have k: "cid_key (cn_source_cid c') = k" "length k = NGTCP2_MAX_CIDLEN"
    by (simp_all add: conn_at_def same_id_def)
  from only_at_inv [OF only_at_put [OF ep_inv_wf k(1)] _ k(2)] ep_internal.prems show ?case by simp
qed

definition ep_init :: "'ng endpoint" where
  "ep_init = \<lparr>accepting_inbound = False, inbound_ctx = None, outbound_ctx = None, conns = [], draining_map = [],
     waiting = [], sent = [], dropped = []\<rparr>"

text \<open>
  C9: In every state an endpoint can reach, each connection is stored under its own source connection id,
  ids have the full length of 20 bytes and occur once, the drain deadlines are in order, and an endpoint
  that accepts connections has a context for them.
\<close>

theorem endpoint_conns_wf:
  assumes "(ep_step ng ap env)\<^sup>*\<^sup>* ep_init ep"
  shows "ep_inv ep"
  using assms
proof (induction rule: rtranclp_induct)
  case base
  show ?case by (simp add: ep_inv_def ep_init_def umap_wf_def omap_wf_def)
next
  case (step ep ep')
  then show ?case by (blast intro: ep_step_inv)
qed

lemma packet_keeps_others:
  assumes "ep_inv ep"
    and "handle_packet pk ng ap env now junk pkt rnd ep os = Some (Inr (ep', rnd', os'))"
    and "pk_decode pk (pkt_data pkt) = (rv, vid)" and "map_of (conns ep) k = Some x" and "k \<noteq> vc_dcid vid"
  shows "map_of (conns ep') k = Some x"
  using handle_packet_effect [OF assms(1-2)] unfolding packet_effect_def
proof (elim disjE exE conjE bexE)
  assume "same_conns ep ep'"
  with assms(4) show ?thesis by (simp add: same_conns_def)
next
  fix vid' assume "pk_decode pk (pkt_data pkt) = (NG_OK, vid')" and "only_at (vc_dcid vid') ep ep'"
  with assms(3-5) show ?thesis by (simp add: only_at_def)
next
  fix b assume "map_of (conns ep) (cid_key (cid_random b)) = None" and "only_at (cid_key (cid_random b)) ep ep'"
  with assms(4) show ?thesis by (cases "k = cid_key (cid_random b)") (simp_all add: only_at_def)
qed

text \<open>
  A callback of the application that runs while a packet is handled may also use streams of other
  connections: \<^verbatim>\<open>Network::call\<close> runs such calls at once.  \<open>do_elsewhere\<close> performs calls on connections of
  the endpoint given by their ids; one on a connection outside the map leaves the map as it is.  Since they
  touch the state of other connections only, doing them after the packet is the same as doing them in between;
  \<open>other\<close> is what the application chooses to do, from the packet and the endpoint before and after it.
\<close>

type_synonym 'ng other_calls = "packet \<Rightarrow> 'ng endpoint \<Rightarrow> 'ng endpoint \<Rightarrow> (bytes \<times> app_action) list"

fun do_elsewhere :: "'ng ngtcp2 \<Rightarrow> (bytes \<times> app_action) list \<Rightarrow> 'ng endpoint \<Rightarrow> 'ng endpoint result" where
  "do_elsewhere ng [] ep = Inr ep"
| "do_elsewhere ng ((k, a) # as) ep =
     (case map_of (conns ep) k of
        Some (Some c) \<Rightarrow> and_then (do_action ng a c) (\<lambda>c'. do_elsewhere ng as (put_conn c' ep))
      | _ \<Rightarrow> do_elsewhere ng as ep)"

definition handle_packet_app ::
  "'ng pkt_api \<Rightarrow> 'ng ngtcp2 \<Rightarrow> app \<Rightarrow> 'ng other_calls \<Rightarrow> 'os udp_env \<Rightarrow> u64 \<Rightarrow> bytes \<Rightarrow> packet \<Rightarrow> bytes list \<Rightarrow>
   'ng endpoint \<Rightarrow> 'os \<Rightarrow> ('ng endpoint \<times> bytes list \<times> 'os) result option" where
  "handle_packet_app pk ng ap other env now junk pkt rnd ep os =
     obind (handle_packet pk ng ap env now junk pkt rnd ep os) (\<lambda>(ep1, rnd1, os1).
     obind (Some (do_elsewhere ng (other pkt ep ep1) ep1)) (\<lambda>ep2. Some (Inr (ep2, rnd1, os1))))"

text \<open>The calls of a list that are made on one connection.\<close>

definition calls_on :: "bytes \<Rightarrow> (bytes \<times> app_action) list \<Rightarrow> app_action list" where
  "calls_on k as = map snd (filter (\<lambda>x. fst x = k) as)"

lemma calls_on_simps [simp]:
  "calls_on k [] = []" "calls_on k ((k', a) # as) = (if k' = k then a # calls_on k as else calls_on k as)"
  by (simp_all add: calls_on_def)

lemma calls_on_none: "list_all (\<lambda>x. fst x \<noteq> k) as \<Longrightarrow> calls_on k as = []"
  by (auto simp: calls_on_def list_all_iff filter_empty_conv)

lemma act_on_conn:
  assumes "ep_inv ep" and "map_of (conns ep) k = Some (Some c)" and "do_action ng a c = Inr c'"
  shows "ep_inv (put_conn c' ep)" "map_of (conns (put_conn c' ep)) = (map_of (conns ep))(k \<mapsto> Some c')"
proof -
  from ep_invD [OF assms(1,2)] same_id_action [OF assms(3)]
  have k: "cid_key (cn_source_cid c') = k" "length k = NGTCP2_MAX_CIDLEN" by (simp_all add: conn_at_def same_id_def)
  show "ep_inv (put_conn c' ep)"
    using only_at_inv [OF only_at_put [OF ep_inv_wf [OF assms(1)] k(1)] assms(1) k(2)] .
  show "map_of (conns (put_conn c' ep)) = (map_of (conns ep))(k \<mapsto> Some c')"
    by (rule ext) (simp add: put_conn_def um.find_put [OF ep_inv_wf [OF assms(1)]] k(1))
qed

lemma do_elsewhere_effect:
  "do_elsewhere ng as ep = Inr ep' \<Longrightarrow> ep_inv ep \<Longrightarrow>
   ep_inv ep' \<and>
   (map_of (conns ep) k = Some None \<longrightarrow> map_of (conns ep') k = Some None) \<and>
   (\<forall>c. map_of (conns ep) k = Some (Some c) \<longrightarrow>
      (\<exists>c'. do_actions ng (calls_on k as) c = Inr c' \<and> map_of (conns ep') k = Some (Some c')))"
proof (induction ng as ep rule: do_elsewhere.induct)
  case (2 ng k' a as ep)
  show ?case
  proof (cases "\<exists>c. map_of (conns ep) k' = Some (Some c)")
    case True
    then obtain c where at: "map_of (conns ep) k' = Some (Some c)" ..
    with "2.prems"(1) obtain c' where act: "do_action ng a c = Inr c'"
      and rest: "do_elsewhere ng as (put_conn c' ep) = Inr ep'" by (auto elim!: and_then_InrE)
    note put = act_on_conn [OF "2.prems"(2) at act]
    from "2.IH"(3) [OF at refl rest put(1)] act at show ?thesis by (cases "k = k'") (simp_all add: put(2))
  next
    case False
    then consider (none) "map_of (conns ep) k' = None" | (null) "map_of (conns ep) k' = Some None"
      by (cases "map_of (conns ep) k'") (auto simp: not_None_eq)
    then have "do_elsewhere ng as ep = Inr ep'" using "2.prems"(1) by cases simp_all
    moreover have "map_of (conns ep) k = Some (Some c) \<Longrightarrow> k' \<noteq> k" for c using False by blast
    ultimately show ?thesis using "2.IH"(1,2) "2.prems"(2) False by (cases "map_of (conns ep) k'") auto
  qed
qed simp

lemma handle_packet_app_effect:
  assumes inv: "ep_inv ep" and rnd: "rnd_ok rnd"
    and r: "handle_packet_app pk ng ap other env now junk pkt rnd ep os = Some (Inr (ep', rnd', os'))"
  obtains ep1 where "handle_packet pk ng ap env now junk pkt rnd ep os = Some (Inr (ep1, rnd', os'))"
    and "do_elsewhere ng (other pkt ep ep1) ep1 = Inr ep'" and "ep_inv ep1"
proof -
  from r obtain ep1 where h: "handle_packet pk ng ap env now junk pkt rnd ep os = Some (Inr (ep1, rnd', os'))"
    and d: "do_elsewhere ng (other pkt ep ep1) ep1 = Inr ep'"
    by (auto simp: handle_packet_app_def elim!: obind_InrE)
  show thesis by (rule that [OF h d ep_inv_packet [OF inv handle_packet_effect [OF inv h] rnd]])
qed

text \<open>
  C6: A received packet affects at most one connection of itself: the one its destination id names, or a new
  one.  Whatever ngtcp2 does with the packet and whatever streams the callbacks of the application use while it is
  handled, every other connection ends in exactly the state that the calls made on it lead to from the state it was
  in; without such a call it is unchanged.
\<close>

theorem packet_isolation:
  assumes "ep_inv ep" and "rnd_ok rnd"
    and "handle_packet_app pk ng ap other env now junk pkt rnd ep os = Some (Inr (ep', rnd', os'))"
    and "pk_decode pk (pkt_data pkt) = (rv, vid)" and "map_of (conns ep) k = Some x" and "k \<noteq> vc_dcid vid"
  shows "\<exists>ep1. handle_packet pk ng ap env now junk pkt rnd ep os = Some (Inr (ep1, rnd', os')) \<and>
    (case x of
       None \<Rightarrow> map_of (conns ep') k = Some None
     | Some c \<Rightarrow> \<exists>c'. do_actions ng (calls_on k (other pkt ep ep1)) c = Inr c' \<and> map_of (conns ep') k = Some (Some c'))"
proof -
  from handle_packet_app_effect [OF assms(1-3)] obtain ep1 where
    h: "handle_packet pk ng ap env now junk pkt rnd ep os = Some (Inr (ep1, rnd', os'))"
    and d: "do_elsewhere ng (other pkt ep ep1) ep1 = Inr ep'" and inv: "ep_inv ep1" .
  from packet_keeps_others [OF assms(1) h assms(4-6)] do_elsewhere_effect [OF d inv, of k] h show ?thesis
    by (cases x) auto
qed

text \<open>
  A packet with an unknown destination id is dropped without any change to the connections when the
  endpoint does not accept connections.
\<close>

theorem unknown_packet_dropped:
  assumes "\<not> accepting_inbound ep" and "pk_decode pk (pkt_data pkt) = (NG_OK, vid)"
    and "length (vc_dcid vid) \<le> NGTCP2_MAX_CIDLEN" and "map_of (conns ep) (vc_dcid vid) = None"
  shows "handle_packet pk ng ap env now junk pkt rnd ep os = Some (Inr (ep, rnd, os))"
  using assms
  by (simp add: handle_packet_def handle_packet_connid_def cid_make_def get_conn_def cid_key_def)

text \<open>With a socket a one-shot packet is given to it or queued, and no connection is deleted.\<close>

text \<open>The socket's answer to a single packet is a refusal: nothing was taken, and not because of a final error.\<close>

definition refusal :: "io_result \<Rightarrow> nat \<Rightarrow> bool" where
  "refusal r sn \<longleftrightarrow> sn = 0 \<and> (io_failure r \<longrightarrow> io_blocked r)"

lemma ep_send_returns:
  assumes env: "env_ok env" and buf: "dgram_ok (length buf)"
  shows "\<exists>r sn os'. ue_send env os [length buf] = Some (Inr ((r, sn), os')) \<and>
    ep_send_packet env p buf cb ep os =
      Some (Inr (ep\<lparr>sent := sent ep @ [(p, buf)], waiting := waiting ep @ (if refusal r sn then [(p, buf, cb)] else [])\<rparr>, os'))"
proof -
  have ok: "[length buf] \<noteq> [] \<and> length [length buf] \<le> ue_max_batch env \<and> list_all dgram_ok [length buf]"
    using env buf by (simp add: env_ok_def)
  with env obtain r sn os' where s: "ue_send env os [length buf] = Some (Inr ((r, sn), os'))"
    and pr: "sender_promise env os [length buf]"
    unfolding env_ok_def by blast
  from pr s have le: "sn \<le> 1" "io_failure r \<Longrightarrow> sn = 0" by (auto simp: sender_promise_def)
  have e: "io_blocked (Io_errno EAGAIN)" "\<not> io_blocked (Io_errno 0)" by (simp_all add: utils_consts)
  have m: "1 \<le> ue_max_batch env" "ue_socket env" using env by (simp_all add: env_ok_def)
  have "\<exists>res b. send_packets True (ue_max_batch env) (ue_send env)
      \<lparr>sb_buf = buf, sb_sizes = [length buf], sb_n = 1\<rparr> os = Some (Inr (res, b, os')) \<and> (io_blocked res \<longleftrightarrow> refusal r sn)"
    using s le e m by (cases "sn = 0") (auto simp: send_packets_def refusal_def Let_def)
  with m s show ?thesis
    by (auto simp: ep_send_packet_def send_or_queue_packet_def Let_def)
qed

section \<open>Draining\<close>

lemma drain_entry:
  assumes "ep_inv ep" and "map_of (conns ep) k = Some (Some c)" and "\<not> draining c"
  shows "map_of (conns (drain_connection ng now c ep)) k = Some (Some ((call_closing c)\<lparr>draining := True\<rparr>))"
    and "draining_map (drain_connection ng now c ep) =
      fst (omap_emplace (now + ng_get_pto ng (cn_ng c) * 3) (cn_source_cid c) (draining_map ep))"
proof -
  have id: "cn_source_cid (call_closing c) = cn_source_cid c" "cn_ng (call_closing c) = cn_ng c"
    by (simp_all add: call_closing_def split: option.splits)
  from ep_invD [OF assms(1,2)] have "cid_key (cn_source_cid c) = k" by (simp add: conn_at_def)
  with assms(3) id show "map_of (conns (drain_connection ng now c ep)) k = Some (Some ((call_closing c)\<lparr>draining := True\<rparr>))"
    by (simp add: drain_connection_def Let_def put_conn_def um.find_put [OF ep_inv_wf [OF assms(1)]])
  from assms(3) id show "draining_map (drain_connection ng now c ep) =
      fst (omap_emplace (now + ng_get_pto ng (cn_ng c) * 3) (cn_source_cid c) (draining_map ep))"
    by (simp add: drain_connection_def Let_def put_conn_def)
qed

text \<open>
  An expired deadline with another entry besides it: the sorted map has an expired first entry and a second one.
\<close>

lemma check_timeouts_two:
  assumes "omap_wf m" and "draining_map ep = m" and "2 \<le> length m" and "d \<in> fst ` set m" and "d < t"
  shows "check_timeouts t ep = Inl Use_of_erased_iterator"
proof -
  from assms(3) obtain e e' m' where m: "m = e # e' # m'"
    by (metis (no_types) Suc_le_length_iff numeral_2_eq_2)
  with assms(1,4) have "fst e \<le> d" by (auto simp: omap_wf_def)
  with assms(2,5) m show ?thesis by (cases e) (simp add: check_timeouts_def Let_def)
qed

text \<open>
  C32: A connection that enters the draining period while no other connection drains is kept, marked as draining, for three
  probe timeouts, and the first timeout check after that removes it from the endpoint.  When another connection
  drains with a different deadline, the first timeout check after the earlier of the two deadlines reads the
  iterator it has just erased, and with the same deadline the connection gets no entry of its own.
\<close>

theorem drained_connection_expires:
  assumes "ep_inv ep" and "map_of (conns ep) k = Some (Some c)" and "\<not> draining c"
    and "ep1 = drain_connection ng now c ep" and "deadline = now + ng_get_pto ng (cn_ng c) * 3"
  shows "(draining_map ep = [] \<longrightarrow>
      (if t \<le> deadline
       then check_timeouts t ep1 = Inr ep1 \<and> (\<exists>c'. map_of (conns ep1) k = Some (Some c') \<and> draining c')
       else \<exists>ep2. check_timeouts t ep1 = Inr ep2 \<and> map_of (conns ep2) k = None \<and> draining_map ep2 = [])) \<and>
    (draining_map ep \<noteq> [] \<and> deadline \<notin> fst ` set (draining_map ep) \<and> (\<exists>d \<in> insert deadline (fst ` set (draining_map ep)). d < t) \<longrightarrow>
      check_timeouts t ep1 = Inl Use_of_erased_iterator) \<and>
    (deadline \<in> fst ` set (draining_map ep) \<longrightarrow> draining_map ep1 = draining_map ep)"
proof (intro conjI impI)
  from ep_invD [OF assms(1,2)] have k: "cid_key (cn_source_cid c) = k" by (simp add: conn_at_def)
  note d = drain_entry [OF assms(1-3), of ng now, folded assms(4,5)]
  have wf: "omap_wf (draining_map ep)" using assms(1) by (simp add: ep_inv_def)
  {
    assume "draining_map ep = []"
    with d(2) have m: "draining_map ep1 = [(deadline, cn_source_cid c)]" by simp
    show "if t \<le> deadline
      then check_timeouts t ep1 = Inr ep1 \<and> (\<exists>c'. map_of (conns ep1) k = Some (Some c') \<and> draining c')
      else \<exists>ep2. check_timeouts t ep1 = Inr ep2 \<and> map_of (conns ep2) k = None \<and> draining_map ep2 = []"
    proof (cases "t \<le> deadline")
      case True
      with m d(1) show ?thesis by (simp add: check_timeouts_def)
    next
      case False
      then have "deadline < t" by simp
      with m d(1) k False show ?thesis by (simp add: check_timeouts_def um.find_erase)
    qed
  }
  {
    assume two: "draining_map ep \<noteq> [] \<and> deadline \<notin> fst ` set (draining_map ep) \<and>
      (\<exists>d \<in> insert deadline (fst ` set (draining_map ep)). d < t)"
    then have new: "map_of (draining_map ep) deadline = None" by (simp add: map_of_eq_None_iff)
    with d(2) have m: "draining_map ep1 = omap_put deadline (cn_source_cid c) (draining_map ep)" by simp
    from two obtain d where dt: "d \<in> insert deadline (fst ` set (draining_map ep))" "d < t" by blast
    have "d \<in> fst ` set (draining_map ep1)" using dt(1) by (simp add: m om.keys_put [OF wf])
    moreover have "omap_wf (draining_map ep1)" by (simp add: m om.wf_put wf)
    moreover have "2 \<le> length (draining_map ep1)" using om.length_put [OF wf new] two by (cases "draining_map ep") (simp_all add: m)
    ultimately show "check_timeouts t ep1 = Inl Use_of_erased_iterator" using check_timeouts_two dt(2) by blast
  }
  assume "deadline \<in> fst ` set (draining_map ep)"
  then obtain cid where "map_of (draining_map ep) deadline = Some cid"
    by (metis map_of_eq_None_iff not_None_eq)
  with d(2) show "draining_map ep1 = draining_map ep" by simp
qed

text \<open>
  With two or more connections draining, the first expired deadline makes the timeout check read the
  iterator it just erased.
\<close>

theorem check_timeouts_erased_iterator:
  assumes "draining_map ep = (t, cid) # e # rest" and "t < now"
  shows "check_timeouts now ep = Inl Use_of_erased_iterator"
  using assms by (simp add: check_timeouts_def Let_def)

text \<open>
  A connection whose drain deadline equals the one of a connection that is draining already gets no
  entry of its own: the map of deadlines stays as it is, so that no timeout check will ever remove the
  connection.
\<close>

theorem drain_equal_deadline_lost:
  assumes "ep_inv ep" and "map_of (conns ep) k = Some (Some c)" and "\<not> draining c"
    and "map_of (draining_map ep) (now + ng_get_pto ng (cn_ng c) * 3) = Some cid"
  shows "draining_map (drain_connection ng now c ep) = draining_map ep \<and>
    map_of (conns (drain_connection ng now c ep)) k = Some (Some ((call_closing c)\<lparr>draining := True\<rparr>))"
  using drain_entry [OF assms(1-3), of ng now] assms(4) by simp_all

section \<open>Closing and connecting\<close>

text \<open>
  When a connection cannot be constructed, \<^verbatim>\<open>connect\<close> reports the error but leaves a null entry under the
  new id, and asking for all connections of a direction then dereferences it.
\<close>

theorem connect_leaves_null_entry:
  assumes "ep_inv ep" and "connect pk p (Inr ctx) dcid rnd ep = Some (Inl f, ep', rnd')"
  shows "(\<exists>k. map_of (conns ep) k = None \<and> map_of (conns ep') k = Some None) \<and>
    get_all_conns (Some d) ep' = Inl Null_dereference"
proof -
  let ?ep1 = "ep\<lparr>outbound_ctx := Some ctx\<rparr>"
  from assms(2) obtain cid where fr: "fresh_cid rnd ?ep1 = Some (cid, rnd')"
    and ep': "ep' = ?ep1\<lparr>conns := umap_put (cid_key cid) None (conns ep)\<rparr>"
    by (auto simp: connect_def Let_def split: option.splits sum.splits)
  from ep' have null: "map_of (conns ep') (cid_key cid) = Some None"
    by (simp add: um.find_put [OF ep_inv_wf [OF assms(1)]])
  with fresh_cid_new [OF fr] have "\<exists>k. map_of (conns ep) k = None \<and> map_of (conns ep') k = Some None" by auto
  moreover from map_of_SomeD [OF null] have "get_all_conns (Some d) ep' = Inl Null_dereference"
    by (auto simp: get_all_conns_def list_ex_iff intro: bexI [of _ "(cid_key cid, None)"])
  ultimately show ?thesis ..
qed

text \<open>
  The packet that closes a connection always has the full size of the buffer, 1452 bytes, however few
  bytes ngtcp2 wrote into it; the rest is zero.
\<close>

theorem close_packet_padded:
  assumes "ng_write_connection_close ng code msg max_payload_size now (cn_ng c) = (int (length out), out, g)"
    and "0 < length out" and "length out \<le> max_payload_size" and "\<not> closing c" and "\<not> draining c"
    and "code \<noteq> NG_IDLE_CLOSE" and "ue_socket env"
    and "close_connection ng env now code msg c ep os = Some (Inr (ep', os'))"
  shows "\<exists>buf. sent ep' = sent ep @ [(cn_path c, buf)] \<and> length buf = max_payload_size \<and>
    buf = out @ replicate (max_payload_size - length out) 0"
proof -
  have "ep_send_packet env (cn_path c) (fill_buffer out) (Some (cn_source_cid c)) (put_conn (c\<lparr>cn_ng := g\<rparr>) ep) os =
      Some (Inr (ep', os'))"
    using assms by (simp add: close_connection_def)
  with \<open>ue_socket env\<close> have "sent ep' = sent ep @ [(cn_path c, fill_buffer out)]"
    by (auto simp: ep_send_packet_def send_or_queue_packet_def put_conn_def Let_def elim!: obind_InrE
        split: option.splits sum.splits)
  with assms(3) show ?thesis by (simp add: fill_buffer_def)
qed

text \<open>
  Closing a connection after its idle timeout deletes it and sends no packet; closing one that drains
  leaves the endpoint as it is and sends none either.
\<close>

theorem close_without_packet:
  assumes "ep_inv ep" and "map_of (conns ep) k = Some (Some c)" and "\<not> closing c"
    and "draining c \<or> code = NG_IDLE_CLOSE"
  shows "\<exists>ep'. close_connection ng env now code msg c ep os = Some (Inr (ep', os)) \<and>
    map_of (conns ep') = (map_of (conns ep))(k := if draining c then Some (Some c) else None) \<and>
    sent ep' = sent ep \<and> waiting ep' = waiting ep"
proof -
  from ep_invD [OF assms(1,2)] have "cid_key (cn_source_cid c) = k" by (simp add: conn_at_def)
  with assms show ?thesis
    by (auto simp: close_connection_def delete_connection_def put_conn_def um.find_put [OF ep_inv_wf [OF assms(1)]]
        um.find_erase)
qed

section \<open>Instances\<close>

text \<open>
  An endpoint with two connections, and a packet library that reads the id from the first twenty bytes;
  creating a TLS session throws.
\<close>

abbreviation any_path :: path where
  "any_path \<equiv> \<lparr>path_local = address_default, path_remote = address_default\<rparr>"

definition conn_with :: "byte \<Rightarrow> nat connection" where
  "conn_with b = sample_conn\<lparr>cn_source_cid := cid_random (replicate 20 b)\<rparr>"

definition two_conns :: "nat endpoint" where
  "two_conns = ep_init\<lparr>conns := [(replicate 20 0, Some (conn_with 0)), (replicate 20 1, Some (conn_with 1))]\<rparr>"

lemma two_conns_inv: "ep_inv two_conns"
  by (simp add: ep_inv_def two_conns_def ep_init_def umap_wf_def omap_wf_def conn_at_def conn_with_def cid_key_def
      cid_random_def NGTCP2_MAX_CIDLEN_def)

lemma two_conns_find:
  "map_of (conns two_conns) (replicate 20 0) = Some (Some (conn_with 0))"
  "map_of (conns two_conns) (replicate 20 1) = Some (Some (conn_with 1))"
  by (simp_all add: two_conns_def)

lemma conn_with_fields [simp]:
  "closing (conn_with b) = False" "draining (conn_with b) = False" "cn_ng (conn_with b) = 3"
  "cn_source_cid (conn_with b) = cid_random (replicate 20 b)" "cn_path (conn_with b) = any_path"
  by (simp_all add: conn_with_def sample_conn_def)

definition sample_pk :: "nat pkt_api" where
  "sample_pk = \<lparr>pk_decode = (\<lambda>d. (NG_OK, \<lparr>vc_dcid = take 20 d, vc_scid = []\<rparr>)),
     pk_accept = (\<lambda>d. (False, \<lparr>hd_dcid = sample_cid 0, hd_scid = sample_cid 0, hd_token = [], hd_is_initial = True, hd_is_0rtt = False\<rparr>)),
     pk_write_version_negotiation = (\<lambda>n vid vs. (1, [0])), pk_ver_min = 1, pk_ver_max = 1,
     pk_conn_new = (\<lambda>d dc sc p st ps. Some 0), pk_tls = (\<lambda>b g. Inl Runtime_error), pk_now = 0, pk_junk = [], pk_junk_sizes = []\<rparr>"

definition sample_pkt :: "byte \<Rightarrow> packet" where
  "sample_pkt b = \<lparr>pkt_path = any_path, pkt_data = replicate 20 b, pkt_ecn = 0\<rparr>"

theorem endpoint_conns_wf_witness:
  "accepting_inbound (snd (listen (Inr sample_ctx) ep_init)) \<and> ep_inv (snd (listen (Inr sample_ctx) (ep_init :: nat endpoint)))"
proof
  show "accepting_inbound (snd (listen (Inr sample_ctx) ep_init))" by (simp add: listen_def)
  have "ep_step sample_ng life_app (kernel_env 1) ep_init (snd (listen (Inr sample_ctx) ep_init))"
    by (rule ep_listen [where mk_ctx = "Inr sample_ctx"]) (simp add: listen_def)
  then show "ep_inv (snd (listen (Inr sample_ctx) (ep_init :: nat endpoint)))"
    by (intro endpoint_conns_wf) (rule r_into_rtranclp)
qed

definition after_packet :: "nat endpoint" where
  "after_packet = put_conn (io_ready ((conn_with 0)\<lparr>cn_ng := 3\<rparr>)) two_conns"

lemma sample_packet:
  "handle_packet sample_pk sample_ng life_app (kernel_env 1) 5 (replicate 20 0) (sample_pkt 0) [] two_conns () =
     Some (Inr (after_packet, [], ()))"
  by (simp add: handle_packet_def handle_packet_connid_def sample_pk_def sample_pkt_def NGTCP2_MAX_CIDLEN_def
      cid_make_def get_conn_def cid_key_def two_conns_find handle_conn_packet_def read_packet_def conn_read_pkt_def
      sample_ng_def after_packet_def)

text \<open>An application that opens a stream of the other connection while the packet is handled.\<close>

definition sample_other :: "nat other_calls" where
  "sample_other pkt ep ep1 = [(replicate 20 1, Act_open_stream None None)]"

definition after_packet_app :: "nat endpoint" where
  "after_packet_app = put_conn (snd (get_new_stream sample_ng None None (conn_with 1))) after_packet"

lemma after_packet_find: "map_of (conns after_packet) (replicate 20 1) = Some (Some (conn_with 1))"
  by (rule packet_keeps_others [OF two_conns_inv sample_packet _ two_conns_find(2),
        where rv = NG_OK and vid = "\<lparr>vc_dcid = replicate 20 0, vc_scid = []\<rparr>"])
    (simp_all add: sample_pk_def sample_pkt_def)

lemma sample_packet_app:
  "handle_packet_app sample_pk sample_ng life_app sample_other (kernel_env 1) 5 (replicate 20 0) (sample_pkt 0) [] two_conns () =
     Some (Inr (after_packet_app, [], ()))"
  by (simp add: handle_packet_app_def sample_packet [unfolded One_nat_def] sample_other_def after_packet_find
      after_packet_app_def)

theorem packet_isolation_witness:
  "map_of (conns after_packet_app) (replicate 20 1) =
     Some (Some (snd (get_new_stream sample_ng None None (conn_with 1))))"
proof -
  have "\<exists>ep1. handle_packet sample_pk sample_ng life_app (kernel_env 1) 5 (replicate 20 0) (sample_pkt 0) [] two_conns () =
      Some (Inr (ep1, [], ())) \<and>
    (case Some (conn_with 1) of
       None \<Rightarrow> map_of (conns after_packet_app) (replicate 20 1) = Some None
     | Some c \<Rightarrow> \<exists>c'. do_actions sample_ng (calls_on (replicate 20 1) (sample_other (sample_pkt 0) two_conns ep1)) c = Inr c' \<and>
         map_of (conns after_packet_app) (replicate 20 1) = Some (Some c'))"
    by (rule packet_isolation [OF two_conns_inv _ sample_packet_app _ two_conns_find(2),
          where rv = NG_OK and vid = "\<lparr>vc_dcid = replicate 20 0, vc_scid = []\<rparr>"])
      (simp_all add: sample_pk_def sample_pkt_def rnd_ok_def)
  then show ?thesis by (auto simp: sample_other_def)
qed

theorem unknown_packet_dropped_witness:
  "handle_packet sample_pk sample_ng life_app (kernel_env 1) 5 (replicate 20 0) (sample_pkt 7) [] two_conns () =
     Some (Inr (two_conns, [], ()))"
  by (rule unknown_packet_dropped [where vid = "\<lparr>vc_dcid = replicate 20 7, vc_scid = []\<rparr>"])
    (simp_all add: sample_pk_def sample_pkt_def two_conns_def ep_init_def NGTCP2_MAX_CIDLEN_def)

abbreviation drained :: "nat endpoint" where
  "drained \<equiv> drain_connection sample_ng 100 (conn_with 0) two_conns"

theorem drained_connection_expires_witness:
  "check_timeouts 3100 drained = Inr drained \<and>
   (\<exists>ep2. check_timeouts 3101 drained = Inr ep2 \<and> map_of (conns ep2) (replicate 20 0) = None)"
proof
  note exp = drained_connection_expires [OF two_conns_inv two_conns_find(1) _ refl refl, where ng = sample_ng and now = 100]
  show "check_timeouts 3100 drained = Inr drained"
    using exp [where t = 3100] by (simp add: two_conns_def ep_init_def sample_ng_def)
  show "\<exists>ep2. check_timeouts 3101 drained = Inr ep2 \<and> map_of (conns ep2) (replicate 20 0) = None"
    using exp [where t = 3101] by (auto simp: two_conns_def ep_init_def sample_ng_def)
qed

theorem check_timeouts_erased_iterator_witness:
  "check_timeouts 5000 (two_conns\<lparr>draining_map := [(3100, sample_cid 0), (3200, sample_cid 1)]\<rparr>) = Inl Use_of_erased_iterator"
  by (rule check_timeouts_erased_iterator [where t = 3100 and cid = "sample_cid 0" and e = "(3200, sample_cid 1)" and rest = "[]"])
    simp_all

theorem drain_equal_deadline_lost_witness:
  "draining_map (drain_connection sample_ng 100 (conn_with 1) drained) = [(3100, cid_random (replicate 20 0))] \<and>
   map_of (conns (drain_connection sample_ng 100 (conn_with 1) drained)) (replicate 20 1) =
     Some (Some ((call_closing (conn_with 1))\<lparr>draining := True\<rparr>))"
proof -
  have k: "cid_key (cn_source_cid (conn_with 0)) = replicate 20 0"
    by (simp add: cid_key_def cid_random_def NGTCP2_MAX_CIDLEN_def)
  have o: "only_at (replicate 20 0) two_conns drained" by (rule only_at_drain [OF ep_inv_wf [OF two_conns_inv] k])
  have inv: "ep_inv drained" by (rule only_at_inv [OF o two_conns_inv]) (simp add: NGTCP2_MAX_CIDLEN_def)
  have at: "map_of (conns drained) (replicate 20 1) = Some (Some (conn_with 1))"
    using o two_conns_find(2) by (simp add: only_at_def)
  have d: "draining_map drained = [(3100, cid_random (replicate 20 0))]"
    using drain_entry(2) [OF two_conns_inv two_conns_find(1), of sample_ng 100]
    by (simp add: two_conns_def ep_init_def sample_ng_def)
  from drain_equal_deadline_lost [OF inv at, of 100 sample_ng "cid_random (replicate 20 0)"] d show ?thesis
    by (simp add: sample_ng_def)
qed

theorem connect_leaves_null_entry_witness:
  "(\<exists>k. map_of (conns two_conns) k = None \<and>
     map_of (conns (two_conns\<lparr>outbound_ctx := Some sample_ctx,
        conns := umap_put (replicate 20 9) None (conns two_conns)\<rparr>)) k = Some None) \<and>
   get_all_conns (Some OUTBOUND) (two_conns\<lparr>outbound_ctx := Some sample_ctx,
        conns := umap_put (replicate 20 9) None (conns two_conns)\<rparr>) = Inl Null_dereference"
  by (rule connect_leaves_null_entry [OF two_conns_inv, where pk = sample_pk and p = any_path and dcid = "sample_cid 0"
        and rnd = "[replicate 20 9]" and f = Runtime_error and rnd' = "[]"])
    (simp add: connect_def two_conns_def cid_key_def cid_random_def NGTCP2_MAX_CIDLEN_def pk_make_conn_def make_conn_def
      conn_construct_def conn_init_def sample_pk_def)

theorem close_packet_padded_witness:
  "\<exists>ep' buf. close_connection sample_ng (kernel_env 1) 5 NG_OK ''NO_ERROR'' (conn_with 0) two_conns () = Some (Inr (ep', ())) \<and>
     sent ep' = sent two_conns @ [(any_path, buf)] \<and> length buf = max_payload_size"
proof -
  have c: "\<exists>ep'. close_connection sample_ng (kernel_env 1) 5 NG_OK ''NO_ERROR'' (conn_with 0) two_conns () = Some (Inr (ep', ()))"
    by (simp add: close_connection_def sample_ng_def ep_send_packet_def send_or_queue_packet_def send_packets_def
        kernel_env_def MAX_BATCH_def udp_send_def udp_send_mmsg_def utils_consts fill_buffer_def Let_def)
  then obtain ep' where c': "close_connection sample_ng (kernel_env 1) 5 NG_OK ''NO_ERROR'' (conn_with 0) two_conns () = Some (Inr (ep', ()))" ..
  have "\<exists>buf. sent ep' = sent two_conns @ [(cn_path (conn_with 0), buf)] \<and> length buf = max_payload_size \<and>
      buf = [0] @ replicate (max_payload_size - length [0 :: byte]) 0"
    by (rule close_packet_padded [OF _ _ _ _ _ _ _ c', where g = 3])
      (simp_all add: sample_ng_def kernel_env_def utils_consts)
  with c' show ?thesis by auto
qed

theorem close_without_packet_witness:
  "\<exists>ep'. close_connection sample_ng (kernel_env 1) 5 NG_IDLE_CLOSE [] (conn_with 0) two_conns () = Some (Inr (ep', ())) \<and>
     map_of (conns ep') (replicate 20 0) = None \<and> sent ep' = []"
  using close_without_packet [OF two_conns_inv two_conns_find(1), of NG_IDLE_CLOSE sample_ng "kernel_env 1" 5 "[]" "()"]
  by (auto simp: two_conns_def ep_init_def)

end
