(* ===== verification/Quic_Shutdown.thy ===== *)
theory Quic_Shutdown
  imports Quic_Ep_Life Quic_Network
begin

text \<open>
  Closing connections and shutting down: what \<^verbatim>\<open>Endpoint::close_conns\<close> sends and leaves behind, and the graceful
  shutdown of a network over its endpoints.
\<close>

section \<open>Closing the connections of an endpoint\<close>

text \<open>What ngtcp2 writes to close a connection without an error, and the connections that are asked to.\<close>

definition close_write :: "'ng ngtcp2 \<Rightarrow> u64 \<Rightarrow> 'ng connection \<Rightarrow> int \<times> bytes \<times> 'ng" where
  "close_write ng now c = ng_write_connection_close ng NG_OK ''NO_ERROR'' max_payload_size now (cn_ng c)"

definition close_packet :: "'ng ngtcp2 \<Rightarrow> u64 \<Rightarrow> 'ng connection \<Rightarrow> path \<times> bytes" where
  "close_packet ng now c = (cn_path c, fill_buffer (fst (snd (close_write ng now c))))"

definition after_close :: "'ng ngtcp2 \<Rightarrow> u64 \<Rightarrow> 'ng connection \<Rightarrow> 'ng connection" where
  "after_close ng now c = c\<lparr>cn_ng := snd (snd (close_write ng now c))\<rparr>"

definition wants_close :: "direction option \<Rightarrow> 'ng connection \<Rightarrow> bool" where
  "wants_close d c \<longleftrightarrow> (d = None \<or> d = Some (cn_dir c)) \<and> \<not> closing c \<and> \<not> draining c"

text \<open>ngtcp2 writes a close packet that fits the buffer.\<close>

definition closable :: "'ng ngtcp2 \<Rightarrow> u64 \<Rightarrow> 'ng connection \<Rightarrow> bool" where
  "closable ng now c \<longleftrightarrow> 0 < fst (close_write ng now c) \<and> fst (close_write ng now c) \<le> int max_payload_size \<and>
     length (fst (snd (close_write ng now c))) \<le> max_payload_size"

definition closed_conn :: "'ng ngtcp2 \<Rightarrow> u64 \<Rightarrow> direction option \<Rightarrow> 'ng connection \<Rightarrow> 'ng connection" where
  "closed_conn ng now d c = (if wants_close d c then after_close ng now c else c)"

definition close_packets :: "'ng ngtcp2 \<Rightarrow> u64 \<Rightarrow> direction option \<Rightarrow> 'ng connection list \<Rightarrow> (path \<times> bytes) list" where
  "close_packets ng now d cs = map (close_packet ng now) (filter (wants_close d) cs)"

text \<open>The packets that wait for the socket.\<close>

definition waiting_packets :: "'ng endpoint \<Rightarrow> (path \<times> bytes) list" where
  "waiting_packets ep = map (\<lambda>(p, buf, cb). (p, buf)) (waiting ep)"

text \<open>
  The packets of a list that the socket refuses when it is given them one after the other, and its state afterwards;
  one that fails for good is lost, not refused.
\<close>

fun refused :: "'os udp_env \<Rightarrow> (path \<times> bytes) list \<Rightarrow> 'os \<Rightarrow> (path \<times> bytes) list \<times> 'os" where
  "refused env [] os = ([], os)"
| "refused env (pk # pks) os =
     (case ue_send env os [length (snd pk)] of
        Some (Inr ((r, sn), os1)) \<Rightarrow>
          (let (ws, os2) = refused env pks os1 in (if refusal r sn then pk # ws else ws, os2))
      | _ \<Rightarrow> ([], os))"

fun refused_each :: "'os udp_env \<Rightarrow> (path \<times> bytes) list list \<Rightarrow> 'os \<Rightarrow> (path \<times> bytes) list list" where
  "refused_each env [] os = []"
| "refused_each env (pks # pkss) os = fst (refused env pks os) # refused_each env pkss (snd (refused env pks os))"

lemma fill_buffer_size: "length out \<le> max_payload_size \<Longrightarrow> dgram_ok (length (fill_buffer out))"
  by (simp add: fill_buffer_def dgram_ok_def utils_consts)

lemma close_connection_returns:
  assumes env: "env_ok env" and c: "\<not> closing c" "\<not> draining c" and w: "closable ng now c"
  shows "\<exists>r sn os'. ue_send env os [length (snd (close_packet ng now c))] = Some (Inr ((r, sn), os')) \<and>
    close_connection ng env now NG_OK ''NO_ERROR'' c ep os =
    Some (Inr ((put_conn (after_close ng now c) ep)\<lparr>sent := sent ep @ [close_packet ng now c],
      waiting := waiting ep @ (if refusal r sn then [(fst (close_packet ng now c), snd (close_packet ng now c), Some (cn_source_cid c))] else [])\<rparr>, os'))"
proof -
  obtain n out g where o: "close_write ng now c = (n, out, g)" by (cases "close_write ng now c") auto
  with w have "length out \<le> max_payload_size" "0 < n" "n \<le> int max_payload_size" by (simp_all add: closable_def)
  moreover from ep_send_returns [OF env fill_buffer_size [OF this(1)], of os "cn_path c" "Some (cn_source_cid c)"
      "put_conn (after_close ng now c) ep"]
  obtain r sn os' where s: "ue_send env os [length (fill_buffer out)] = Some (Inr ((r, sn), os'))"
    "ep_send_packet env (cn_path c) (fill_buffer out) (Some (cn_source_cid c)) (put_conn (after_close ng now c) ep) os =
      Some (Inr ((put_conn (after_close ng now c) ep)\<lparr>sent := sent (put_conn (after_close ng now c) ep) @ [(cn_path c, fill_buffer out)],
        waiting := waiting (put_conn (after_close ng now c) ep) @
          (if refusal r sn then [(cn_path c, fill_buffer out, Some (cn_source_cid c))] else [])\<rparr>, os'))" by blast
  ultimately show ?thesis
    using c o
    by (intro exI [of _ r] exI [of _ sn] exI [of _ os'])
      (simp add: close_connection_def close_write_def [symmetric] close_packet_def after_close_def put_conn_def)
qed

lemma umap_put_at: "k \<notin> fst ` set pre \<Longrightarrow> umap_put k v (pre @ (k, x) # m) = pre @ (k, v) # m"
  by (induction pre) auto

lemma close_loop_skips:
  assumes at: "map_of (conns ep) k = Some (Some c)" and w: "\<not> wants_close d c" and p: "put_conn c ep = ep"
  shows "close_conns_loop ng env now d (k # ks) ep os = close_conns_loop ng env now d ks ep os"
proof (cases "d \<noteq> None \<and> d \<noteq> Some (cn_dir c)")
  case True
  with at show ?thesis by simp
next
  case False
  with w have "closing c \<or> draining c" by (auto simp: wants_close_def)
  with at False p show ?thesis by (auto simp: close_connection_def)
qed

text \<open>The loop over the map: the entries before the current one are done.\<close>

lemma close_loop_returns:
  assumes env: "env_ok env"
  shows "ep_inv ep \<Longrightarrow> conns ep = pre @ map (\<lambda>(k, c). (k, Some c)) cs \<Longrightarrow>
    list_all (\<lambda>(k, c). wants_close d c \<longrightarrow> closable ng now c) cs \<Longrightarrow>
    \<exists>ep' os'. close_conns_loop ng env now d (map fst cs) ep os = Some (Inr (ep', os')) \<and>
      sent ep' = sent ep @ close_packets ng now d (map snd cs) \<and>
      (waiting_packets ep', os') = apfst (append (waiting_packets ep)) (refused env (close_packets ng now d (map snd cs)) os) \<and>
      conns ep' = pre @ map (\<lambda>(k, c). (k, Some (closed_conn ng now d c))) cs"
proof (induction cs arbitrary: ep pre os)
  case (Cons e cs)
  obtain k c where e: "e = (k, c)" by fastforce
  have conns: "conns ep = pre @ (k, Some c) # map (\<lambda>(k, c). (k, Some c)) cs" using Cons.prems(2) e by simp
  have k: "k \<notin> fst ` set pre" "cid_key (cn_source_cid c) = k"
    using Cons.prems(1) by (auto simp: conns ep_inv_def umap_wf_def conn_at_def)
  then have at: "map_of (conns ep) k = Some (Some c)" by (simp add: conns map_add_Some_iff map_of_eq_None_iff)
  have step: "\<exists>ep' os'. close_conns_loop ng env now d (map fst cs) ep1 os1 = Some (Inr (ep', os')) \<and>
      sent ep' = sent ep1 @ close_packets ng now d (map snd cs) \<and>
      (waiting_packets ep', os') = apfst (append (waiting_packets ep1)) (refused env (close_packets ng now d (map snd cs)) os1) \<and>
      conns ep' = pre @ (k, Some c1) # map (\<lambda>(k, c). (k, Some (closed_conn ng now d c))) cs"
    if "ep_inv ep1" "conns ep1 = pre @ (k, Some c1) # map (\<lambda>(k, c). (k, Some c)) cs" for ep1 os1 c1
    using Cons.IH [of ep1 "pre @ [(k, Some c1)]" os1] that Cons.prems(3) by simp
  show ?case
  proof (cases "wants_close d c")
    case True
    then have c: "\<not> closing c" "\<not> draining c" "\<not> (d \<noteq> None \<and> d \<noteq> Some (cn_dir c))" by (auto simp: wants_close_def)
    have w: "closable ng now c" using Cons.prems(3) True e by simp
    obtain r sn os1 where snd: "ue_send env os [length (snd (close_packet ng now c))] = Some (Inr ((r, sn), os1))"
      and cc: "close_connection ng env now NG_OK ''NO_ERROR'' c ep os =
      Some (Inr ((put_conn (after_close ng now c) ep)\<lparr>sent := sent ep @ [close_packet ng now c],
        waiting := waiting ep @ (if refusal r sn then [(fst (close_packet ng now c), snd (close_packet ng now c), Some (cn_source_cid c))] else [])\<rparr>, os1))"
      (is "_ = Some (Inr (?ep1, os1))")
      using close_connection_returns [OF env c(1,2) w, of os ep] by blast
    have c1: "conns ?ep1 = pre @ (k, Some (after_close ng now c)) # map (\<lambda>(k, c). (k, Some c)) cs"
      using k by (simp add: put_conn_def after_close_def conns umap_put_at)
    have inv: "ep_inv ?ep1" by (rule ep_inv_close [OF Cons.prems(1) at cc])
    then have "map_of (conns ?ep1) k \<noteq> None" by (simp add: c1 map_of_eq_None_iff)
    with step [OF inv c1, of os1] at c(3) cc snd True e show ?thesis
      by (auto simp: close_packets_def closed_conn_def waiting_packets_def apfst_def map_prod_def split: prod.splits)
  next
    case False
    have "put_conn c ep = ep" using k by (simp add: put_conn_def conns umap_put_at)
    from close_loop_skips [OF at False this, of ng env now "map fst cs" os] e
    have "close_conns_loop ng env now d (map fst (e # cs)) ep os = close_conns_loop ng env now d (map fst cs) ep os" by simp
    with step [OF Cons.prems(1) conns, of os] False e show ?thesis by (auto simp: close_packets_def closed_conn_def)
  qed
qed (simp add: close_packets_def)

text \<open>Every connection that is not closing can be closed.\<close>

definition all_closable :: "'ng ngtcp2 \<Rightarrow> u64 \<Rightarrow> direction option \<Rightarrow> (bytes \<times> 'ng connection) list \<Rightarrow> bool" where
  "all_closable ng now d cs \<longleftrightarrow> list_all (\<lambda>(k, c). wants_close d c \<longrightarrow> closable ng now c) cs"

text \<open>
  Closing the connections of an endpoint gives the socket exactly one close packet for each connection of
  the direction asked for that is neither closing nor draining, and removes none of them from the map.
\<close>

lemma close_conns_returns:
  assumes "env_ok env" and "ep_inv ep" and "conns ep = map (\<lambda>(k, c). (k, Some c)) cs" and "all_closable ng now d cs"
  shows "\<exists>ep' os'. close_conns ng env now d ep os = Some (Inr (ep', os')) \<and>
    sent ep' = sent ep @ close_packets ng now d (map snd cs) \<and>
    (waiting_packets ep', os') = apfst (append (waiting_packets ep)) (refused env (close_packets ng now d (map snd cs)) os) \<and>
    conns ep' = map (\<lambda>(k, c). (k, Some (closed_conn ng now d c))) cs"
  using close_loop_returns [OF assms(1,2), of "[]" cs d ng now os] assms(3,4)
  by (simp add: close_conns_def all_closable_def comp_def case_prod_unfold)

lemma wants_close_again: "wants_close d (closed_conn ng now d c) = wants_close d c"
  by (simp add: wants_close_def closed_conn_def after_close_def)

text \<open>
  Closing is not remembered: the flag that would mark a connection as closing is never set, so closing the
  connections again sends a second close packet to each of them.
\<close>

theorem close_conns_again:
  assumes "env_ok env" and "ep_inv ep" and "conns ep = map (\<lambda>(k, c). (k, Some c)) cs" and "all_closable ng now d cs"
    and "all_closable ng now d (map (\<lambda>(k, c). (k, closed_conn ng now d c)) cs)"
  shows "\<exists>ep1 os1 ep2 os2. close_conns ng env now d ep os = Some (Inr (ep1, os1)) \<and>
    close_conns ng env now d ep1 os1 = Some (Inr (ep2, os2)) \<and>
    length (sent ep2) = length (sent ep) + 2 * length (filter (wants_close d) (map snd cs))"
proof -
  from close_conns_returns [OF assms(1-4), of os] obtain ep1 os1 where
    c1: "close_conns ng env now d ep os = Some (Inr (ep1, os1))" "sent ep1 = sent ep @ close_packets ng now d (map snd cs)"
      "conns ep1 = map (\<lambda>(k, c). (k, Some c)) (map (\<lambda>(k, c). (k, closed_conn ng now d c)) cs)"
    by (auto simp: comp_def case_prod_unfold)
  have "ep_inv ep1" using c1(1) ep_inv_close_loop [OF assms(2)] by (simp add: close_conns_def)
  from close_conns_returns [OF assms(1) this c1(3) assms(5), of os1] c1 show ?thesis
    by (auto simp: close_packets_def filter_map comp_def wants_close_again case_prod_unfold)
qed

section \<open>Shutting down a network\<close>

text \<open>
  \<^verbatim>\<open>close_all\<close> on the event loop thread with the endpoints it closes: they are closed one after the other,
  then \<^verbatim>\<open>close_final\<close> drops them all.  The dropped endpoints are the first component of the result.
\<close>

fun close_each ::
  "'ng ngtcp2 \<Rightarrow> 'os udp_env \<Rightarrow> u64 \<Rightarrow> (address \<times> 'ng endpoint option) list \<Rightarrow> 'os \<Rightarrow>
   ('ng endpoint list \<times> 'os) result option" where
  "close_each ng env now [] os = Some (Inr ([], os))"
| "close_each ng env now ((a, None) # m) os = Some (Inl Null_dereference)"
| "close_each ng env now ((a, Some ep) # m) os =
     obind (close_conns ng env now None ep os) (\<lambda>(ep', os1).
     obind (close_each ng env now m os1) (\<lambda>(eps, os2). Some (Inr (ep' # eps, os2))))"

definition shutdown ::
  "'ng ngtcp2 \<Rightarrow> 'os udp_env \<Rightarrow> u64 \<Rightarrow> nat \<Rightarrow> 'ng endpoint network \<Rightarrow> 'os \<Rightarrow>
   ('ng endpoint list \<times> 'ng endpoint network \<times> 'os) result option" where
  "shutdown ng env now p n os =
     obind (close_each ng env now (endpoint_map n) os) (\<lambda>(eps, os'). Some (Inr (eps, close_final p n, os')))"

text \<open>It is \<^verbatim>\<open>close_all\<close> with the effects on the endpoints kept.\<close>

lemma shutdown_close_all:
  assumes "shutdown ng env now p n os = Some (Inr (eps, n', os'))"
  shows "close_all (\<lambda>ep. Inr ()) p n = Inr n'"
proof -
  have "close_each ng env now m os = Some (Inr (eps, os')) \<Longrightarrow> close_endpoints (\<lambda>ep. Inr ()) m = Inr ()" for m os eps os'
    by (induction ng env now m os arbitrary: eps os' rule: close_each.induct) (auto elim!: obind_InrE)
  with assms show ?thesis by (auto simp: shutdown_def close_all_def elim!: obind_InrE)
qed

definition ep_closable :: "'ng ngtcp2 \<Rightarrow> u64 \<Rightarrow> 'ng endpoint \<Rightarrow> bool" where
  "ep_closable ng now ep \<longleftrightarrow> ep_inv ep \<and>
     (\<exists>cs. conns ep = map (\<lambda>(k, c). (k, Some c)) cs \<and> all_closable ng now None cs)"

definition ep_close_packets :: "'ng ngtcp2 \<Rightarrow> u64 \<Rightarrow> 'ng endpoint \<Rightarrow> (path \<times> bytes) list" where
  "ep_close_packets ng now ep = close_packets ng now None (map (\<lambda>e. the (snd e)) (conns ep))"

lemma close_each_returns:
  assumes env: "env_ok env"
  shows "list_all (ep_closable ng now) eps \<Longrightarrow> map snd m = map Some eps \<Longrightarrow>
    \<exists>eps' os'. close_each ng env now m os = Some (Inr (eps', os')) \<and>
      map sent eps' = map (\<lambda>ep. sent ep @ ep_close_packets ng now ep) eps \<and>
      map waiting_packets eps' =
        map2 (\<lambda>ep ws. waiting_packets ep @ ws) eps (refused_each env (map (ep_close_packets ng now) eps) os)"
proof (induction eps arbitrary: m os)
  case (Cons ep eps)
  from Cons.prems(2) obtain a m' where m: "m = (a, Some ep) # m'" "map snd m' = map Some eps" by (cases m) auto
  from Cons.prems(1) obtain cs where cs: "ep_inv ep" "conns ep = map (\<lambda>(k, c). (k, Some c)) cs" "all_closable ng now None cs"
    by (auto simp: ep_closable_def)
  have p: "ep_close_packets ng now ep = close_packets ng now None (map snd cs)"
    by (simp add: ep_close_packets_def cs(2) comp_def case_prod_unfold)
  from close_conns_returns [OF env cs, of os] obtain ep' os1 where
    c: "close_conns ng env now None ep os = Some (Inr (ep', os1))" "sent ep' = sent ep @ ep_close_packets ng now ep"
      "(waiting_packets ep', os1) = apfst (append (waiting_packets ep)) (refused env (ep_close_packets ng now ep) os)"
    unfolding p by blast
  from c(3) have w: "waiting_packets ep' = waiting_packets ep @ fst (refused env (ep_close_packets ng now ep) os)"
    "os1 = snd (refused env (ep_close_packets ng now ep) os)" by (cases "refused env (ep_close_packets ng now ep) os", simp)+
  from Cons.IH [OF _ m(2), of os1] Cons.prems(1) c(1,2) w m(1) show ?case by auto
qed simp

text \<open>
  C23: A graceful shutdown of a network without null entries, in which ngtcp2 can write a close packet for every
  connection that is still open, gives the socket one close packet for each of these connections, but does not wait for
  them: the promise is fulfilled and all endpoints are dropped at once.  Exactly the close packets the socket refused,
  with those that waited before, still wait in the dropped endpoints and are never sent.
\<close>

theorem shutdown_loses_blocked:
  assumes "env_ok env" and "map snd (endpoint_map n) = map Some eps" and "list_all (ep_closable ng now) eps"
  shows "\<exists>eps' n' os'. shutdown ng env now p n os = Some (Inr (eps', n', os')) \<and> endpoint_map n' = [] \<and> p \<in> set (fulfilled n') \<and>
    map sent eps' = map (\<lambda>ep. sent ep @ ep_close_packets ng now ep) eps \<and>
    map waiting_packets eps' =
      map2 (\<lambda>ep ws. waiting_packets ep @ ws) eps (refused_each env (map (ep_close_packets ng now) eps) os)"
  using close_each_returns [OF assms(1,3,2), of os] by (auto simp: shutdown_def close_final_def)

section \<open>Instances\<close>

lemma sample_close: "close_write sample_ng now c = (1, [0], cn_ng c)"
  by (simp add: close_write_def sample_ng_def)

lemma sample_closable: "closable sample_ng now c"
  by (simp add: closable_def sample_close utils_consts)

abbreviation two_entries :: "(bytes \<times> nat connection) list" where
  "two_entries \<equiv> [(replicate 20 0, conn_with 0), (replicate 20 1, conn_with 1)]"

lemma two_conns_entries: "conns two_conns = map (\<lambda>(k, c). (k, Some c)) two_entries" "sent two_conns = []"
  by (simp_all add: two_conns_def ep_init_def)

lemma two_conns_closable: "all_closable sample_ng now d cs"
  by (simp add: all_closable_def sample_closable list_all_iff)

lemma two_close_packets:
  "close_packets sample_ng now None (map snd two_entries) = [(any_path, fill_buffer [0]), (any_path, fill_buffer [0])]"
  by (simp add: close_packets_def wants_close_def close_packet_def sample_close)

theorem close_conns_again_witness:
  "\<exists>ep1 os1 ep2 os2. close_conns sample_ng (kernel_env 1) 5 None two_conns () = Some (Inr (ep1, os1)) \<and>
    close_conns sample_ng (kernel_env 1) 5 None ep1 os1 = Some (Inr (ep2, os2)) \<and> length (sent ep2) = 4"
  using close_conns_again [OF kernel_env_ok [of 1] two_conns_inv two_conns_entries(1) two_conns_closable two_conns_closable,
      of 5 None "()"]
  by (simp add: wants_close_def two_conns_entries(2))

definition two_net :: "nat endpoint network" where
  "two_net = \<lparr>endpoint_map = [(address_default, Some two_conns)], running = True, own_thread = True, loop_exited = False,
     close_jobs = [], fulfilled = []\<rparr>"

lemma kernel_refuses: "refused (kernel_env 0) [(any_path, fill_buffer [0]), (any_path, fill_buffer [0])] () =
    ([(any_path, fill_buffer [0]), (any_path, fill_buffer [0])], ())"
  by (simp add: kernel_env_def udp_send_def udp_send_mmsg_def utils_consts fill_buffer_def refusal_def)

theorem shutdown_loses_blocked_witness:
  "\<exists>eps' n' os'. shutdown sample_ng (kernel_env 0) 5 7 two_net () = Some (Inr (eps', n', os')) \<and> endpoint_map n' = [] \<and>
    7 \<in> set (fulfilled n') \<and> map waiting_packets eps' = [[(any_path, fill_buffer [0]), (any_path, fill_buffer [0])]]"
proof -
  have c: "list_all (ep_closable sample_ng 5) [two_conns]"
    using two_conns_inv two_conns_entries(1) two_conns_closable by (simp only: ep_closable_def list.pred_inject) blast
  have m: "map snd (endpoint_map two_net) = map Some [two_conns]" by (simp add: two_net_def)
  have p: "ep_close_packets sample_ng 5 two_conns = [(any_path, fill_buffer [0]), (any_path, fill_buffer [0])]"
    using two_close_packets [of 5] by (simp add: ep_close_packets_def two_conns_entries)
  have w: "waiting_packets two_conns = []" by (simp add: waiting_packets_def two_conns_def ep_init_def)
  from shutdown_loses_blocked [OF kernel_env_ok [of 0] m c, of 7 "()"] show ?thesis by (auto simp: p w kernel_refuses simp del: refused.simps)
qed

end
