(* ===== verification/Quic_Calls.thy ===== *)
theory Quic_Calls
  imports Quic_Prelude
begin

text \<open>
  Sequences of calls into a library or the kernel, as constructors make them: the calls made so far and either
  the exception thrown or the value computed.  The specification of such a sequence is a plan, a list of
  calls that is made in order up to the first that throws.
\<close>

type_synonym ('c, 'a) calls = "'c list \<times> 'a result"

definition call_do :: "'c \<Rightarrow> ('c, unit) calls" where
  "call_do c = ([c], Inr ())"

definition call_check :: "('c \<Rightarrow> fault option) \<Rightarrow> 'c \<Rightarrow> ('c, unit) calls" where
  "call_check ans c = ([c], case ans c of None \<Rightarrow> Inr () | Some f \<Rightarrow> Inl f)"

definition call_lift :: "'a result \<Rightarrow> ('c, 'a) calls" where
  "call_lift r = ([], r)"

definition call_bind :: "('c, 'a) calls \<Rightarrow> ('a \<Rightarrow> ('c, 'b) calls) \<Rightarrow> ('c, 'b) calls" where
  "call_bind m f = (case snd m of Inl e \<Rightarrow> (fst m, Inl e) | Inr x \<Rightarrow> (fst m @ fst (f x), snd (f x)))"

lemma call_bind_simps [simp]:
  "call_bind (call_do c) f = (c # fst (f ()), snd (f ()))"
  "call_bind (call_lift (Inr x)) g = g x"
  "call_bind (call_lift (Inl e)) h = ([], Inl e)"
  by (simp_all add: call_bind_def call_do_def call_lift_def)

lemma call_simps [simp]:
  "fst (call_do c) = [c]" "snd (call_do c) = Inr ()" "fst (call_lift r) = []" "snd (call_lift r) = r"
  by (simp_all add: call_do_def call_lift_def)

lemma call_bind_check:
  "call_bind (call_check ans c) f = (case ans c of None \<Rightarrow> (c # fst (f ()), snd (f ())) | Some e \<Rightarrow> ([c], Inl e))"
  by (simp add: call_bind_def call_check_def split: option.splits)

section \<open>Plans\<close>

text \<open>Each call of a plan comes with what it throws, if anything.\<close>

fun run_calls :: "('c \<times> fault option) list \<Rightarrow> ('c, unit) calls" where
  "run_calls [] = ([], Inr ())"
| "run_calls ((c, None) # cs) = (c # fst (run_calls cs), snd (run_calls cs))"
| "run_calls ((c, Some e) # cs) = ([c], Inl e)"

lemma run_calls_prefix: "\<exists>rest. map fst cs = fst (run_calls cs) @ rest"
  by (induction cs rule: run_calls.induct) auto

lemma run_calls_ok: "snd (run_calls cs) = Inr () \<longleftrightarrow> list_all (\<lambda>c. snd c = None) cs"
  by (induction cs rule: run_calls.induct) auto

lemma run_calls_all: "snd (run_calls cs) = Inr () \<Longrightarrow> fst (run_calls cs) = map fst cs"
  by (induction cs rule: run_calls.induct) auto

lemma run_calls_error:
  "snd (run_calls cs) = Inl e \<Longrightarrow> fst (run_calls cs) \<noteq> [] \<and> (last (fst (run_calls cs)), Some e) \<in> set cs"
  by (induction cs rule: run_calls.induct) auto

text \<open>Either everything was called and nothing threw, or the last call made threw and no other was made.\<close>

lemma run_calls_outcome:
  "snd (run_calls cs) = Inr () \<and> fst (run_calls cs) = map fst cs \<and> list_all (\<lambda>c. snd c = None) cs \<or>
   (\<exists>e rest. snd (run_calls cs) = Inl e \<and> (last (fst (run_calls cs)), Some e) \<in> set cs \<and>
      map fst cs = fst (run_calls cs) @ rest)"
proof (cases "snd (run_calls cs)")
  case (Inl e)
  with run_calls_error [OF Inl] run_calls_prefix [of cs] show ?thesis by blast
next
  case (Inr u)
  then have "snd (run_calls cs) = Inr ()" by simp
  with run_calls_all run_calls_ok show ?thesis by blast
qed

end
