(* ===== verification/Quic_Tls.thy ===== *)
theory Quic_Tls
  imports Quic_Calls Quic_Format
begin

text \<open>
  TLS credentials and sessions of \<^verbatim>\<open>include/quic/gnutls_crypto.hpp\<close> and \<^verbatim>\<open>src/gnutls_crypto.cpp\<close>: where keys and
  certificates come from, which calls of GnuTLS set up credentials and a session, in which order and
  with which error handling, and which policy callback a handshake reaches.
\<close>

section \<open>Keys and certificates\<close>

datatype x509_fmt = X509_FMT_DER | X509_FMT_PEM

text \<open>\<open>mem_data\<close> is what the pointer of the memory block points to, \<open>None\<close> the null pointer.\<close>

record datum =
  datum_path :: string
  mem_data :: "bytes option"
  mem_size :: "32 word"
  datum_format :: x509_fmt
  from_mem :: bool

definition datum_default :: datum where
  "datum_default = \<lparr>datum_path = [], mem_data = None, mem_size = 0, datum_format = X509_FMT_DER, from_mem = False\<rparr>"

text \<open>
  The extension of a path, as \<^verbatim>\<open>std::filesystem::path::extension\<close> defines it: from the last dot of the file
  name, unless that is its first character.
\<close>

definition path_filename :: "string \<Rightarrow> string" where
  "path_filename p = rev (takeWhile (\<lambda>c. c \<noteq> CHR ''/'') (rev p))"

definition path_extension :: "string \<Rightarrow> string" where
  "path_extension p =
     (let f = path_filename p; e = rev (takeWhile (\<lambda>c. c \<noteq> CHR ''.'') (rev f))
      in if length f \<le> length e + 1 \<or> f = ''..'' then [] else CHR ''.'' # e)"

text \<open>
  \<open>exists\<close> is \<^verbatim>\<open>fs::exists\<close>.  For an input that is not the path of a file the constructor assigns \<^verbatim>\<open>NULL\<close> to the
  path, which constructs a string from a null pointer.
\<close>

definition datum_of_string :: "(string \<Rightarrow> bool) \<Rightarrow> string \<Rightarrow> datum result" where
  "datum_of_string exists input =
     (if exists input
      then Inr (datum_default\<lparr>datum_path := input,
             datum_format := (if str_tolower (path_extension input) = ''.pem'' then X509_FMT_PEM else X509_FMT_DER)\<rparr>)
      else Inl Null_dereference)"

text \<open>The copy assignment copies the other block to wherever the own pointer points.\<close>

definition datum_assign :: "datum \<Rightarrow> datum \<Rightarrow> datum result" where
  "datum_assign d other =
     (if mem_size other \<noteq> 0 \<and> mem_data d = None then Inl Null_dereference
      else Inr (d\<lparr>datum_path := datum_path other,
                  mem_data := (if mem_size other = 0 then mem_data d else mem_data other),
                  mem_size := mem_size other, datum_format := datum_format other, from_mem := from_mem other\<rparr>))"

definition datum_copy :: "datum \<Rightarrow> datum result" where
  "datum_copy other = datum_assign datum_default other"

definition datum_set :: "datum \<Rightarrow> bool" where
  "datum_set d \<longleftrightarrow> datum_path d \<noteq> [] \<or> mem_size d \<noteq> 0"

section \<open>Calls of GnuTLS\<close>

datatype tls_call =
    Allocate_credentials
  | Set_trust_mem datum x509_fmt
  | Set_trust_file string x509_fmt
  | Set_key_mem datum datum x509_fmt
  | Set_key_file string string x509_fmt
  | Gnutls_init bool
  | Set_default_priority
  | Configure_client_session
  | Configure_server_session
  | Session_set_ptr
  | Credentials_set
  | Server_name_set string
  | Set_hook_finished
  | Free_credentials
  | Gnutls_deinit

text \<open>A negative return value \<open>rv c\<close> of a call throws.\<close>

definition throws :: "(tls_call \<Rightarrow> int) \<Rightarrow> fault \<Rightarrow> tls_call \<Rightarrow> fault option" where
  "throws rv f c = (if rv c < 0 then Some f else None)"

type_synonym 'a tls = "(tls_call, 'a) calls"

section \<open>Credentials\<close>

text \<open>The constructor of \<^verbatim>\<open>GNUTLSCreds\<close>; \<^verbatim>\<open>ca = datum{ca}\<close> copies the still empty \<^verbatim>\<open>ca\<close> onto itself.\<close>

definition gnutls_creds_new ::
  "(tls_call \<Rightarrow> int) \<Rightarrow> (string \<Rightarrow> bool) \<Rightarrow> string \<Rightarrow> string \<Rightarrow> string \<Rightarrow> string \<Rightarrow> unit tls" where
  "gnutls_creds_new rv exists local_key local_cert remote_cert ca_arg =
     call_bind (call_lift (datum_of_string exists local_key)) (\<lambda>lkey.
     call_bind (call_lift (datum_of_string exists local_cert)) (\<lambda>lcert.
     call_bind (call_lift (if remote_cert \<noteq> []
        then and_then (datum_of_string exists remote_cert) (datum_assign datum_default) else Inr datum_default)) (\<lambda>rcert.
     call_bind (call_lift (if ca_arg \<noteq> []
        then and_then (datum_copy datum_default) (datum_assign datum_default) else Inr datum_default)) (\<lambda>ca.
     call_bind (call_check (throws rv Runtime_error) Allocate_credentials) (\<lambda>_.
     call_bind (if datum_set ca
        then call_check (throws rv Invalid_argument) (if from_mem ca then Set_trust_mem ca (datum_format ca)
               else Set_trust_file (datum_path ca) (datum_format ca))
        else call_lift (Inr ())) (\<lambda>_.
     call_check (throws rv Invalid_argument) (if from_mem lcert then Set_key_mem lcert lkey (datum_format lkey)
       else Set_key_file (datum_path lcert) (datum_path lkey) (datum_format lkey))))))))"

section \<open>Sessions\<close>

definition gnutls_session_new :: "(tls_call \<Rightarrow> int) \<Rightarrow> bool \<Rightarrow> unit tls" where
  "gnutls_session_new rv is_client =
     call_bind (call_check (throws rv Runtime_error) (Gnutls_init is_client)) (\<lambda>_.
     call_bind (call_check (throws rv Runtime_error) Set_default_priority) (\<lambda>_.
     call_bind (call_check (throws rv Runtime_error) (if is_client then Configure_client_session else Configure_server_session)) (\<lambda>_.
     call_bind (call_do Session_set_ptr) (\<lambda>_.
     call_bind (call_check (throws rv Runtime_error) Credentials_set) (\<lambda>_.
     call_bind (if is_client then call_check (throws rv Runtime_error) (Server_name_set ''localhost'') else call_lift (Inr ())) (\<lambda>_.
     call_do Set_hook_finished))))))"

text \<open>The destructors, and the functions that make credentials and sessions for the outside.\<close>

definition gnutls_creds_destroy :: "unit tls" where
  "gnutls_creds_destroy = call_do Free_credentials"

definition gnutls_session_destroy :: "unit tls" where
  "gnutls_session_destroy = call_do Gnutls_deinit"

definition creds_make ::
  "(tls_call \<Rightarrow> int) \<Rightarrow> (string \<Rightarrow> bool) \<Rightarrow> string \<Rightarrow> string \<Rightarrow> string \<Rightarrow> string \<Rightarrow> unit tls" where
  "creds_make rv exists remote_key remote_cert local_cert ca = gnutls_creds_new rv exists remote_key remote_cert local_cert ca"

definition make_session :: "(tls_call \<Rightarrow> int) \<Rightarrow> bool \<Rightarrow> unit tls" where
  "make_session rv is_client = gnutls_session_new rv is_client"

text \<open>
  The hook: a policy is a function of the handshake message type and whether it is incoming; \<open>None\<close> is an
  empty function.  The wrapper finds the session through the connection the session points to.
\<close>

record tls_policies =
  client_tls_policy :: "(nat \<Rightarrow> nat \<Rightarrow> nat \<Rightarrow> bytes \<Rightarrow> int) option"
  server_tls_policy :: "(nat \<Rightarrow> nat \<Rightarrow> nat \<Rightarrow> bytes \<Rightarrow> int) option"

definition do_tls_callback :: "tls_policies \<Rightarrow> bool \<Rightarrow> nat \<Rightarrow> nat \<Rightarrow> nat \<Rightarrow> bytes \<Rightarrow> int" where
  "do_tls_callback creds is_client htype when incoming msg =
     (case (is_client, client_tls_policy creds, server_tls_policy creds) of
        (True, Some f, _) \<Rightarrow> f htype when incoming msg
      | (False, _, Some f) \<Rightarrow> f htype when incoming msg
      | _ \<Rightarrow> 0)"

definition gnutls_callback_wrapper ::
  "(tls_policies \<times> bool) option \<Rightarrow> nat \<Rightarrow> nat \<Rightarrow> nat \<Rightarrow> bytes \<Rightarrow> int result" where
  "gnutls_callback_wrapper tls_session htype when incoming msg =
     (case tls_session of
        None \<Rightarrow> Inl Assertion_failed
      | Some (creds, is_client) \<Rightarrow> Inr (do_tls_callback creds is_client htype when incoming msg))"

section \<open>What the calls amount to\<close>

definition session_plan :: "(tls_call \<Rightarrow> int) \<Rightarrow> bool \<Rightarrow> (tls_call \<times> fault option) list" where
  "session_plan rv is_client =
     map (\<lambda>c. (c, throws rv Runtime_error c))
       [Gnutls_init is_client, Set_default_priority,
        if is_client then Configure_client_session else Configure_server_session] @
     [(Session_set_ptr, None), (Credentials_set, throws rv Runtime_error Credentials_set)] @
     (if is_client then [(Server_name_set ''localhost'', throws rv Runtime_error (Server_name_set ''localhost''))] else []) @
     [(Set_hook_finished, None)]"

lemma session_is_plan: "gnutls_session_new rv is_client = run_calls (session_plan rv is_client)"
  by (simp add: gnutls_session_new_def session_plan_def call_bind_check throws_def)

text \<open>
  A TLS session makes exactly the GnuTLS calls of its role, in order: it succeeds when none of the checked
  calls fails, having made them all, and otherwise throws right after the first failing call, making no
  further one.  Only clients announce a server name.
\<close>

theorem tls_session_setup:
  "snd (gnutls_session_new rv is_client) = Inr () \<and>
     fst (gnutls_session_new rv is_client) = map fst (session_plan rv is_client) \<or>
   snd (gnutls_session_new rv is_client) = Inl Runtime_error \<and>
     rv (last (fst (gnutls_session_new rv is_client))) < 0 \<and>
     (\<exists>rest. map fst (session_plan rv is_client) = fst (gnutls_session_new rv is_client) @ rest)"
proof -
  have err: "e = Runtime_error \<and> rv c < 0" if "(c, Some e) \<in> set (session_plan rv is_client)" for c e
    using that by (auto simp: session_plan_def throws_def split: if_splits)
  show ?thesis
    using run_calls_outcome [of "session_plan rv is_client"] unfolding session_is_plan by (auto dest: err)
qed

text \<open>
  The certificate authority argument has no effect: the credentials make the same GnuTLS calls with the
  same result whatever it is, and never set a trusted certificate.
\<close>

theorem creds_ignore_ca:
  "gnutls_creds_new rv exists key cert remote ca = gnutls_creds_new rv exists key cert remote [] \<and>
   (\<forall>c \<in> set (fst (gnutls_creds_new rv exists key cert remote ca)). \<nexists>d p f. c = Set_trust_mem d f \<or> c = Set_trust_file p f)"
proof -
  have ca: "and_then (datum_copy datum_default) (datum_assign datum_default) = Inr datum_default"
    by (simp add: datum_copy_def datum_assign_def datum_default_def)
  have 1: "gnutls_creds_new rv exists key cert remote ca = gnutls_creds_new rv exists key cert remote []"
    by (simp add: gnutls_creds_new_def ca)
  have "\<forall>c \<in> set (fst (gnutls_creds_new rv exists key cert remote [])). \<nexists>d p f. c = Set_trust_mem d f \<or> c = Set_trust_file p f"
    by (auto simp: gnutls_creds_new_def call_bind_def call_lift_def call_check_def throws_def datum_set_def
        datum_default_def split: sum.splits if_splits option.splits)
  with 1 show ?thesis by simp
qed

theorem creds_ignore_ca_witness:
  "gnutls_creds_new (\<lambda>c. 0) (\<lambda>p. True) ''key.pem'' ''cert.pem'' [] ''ca.pem'' =
    ([Allocate_credentials, Set_key_file ''cert.pem'' ''key.pem'' X509_FMT_PEM], Inr ())"
proof -
  have "gnutls_creds_new (\<lambda>c. 0) (\<lambda>p. True) ''key.pem'' ''cert.pem'' [] ''ca.pem'' =
      gnutls_creds_new (\<lambda>c. 0) (\<lambda>p. True) ''key.pem'' ''cert.pem'' [] []"
    by (rule creds_ignore_ca [THEN conjunct1])
  also have "\<dots> = ([Allocate_credentials, Set_key_file ''cert.pem'' ''key.pem'' X509_FMT_PEM], Inr ())" by code_simp
  finally show ?thesis .
qed

text \<open>
  A handshake reaches the policy of the session's own role and no other; without one it is accepted.
\<close>

theorem tls_policy_of_role:
  "do_tls_callback creds is_client htype when incoming msg =
     (case if is_client then client_tls_policy creds else server_tls_policy creds of
        None \<Rightarrow> 0 | Some f \<Rightarrow> f htype when incoming msg)"
  by (auto simp: do_tls_callback_def split: option.splits bool.splits)

text \<open>Credentials given in memory instead of as files always fail.\<close>

lemma creds_from_memory_fail:
  "\<not> exists key \<Longrightarrow> gnutls_creds_new rv exists key cert remote ca = ([], Inl Null_dereference)"
  by (simp add: gnutls_creds_new_def datum_of_string_def call_bind_def call_lift_def)

end
