(* ===== verification/Quic_Setup.thy ===== *)
theory Quic_Setup
  imports Quic_Calls Quic_Ep_Life Quic_Network
begin

text \<open>
  Setting up and taking down: the UDP socket of \<^verbatim>\<open>src/udp.cpp\<close>, the endpoint that owns it, and the network that
  owns the endpoints and the event loop, as sequences of system and library calls.
\<close>

section \<open>The UDP socket\<close>

datatype sys_call =
    Socket nat
  | Bind address
  | Getsockname
  | Set_nonblock
  | Set_recvtclass
  | Set_recvtos
  | Set_tclass byte
  | Set_tos byte
  | Event_add_read
  | Event_add_timer nat
  | Close_socket

text \<open>\<open>errno c\<close> is the error of a failing call; \<^verbatim>\<open>check_rv\<close> turns it into an exception.\<close>

definition check_rv :: "(sys_call \<Rightarrow> int option) \<Rightarrow> sys_call \<Rightarrow> fault option" where
  "check_rv errno c = map_option System_error (errno c)"

record udp_socket =
  us_bound :: address
  us_ecn :: byte

text \<open>\<^verbatim>\<open>set_ecn\<close> only warns when the call fails.\<close>

definition set_ecn :: "udp_socket \<Rightarrow> (sys_call, unit) calls" where
  "set_ecn s = call_do (if is_ipv6 (us_bound s) then Set_tclass (us_ecn s) else Set_tos (us_ecn s))"

text \<open>\<open>sockname\<close> is the address \<^verbatim>\<open>getsockname\<close> reports, \<open>has_callback\<close> whether the receive callback is not empty.\<close>

definition udp_socket_new ::
  "(sys_call \<Rightarrow> int option) \<Rightarrow> address \<Rightarrow> bool \<Rightarrow> address \<Rightarrow> (sys_call, udp_socket) calls" where
  "udp_socket_new errno sockname has_callback addr =
     call_bind (call_lift (if has_callback then Inr () else Inl Logic_error)) (\<lambda>_.
     call_bind (call_check (check_rv errno) (Socket (if is_ipv6 addr then AF_INET6 else AF_INET))) (\<lambda>_.
     call_bind (call_check (check_rv errno) (Bind addr)) (\<lambda>_.
     call_bind (call_check (check_rv errno) Getsockname) (\<lambda>_.
     call_bind (call_check (check_rv errno) Set_nonblock) (\<lambda>_.
     call_bind (call_check (check_rv errno) (if is_ipv6 addr then Set_recvtclass else Set_recvtos)) (\<lambda>_.
     let s = \<lparr>us_bound = sockname, us_ecn = 0\<rparr> in
     call_bind (set_ecn s) (\<lambda>_.
     call_bind (call_do Event_add_read) (\<lambda>_. call_lift (Inr s)))))))))"

definition udp_socket_destroy :: "(sys_call, unit) calls" where
  "udp_socket_destroy = call_do Close_socket"

definition socket_plan :: "(sys_call \<Rightarrow> int option) \<Rightarrow> address \<Rightarrow> address \<Rightarrow> (sys_call \<times> fault option) list" where
  "socket_plan errno sockname addr =
     map (\<lambda>c. (c, check_rv errno c))
       [Socket (if is_ipv6 addr then AF_INET6 else AF_INET), Bind addr, Getsockname, Set_nonblock,
        if is_ipv6 addr then Set_recvtclass else Set_recvtos] @
     [(if is_ipv6 sockname then Set_tclass 0 else Set_tos 0, None), (Event_add_read, None)]"

lemma socket_is_plan:
  "fst (udp_socket_new errno sockname True addr) = fst (run_calls (socket_plan errno sockname addr)) \<and>
   snd (udp_socket_new errno sockname True addr) =
     and_then (snd (run_calls (socket_plan errno sockname addr))) (\<lambda>_. Inr \<lparr>us_bound = sockname, us_ecn = 0\<rparr>)"
  by (simp add: udp_socket_new_def socket_plan_def call_bind_check set_ecn_def check_rv_def Let_def
      split: option.splits)

text \<open>
  The socket constructor binds, asks for the bound address, makes the socket non-blocking and asks for the
  ECN bits in this order, stops with a system error at the first call that fails, and in that case leaves
  the file descriptor open: no call closes it, since the destructor of an object whose constructor threw
  does not run.
\<close>

theorem udp_socket_setup:
  "(\<exists>s. snd (udp_socket_new errno sockname True addr) = Inr s \<and> us_bound s = sockname \<and>
      fst (udp_socket_new errno sockname True addr) = map fst (socket_plan errno sockname addr)) \<or>
   (\<exists>e rest. snd (udp_socket_new errno sockname True addr) = Inl (System_error e) \<and>
      errno (last (fst (udp_socket_new errno sockname True addr))) = Some e \<and>
      map fst (socket_plan errno sockname addr) = fst (udp_socket_new errno sockname True addr) @ rest \<and>
      Close_socket \<notin> set (fst (udp_socket_new errno sockname True addr)))"
proof -
  let ?plan = "socket_plan errno sockname addr"
  have err: "\<exists>n. e = System_error n \<and> errno c = Some n" if "(c, Some e) \<in> set ?plan" for c e
    using that by (auto simp: socket_plan_def check_rv_def eq_commute [of "Some _"])
  have closed: "Close_socket \<notin> set (map fst ?plan)" by (auto simp: socket_plan_def)
  show ?thesis
    using run_calls_outcome [of ?plan]
  proof
    assume "snd (run_calls ?plan) = Inr () \<and> fst (run_calls ?plan) = map fst ?plan \<and> list_all (\<lambda>c. snd c = None) ?plan"
    with socket_is_plan [of errno sockname addr] show ?thesis by simp
  next
    assume "\<exists>e rest. snd (run_calls ?plan) = Inl e \<and> (last (fst (run_calls ?plan)), Some e) \<in> set ?plan \<and>
      map fst ?plan = fst (run_calls ?plan) @ rest"
    then obtain e rest where r: "snd (run_calls ?plan) = Inl e" "(last (fst (run_calls ?plan)), Some e) \<in> set ?plan"
      "map fst ?plan = fst (run_calls ?plan) @ rest" by blast
    from err [OF r(2)] obtain n where "e = System_error n" "errno (last (fst (run_calls ?plan))) = Some n" by blast
    moreover have "Close_socket \<notin> set (fst (run_calls ?plan))" using closed unfolding r(3) by simp
    ultimately show ?thesis using r(1,3) socket_is_plan [of errno sockname addr] by simp
  qed
qed

section \<open>The endpoint\<close>

text \<open>The constructor: the socket with \<^verbatim>\<open>handle_packet\<close> as its callback, and a timer every 250 milliseconds.\<close>

definition endpoint_new :: "(sys_call \<Rightarrow> int option) \<Rightarrow> address \<Rightarrow> address \<Rightarrow> (sys_call, udp_socket \<times> 'ng endpoint) calls" where
  "endpoint_new errno sockname listen_addr =
     call_bind (udp_socket_new errno sockname True listen_addr) (\<lambda>s.
     call_bind (call_do (Event_add_timer 250000)) (\<lambda>_. call_lift (Inr (s, ep_init))))"

section \<open>The network\<close>

text \<open>With an event loop of the application, or with its own loop and thread.\<close>

definition network_attach :: "bool \<Rightarrow> 'ep network result" where
  "network_attach has_loop =
     (if \<not> has_loop then Inl Assertion_failed
      else Inr \<lparr>endpoint_map = [], running = True, own_thread = False, loop_exited = False, close_jobs = [], fulfilled = []\<rparr>)"

text \<open>\<open>once\<close> is the static flag: libevent's logging and locking are set up for the first network only.\<close>

datatype loop_call = Setup_logging | Use_pthreads | Base_new | Setup_job_waker | Start_thread

definition network_new :: "bool \<Rightarrow> bool \<times> loop_call list \<times> 'ep network" where
  "network_new once =
     (True, (if once then [] else [Setup_logging, Use_pthreads]) @ [Base_new, Setup_job_waker, Start_thread],
      \<lparr>endpoint_map = [], running = True, own_thread = True, loop_exited = False, close_jobs = [], fulfilled = []\<rparr>)"

text \<open>
  The destructor, on a thread other than the event loop's: \<^verbatim>\<open>close()\<close>, waiting for its promise \<open>p\<close>, which the loop
  fulfils by running the queued jobs, and joining the thread.
\<close>

fun run_close_jobs :: "('ep \<Rightarrow> unit result) \<Rightarrow> (nat \<times> bool) list \<Rightarrow> 'ep network \<Rightarrow> 'ep network result" where
  "run_close_jobs closer [] n = Inr n"
| "run_close_jobs closer (j # js) n =
     and_then (close_job closer False j n) (run_close_jobs closer js)"

definition network_destroy :: "('ep \<Rightarrow> unit result) \<Rightarrow> nat \<Rightarrow> 'ep network \<Rightarrow> 'ep network result" where
  "network_destroy closer p n =
     and_then (net_close closer False p True n) (\<lambda>n1.
       run_close_jobs closer (close_jobs n1) (n1\<lparr>close_jobs := []\<rparr>))"

text \<open>
  Destroying a network without endpoints ends its event loop and fulfils the promise the destructor waits
  for; destroying a running network that still has endpoints makes the close job read a parameter of
  \<^verbatim>\<open>close\<close> that is gone.
\<close>

theorem network_destroy_outcome:
  assumes "running n" and "close_jobs n = []"
  shows "if endpoint_map n = []
    then \<exists>n'. network_destroy closer p n = Inr n' \<and> p \<in> set (fulfilled n') \<and> \<not> running n' \<and>
      (own_thread n \<longrightarrow> loop_exited n')
    else network_destroy closer p n = Inl Use_of_destroyed_object"
  using assms by (simp add: network_destroy_def net_close_def close_job_def close_final_def)

theorem network_destroy_outcome_witness:
  "network_destroy (\<lambda>ep. Inr ()) 7 sample_net = Inl Use_of_destroyed_object"
  using network_destroy_outcome [of sample_net "\<lambda>ep. Inr ()" 7] by (simp add: sample_net_def)

section \<open>Endpoints whose address cannot be bound\<close>

text \<open>
  When the address of an endpoint cannot be bound, \<^verbatim>\<open>Network::endpoint\<close> reports the system error the first
  time; asked again it returns a null endpoint without any error, even if the address could be bound by
  then, and closing the network then dereferences it.
\<close>

theorem bind_failure_then_null:
  fixes n :: "(udp_socket \<times> 'ng endpoint) network"
  assumes "is_ipv4 a \<or> is_ipv6 a" and "addr_find a (endpoint_map n) = None"
    and "errno (Socket (if is_ipv6 a then AF_INET6 else AF_INET)) = None" and "errno (Bind a) = Some e"
  shows "\<exists>n1. net_endpoint (\<lambda>x. snd (endpoint_new errno sockname x)) a n = (Inl (System_error e), n1) \<and>
    net_endpoint mk' a n1 = (Inr None, n1) \<and>
    close_endpoints closer (endpoint_map n1) \<noteq> Inr ()"
proof -
  have sock: "udp_socket_new errno sockname True a =
      ([Socket (if is_ipv6 a then AF_INET6 else AF_INET), Bind a], Inl (System_error e))"
    using assms(3,4) by (simp add: udp_socket_new_def call_bind_check check_rv_def)
  have ctor: "snd (endpoint_new errno sockname a) = (Inl (System_error e) :: (udp_socket \<times> 'ng endpoint) result)"
    by (simp add: endpoint_new_def sock call_bind_def)
  have null: "close_endpoints closer (m @ [(a, None)]) \<noteq> Inr ()" for m
  proof (induction m)
    case (Cons e m)
    obtain b x where "e = (b, x)" by fastforce
    with Cons show ?case by (cases x) (auto elim!: and_then_InrE)
  qed simp
  from ctor assms(1,2) address_eq_refl [OF assms(1)] null show ?thesis
    by (simp add: net_endpoint_def addr_find_snoc)
qed

theorem bind_failure_then_null_witness:
  "\<exists>n1. net_endpoint (\<lambda>x. snd (endpoint_new (\<lambda>c. if c = Bind address_default then Some 98 else None) address_default x))
      address_default (snd (snd (network_new False)) :: (udp_socket \<times> nat endpoint) network) = (Inl (System_error 98), n1) \<and>
    net_endpoint (\<lambda>x. snd (endpoint_new (\<lambda>c. None) address_default x)) address_default n1 = (Inr None, n1) \<and>
    close_endpoints (\<lambda>ep. Inr ()) (endpoint_map n1) \<noteq> Inr ()"
  by (rule bind_failure_then_null) (simp_all add: address_default_ok addr_find_def network_new_def)

section \<open>The end of a connection\<close>

text \<open>
  Destroying a connection whose streams nobody else holds: the members are destroyed in reverse order of their
  declaration, so that the pending streams go first, then those of the map.
\<close>

fun destroy_streams :: "stream list \<Rightarrow> nat list \<Rightarrow> close_call list result" where
  "destroy_streams hp [] = Inr []"
| "destroy_streams hp (r # rs) =
     and_then (stream_destroy (hp ! r)) (\<lambda>cs. and_then (destroy_streams hp rs) (\<lambda>ds. Inr (cs @ ds)))"

definition conn_destroy :: "'ng connection \<Rightarrow> close_call list result" where
  "conn_destroy c = destroy_streams (heap c) (pending_streams c @ map snd (streams c))"

definition chunks_finished :: "stream \<Rightarrow> bool" where
  "chunks_finished s \<longleftrightarrow> list_all (\<lambda>x. next_chunk x = None) (senders s)"

lemma destroy_finished_buffers:
  assumes "list_all (\<lambda>x. next_chunk x = None) cs"
  shows "destroy_buffers bs cs = Inr cs"
proof (induction bs)
  case (Cons b bs)
  have "drop_keep (snd b) cs = ([], cs)"
    using assms by (auto simp: drop_keep_def queue_next_chunk_def list_all_length Let_def split: keep_alive.splits)
  with Cons show ?case by simp
qed simp

lemma destroy_finished_stream:
  "chunks_finished s \<Longrightarrow> stream_destroy s =
    Inr (if is_closing s then [] else [Close_call (close_callback s) STREAM_ERROR_CONNECTION_EXPIRED])"
  by (simp add: stream_destroy_def chunks_finished_def destroy_finished_buffers)

lemma destroy_finished_streams:
  assumes "list_all (\<lambda>r. chunks_finished (hp ! r)) rs"
  shows "destroy_streams hp rs = Inr (map (\<lambda>r. Close_call (close_callback (hp ! r)) STREAM_ERROR_CONNECTION_EXPIRED)
    (filter (\<lambda>r. \<not> is_closing (hp ! r)) rs))"
  using assms by (induction rs) (simp_all add: destroy_finished_stream)

text \<open>
  When a connection goes away, every stream it still has, active or pending, that was not closing is
  told so exactly once: its close callback is called with the error code for an expired connection, and
  no other callback is.
\<close>

theorem connection_destroy_notifies:
  assumes "conn_wf c" and "list_all (\<lambda>r. chunks_finished (heap c ! r)) (pending_streams c @ map snd (streams c))"
  shows "\<exists>rs. conn_destroy c = Inr (map (\<lambda>r. Close_call (close_callback (heap c ! r)) STREAM_ERROR_CONNECTION_EXPIRED) rs) \<and>
    distinct rs \<and> set rs = {r \<in> set (pending_streams c) \<union> set (map snd (streams c)). \<not> is_closing (heap c ! r)}"
proof -
  let ?rs = "filter (\<lambda>r. \<not> is_closing (heap c ! r)) (pending_streams c @ map snd (streams c))"
  have "distinct (map snd (streams c) @ pending_streams c)" by (rule conn_wf_distinct [OF assms(1)])
  then have "distinct ?rs" by auto
  moreover have "set ?rs = {r \<in> set (pending_streams c) \<union> set (map snd (streams c)). \<not> is_closing (heap c ! r)}" by auto
  ultimately show ?thesis unfolding conn_destroy_def destroy_finished_streams [OF assms(2)] by blast
qed

theorem connection_destroy_notifies_witness:
  "conn_destroy life_conn1 = Inr [Close_call Default_close STREAM_ERROR_CONNECTION_EXPIRED]"
proof -
  have wf: "conn_wf life_conn1" using life_conn1_streams by (simp add: streams_inv_def)
  have p: "pending_streams life_conn1 = []"
    by (simp add: life_conn1_def get_new_stream_def life_ng_def life_conn_def conn_fresh_def io_ready_def)
  have fin: "list_all (\<lambda>r. chunks_finished (heap life_conn1 ! r)) (pending_streams life_conn1 @ map snd (streams life_conn1))"
    by (simp add: p life_conn1_fields chunks_finished_def stream_new_def set_ready_def)
  from connection_destroy_notifies [OF wf fin] obtain rs where
    c: "conn_destroy life_conn1 = Inr (map (\<lambda>r. Close_call (close_callback (heap life_conn1 ! r)) STREAM_ERROR_CONNECTION_EXPIRED) rs)"
    and rs: "distinct rs" "set rs = {r \<in> set (pending_streams life_conn1) \<union> set (map snd (streams life_conn1)). \<not> is_closing (heap life_conn1 ! r)}"
    by blast
  have s0: "set rs = {0}" unfolding rs(2) by (auto simp: p life_conn1_fields stream_new_def set_ready_def)
  with distinct_card [OF rs(1)] have "length rs = 1" by simp
  with s0 have "rs = [0]" by (cases rs) auto
  with c show ?thesis by (simp add: life_conn1_fields stream_new_def set_ready_def)
qed

section \<open>Fresh ids for ngtcp2\<close>

text \<open>
  The callback that gives ngtcp2 a new connection id and its reset token; \<open>rnd_cid\<close> and \<open>rnd_token\<close> are what the
  random generator delivers, \<open>None\<close> being its failure.
\<close>

definition get_new_connection_id_cb ::
  "bytes option \<Rightarrow> bytes option \<Rightarrow> nat \<Rightarrow> ng_rv \<times> (connection_id \<times> bytes) option" where
  "get_new_connection_id_cb rnd_cid rnd_token cidlen =
     (case rnd_cid of
        None \<Rightarrow> (NG_CALLBACK_FAILURE, None)
      | Some d \<Rightarrow>
          (case rnd_token of
             None \<Rightarrow> (NG_CALLBACK_FAILURE, None)
           | Some t \<Rightarrow> (NG_OK, Some (\<lparr>cid_datalen = cidlen, cid_data = d\<rparr>, t))))"

end
