(* ===== verification/Quic_Sockaddr.thy ===== *)
theory Quic_Sockaddr
  imports Quic_Utils
begin

text \<open>
  The memory behind an \<^verbatim>\<open>Address\<close> and a \<^verbatim>\<open>Path\<close> of \<^verbatim>\<open>include/quic/utils.hpp\<close>: the bytes of its \<^verbatim>\<open>sockaddr_storage\<close>, the
  constructors that copy a \<^verbatim>\<open>sockaddr\<close> of a given length into them, the accessors that read them through
  \<^verbatim>\<open>sockaddr_in\<close> and \<^verbatim>\<open>sockaddr_in6\<close>, and the pointers a path keeps into its own members.  The layout is that of
  Linux on a little-endian machine.
\<close>

section \<open>The storage of an address\<close>

definition sizeof_storage :: nat where "sizeof_storage = 128"

record raw_address =
  storage :: bytes
  socklen :: nat

text \<open>Bytes \<open>i\<close> to \<open>i + n\<close> of an object, and \<^verbatim>\<open>memmove\<close> of \<open>n\<close> bytes to its start.\<close>

definition bytes_at :: "nat \<Rightarrow> nat \<Rightarrow> bytes \<Rightarrow> bytes" where
  "bytes_at i n bs = take n (drop i bs)"

definition memmove_into :: "bytes \<Rightarrow> bytes \<Rightarrow> nat \<Rightarrow> bytes result" where
  "memmove_into dst src n =
     (if length dst < n \<or> length src < n then Inl Index_out_of_bounds else Inr (take n src @ drop n dst))"

text \<open>The family is in host byte order, the port in network order.\<close>

definition family_bytes :: "nat \<Rightarrow> bytes" where
  "family_bytes f = [of_nat f, of_nat (f div 256)]"

definition bytes_family :: "bytes \<Rightarrow> nat" where
  "bytes_family bs = (case bs of [l, h] \<Rightarrow> unat l + 256 * unat h | _ \<Rightarrow> 0)"

definition sa_family :: "bytes \<Rightarrow> nat" where
  "sa_family bs = bytes_family (bytes_at 0 2 bs)"

section \<open>Constructors and assignment\<close>

definition raw_zero :: raw_address where
  "raw_zero = \<lparr>storage = replicate sizeof_storage 0, socklen = 0\<rparr>"

definition raw_default :: raw_address where
  "raw_default = \<lparr>storage = family_bytes AF_INET6 @ drop 2 (storage raw_zero), socklen = sizeof_sockaddr_in6\<rparr>"

definition raw_of_sockaddr :: "bytes \<Rightarrow> nat \<Rightarrow> raw_address result" where
  "raw_of_sockaddr s n = and_then (memmove_into (storage raw_zero) s n) (\<lambda>st. Inr \<lparr>storage = st, socklen = n\<rparr>)"

definition sockaddr_len :: "bytes \<Rightarrow> nat" where
  "sockaddr_len s = (if sa_family s = AF_INET then sizeof_sockaddr_in else sizeof_sockaddr_in6)"

definition raw_of_sockaddr_family :: "bytes \<Rightarrow> raw_address result" where
  "raw_of_sockaddr_family s = raw_of_sockaddr s (sockaddr_len s)"

definition raw_of_sockaddr_in :: "bytes \<Rightarrow> raw_address result" where
  "raw_of_sockaddr_in s = raw_of_sockaddr s sizeof_sockaddr_in"

definition raw_of_sockaddr_in6 :: "bytes \<Rightarrow> raw_address result" where
  "raw_of_sockaddr_in6 s = raw_of_sockaddr s sizeof_sockaddr_in6"

text \<open>Assignment from a \<^verbatim>\<open>sockaddr\<close> pointer or, with \<open>is_in\<close>, from a \<^verbatim>\<open>sockaddr_in\<close> pointer: the rest of the storage stays.\<close>

definition raw_assign :: "bool \<Rightarrow> bytes \<Rightarrow> raw_address \<Rightarrow> raw_address result" where
  "raw_assign is_in s a =
     (let n = (if is_in then sizeof_sockaddr_in else sockaddr_len s)
      in and_then (memmove_into (storage a) s n) (\<lambda>st. Inr \<lparr>storage = st, socklen = n\<rparr>))"

text \<open>\<^verbatim>\<open>_copy_internals\<close>, for the copy constructor and the copy assignment.\<close>

definition raw_copy :: "raw_address \<Rightarrow> raw_address \<Rightarrow> raw_address result" where
  "raw_copy a obj =
     and_then (memmove_into (storage a) (storage obj) sizeof_storage) (\<lambda>st. Inr \<lparr>storage = st, socklen = socklen obj\<rparr>)"

definition raw_update_socklen :: "nat \<Rightarrow> raw_address \<Rightarrow> raw_address" where
  "raw_update_socklen n a = a\<lparr>socklen := n\<rparr>"

section \<open>Accessors\<close>

definition raw_is_ipv4 :: "raw_address \<Rightarrow> bool" where
  "raw_is_ipv4 a \<longleftrightarrow> socklen a = sizeof_sockaddr_in \<and> sa_family (storage a) = AF_INET"

definition raw_is_ipv6 :: "raw_address \<Rightarrow> bool" where
  "raw_is_ipv6 a \<longleftrightarrow> socklen a = sizeof_sockaddr_in6 \<and> sa_family (storage a) = AF_INET6"

text \<open>The storage seen as a \<^verbatim>\<open>sockaddr_in\<close> (port and address) or a \<^verbatim>\<open>sockaddr_in6\<close>.\<close>

definition raw_in4 :: "raw_address \<Rightarrow> (bytes \<times> bytes) result" where
  "raw_in4 a = (if raw_is_ipv4 a then Inr (bytes_at 2 2 (storage a), bytes_at 4 4 (storage a)) else Inl Assertion_failed)"

definition raw_in6 :: "raw_address \<Rightarrow> (bytes \<times> bytes) result" where
  "raw_in6 a = (if raw_is_ipv6 a then Inr (bytes_at 2 2 (storage a), bytes_at 8 16 (storage a)) else Inl Assertion_failed)"

definition raw_port :: "raw_address \<Rightarrow> u16 result" where
  "raw_port a = (if raw_is_ipv4 a \<or> raw_is_ipv6 a then Inr (big_to_host (bytes_at 2 2 (storage a))) else Inl Assertion_failed)"

definition raw_eq :: "raw_address \<Rightarrow> raw_address \<Rightarrow> bool result" where
  "raw_eq a b =
     (if raw_is_ipv4 a \<and> raw_is_ipv4 b
      then and_then (raw_in4 a) (\<lambda>x. and_then (raw_in4 b) (\<lambda>y. Inr (fst x = fst y \<and> snd x = snd y)))
      else if raw_is_ipv6 a \<and> raw_is_ipv6 b
      then and_then (raw_in6 a) (\<lambda>x. and_then (raw_in6 b) (\<lambda>y. Inr (fst x = fst y \<and> snd x = snd y)))
      else Inr False)"

definition raw_hash :: "(bytes \<Rightarrow> u64) \<Rightarrow> (bytes \<Rightarrow> u64) \<Rightarrow> raw_address \<Rightarrow> u64 result" where
  "raw_hash hash_sv hash_port a =
     and_then (if raw_is_ipv4 a then raw_in4 a else if raw_is_ipv6 a then raw_in6 a else Inl Assertion_failed) (\<lambda>(port, addr_data).
       let h = hash_sv addr_data in Inr (h XOR (hash_port port + inverse_golden_ratio + push_bit 6 h + drop_bit 2 h)))"

section \<open>The storage and its fields\<close>

definition raw_wf :: "raw_address \<Rightarrow> bool" where
  "raw_wf a \<longleftrightarrow> length (storage a) = sizeof_storage \<and> socklen a \<le> sizeof_storage"

definition raw_abs :: "raw_address \<Rightarrow> address" where
  "raw_abs a = \<lparr>ss_family = sa_family (storage a), sin_port = bytes_at 2 2 (storage a), sin_addr = bytes_at 4 4 (storage a),
     sin6_addr = bytes_at 8 16 (storage a), addrlen = socklen a\<rparr>"

lemmas raw_sizes = sizeof_storage_def sizeof_sockaddr_in_def sizeof_sockaddr_in6_def

lemma memmove_into_length: "memmove_into dst src n = Inr st \<Longrightarrow> length st = length dst"
  by (auto simp: memmove_into_def split: if_splits)

lemma bytes_at_memmove:
  assumes "memmove_into dst src n = Inr st" and "i + k \<le> n"
  shows "bytes_at i k st = bytes_at i k src"
  using assms by (auto simp: memmove_into_def bytes_at_def drop_take split: if_splits)

lemma family_bytes_inverse: "f < 65536 \<Longrightarrow> bytes_family (family_bytes f) = f"
  by (simp add: bytes_family_def family_bytes_def unat_of_nat)

lemma raw_abs_ipv4: "raw_is_ipv4 a = is_ipv4 (raw_abs a)"
  and raw_abs_ipv6: "raw_is_ipv6 a = is_ipv6 (raw_abs a)"
  by (simp_all add: raw_is_ipv4_def is_ipv4_def raw_is_ipv6_def is_ipv6_def raw_abs_def)

lemmas raw_defs = raw_in4_def raw_in6_def raw_port_def raw_eq_def raw_hash_def

text \<open>
  The fields model the bytes: every accessor, the comparison and the hash of an \<^verbatim>\<open>Address\<close>, read from its
  storage through the two \<^verbatim>\<open>sockaddr\<close> types, give what the address of the fields gives, and the default
  constructor builds the storage of the default address.
\<close>

theorem raw_address_refines:
  "raw_port a = address_port (raw_abs a) \<and> raw_eq a b = Inr (address_eq (raw_abs a) (raw_abs b)) \<and>
   raw_hash hash_sv hash_port a = address_hash hash_sv hash_port (raw_abs a) \<and> raw_abs raw_default = address_default"
proof (intro conjI)
  show "raw_port a = address_port (raw_abs a)"
    by (simp add: raw_port_def address_port_def raw_abs_ipv4 raw_abs_ipv6) (simp add: raw_abs_def)
  show "raw_eq a b = Inr (address_eq (raw_abs a) (raw_abs b))"
    by (simp add: raw_eq_def raw_in4_def raw_in6_def address_eq_def raw_abs_ipv4 raw_abs_ipv6) (simp add: raw_abs_def)
  show "raw_hash hash_sv hash_port a = address_hash hash_sv hash_port (raw_abs a)"
    by (simp add: raw_hash_def raw_in4_def raw_in6_def address_hash_def raw_abs_ipv4 raw_abs_ipv6 Let_def) (simp add: raw_abs_def)
  have "length (family_bytes AF_INET6) = 2" by (simp add: family_bytes_def)
  moreover have "bytes_family (family_bytes AF_INET6) = AF_INET6" by (rule family_bytes_inverse) (simp add: AF_INET6_def)
  ultimately show "raw_abs raw_default = address_default"
    by (simp add: raw_abs_def raw_default_def raw_zero_def address_default_def zero_sockaddr_def sa_family_def bytes_at_def
        sizeof_storage_def numeral_2_eq_2)
qed

section \<open>Internet addresses\<close>

text \<open>
  What an address stands for: the bytes of an IPv4 or IPv6 address and a port.  \<open>layout\<close> is the representation
  POSIX and RFC 3493 give it as a \<^verbatim>\<open>sockaddr_in\<close> or \<^verbatim>\<open>sockaddr_in6\<close>: the family in host order, the port in network
  order, then the address, for IPv6 after four bytes of flow information; padding, flow information and scope may be
  anything.
\<close>

datatype inet = Inet4 bytes u16 | Inet6 bytes u16

primrec inet_port :: "inet \<Rightarrow> u16" where
  "inet_port (Inet4 ad p) = p"
| "inet_port (Inet6 ad p) = p"

primrec inet_len :: "inet \<Rightarrow> nat" where
  "inet_len (Inet4 ad p) = 16"
| "inet_len (Inet6 ad p) = 28"

definition port_bytes :: "u16 \<Rightarrow> bytes" where
  "port_bytes p = [of_nat (unat p div 256), of_nat (unat p mod 256)]"

primrec layout :: "inet \<Rightarrow> bytes \<Rightarrow> bool" where
  "layout (Inet4 ad p) s \<longleftrightarrow> length ad = 4 \<and>
     (\<exists>pad. 8 \<le> length pad \<and> s = family_bytes AF_INET @ port_bytes p @ ad @ pad)"
| "layout (Inet6 ad p) s \<longleftrightarrow> length ad = 16 \<and>
     (\<exists>flow scope. length flow = 4 \<and> 4 \<le> length scope \<and> s = family_bytes AF_INET6 @ port_bytes p @ flow @ ad @ scope)"

definition encodes :: "raw_address \<Rightarrow> inet \<Rightarrow> bool" where
  "encodes a x \<longleftrightarrow> layout x (storage a) \<and> socklen a = inet_len x"

lemma port_bytes_inverse: "big_to_host (port_bytes p) = p"
proof -
  have "port_bytes p = host_to_big p"
    by (auto simp: port_bytes_def host_to_big_def word_unat_eq_iff unsigned_of_nat unsigned_ucast_eq
        unsigned_drop_bit_eq take_bit_eq_mod drop_bit_eq_div unat_div)
  then show ?thesis by simp
qed

lemma port_bytes_eq [simp]: "port_bytes p = port_bytes q \<longleftrightarrow> p = q"
  by (metis port_bytes_inverse)

lemma family_head:
  "sa_family (family_bytes AF_INET @ bs) = AF_INET" "sa_family (family_bytes AF_INET6 @ bs) = AF_INET6"
  by (simp_all add: sa_family_def bytes_at_def bytes_family_def family_bytes_def AF_INET_def AF_INET6_def)

lemma bytes_after: "length pre = i \<Longrightarrow> length x = n \<Longrightarrow> bytes_at i n (pre @ x @ post) = x"
  by (simp add: bytes_at_def)

lemma header_lengths [simp]: "length (family_bytes f) = 2" "length (port_bytes p) = 2"
  by (simp_all add: family_bytes_def port_bytes_def)

lemma layout_facts:
  assumes "layout x s"
  shows "inet_len x \<le> length s \<and> bytes_at 2 2 s = port_bytes (inet_port x) \<and>
      sa_family s = (case x of Inet4 _ _ \<Rightarrow> AF_INET | Inet6 _ _ \<Rightarrow> AF_INET6) \<and>
      (case x of Inet4 ad _ \<Rightarrow> bytes_at 4 4 s = ad | Inet6 ad _ \<Rightarrow> bytes_at 8 16 s = ad)"
proof (cases x)
  case (Inet4 ad p)
  with assms obtain pad where "length ad = 4" "8 \<le> length pad" and s: "s = family_bytes AF_INET @ port_bytes p @ ad @ pad" by auto
  then show ?thesis
    using bytes_after [of "family_bytes AF_INET @ port_bytes p" 4 ad 4 pad]
    by (simp add: Inet4 s family_head bytes_after)
next
  case (Inet6 ad p)
  with assms obtain flow scope where "length ad = 16" "length flow = 4" "4 \<le> length scope"
    and s: "s = family_bytes AF_INET6 @ port_bytes p @ flow @ ad @ scope" by auto
  then show ?thesis
    using bytes_after [of "family_bytes AF_INET6 @ port_bytes p @ flow" 8 ad 16 scope]
    by (simp add: Inet6 s family_head bytes_after)
qed

lemmas layout_bytes = layout_facts [THEN conjunct1] layout_facts [THEN conjunct2, THEN conjunct1]
  layout_facts [THEN conjunct2, THEN conjunct2, THEN conjunct1] layout_facts [THEN conjunct2, THEN conjunct2, THEN conjunct2]

lemma encodes_type:
  "encodes a x \<Longrightarrow> raw_is_ipv4 a \<longleftrightarrow> (\<exists>ad p. x = Inet4 ad p)"
  "encodes a x \<Longrightarrow> raw_is_ipv6 a \<longleftrightarrow> (\<exists>ad p. x = Inet6 ad p)"
  using layout_bytes(3) [of x "storage a"] by (cases x; simp add: encodes_def raw_is_ipv4_def raw_is_ipv6_def raw_sizes)+

text \<open>
  C15: An \<^verbatim>\<open>Address\<close> whose storage holds an internet address behaves as that address.  Two of them compare equal
  exactly when they have the same family, address bytes and port, whatever padding, flow information and scope
  surround them; the port is the number meant; exactly one of the tests for the family holds; equal addresses have
  equal hashes; the default constructor makes \<^verbatim>\<open>[::]:0\<close>.
\<close>

theorem raw_address_semantics:
  assumes "encodes a x" and "encodes b y"
  shows "raw_eq a b = Inr (x = y) \<and> raw_port a = Inr (inet_port x) \<and>
    (raw_is_ipv4 a \<longleftrightarrow> (\<exists>ad p. x = Inet4 ad p)) \<and> (raw_is_ipv6 a \<longleftrightarrow> (\<exists>ad p. x = Inet6 ad p)) \<and>
    (\<exists>h. raw_hash hash_sv hash_port a = Inr h \<and> (x = y \<longrightarrow> raw_hash hash_sv hash_port b = Inr h)) \<and>
    encodes raw_default (Inet6 (replicate 16 0) 0)"
proof (intro conjI)
  note ta = encodes_type [OF assms(1)] and tb = encodes_type [OF assms(2)]
  note la = layout_bytes [of x "storage a"] and lb = layout_bytes [of y "storage b"]
  have l: "layout x (storage a)" "layout y (storage b)" using assms by (simp_all add: encodes_def)
  show "raw_is_ipv4 a \<longleftrightarrow> (\<exists>ad p. x = Inet4 ad p)" "raw_is_ipv6 a \<longleftrightarrow> (\<exists>ad p. x = Inet6 ad p)" by (fact ta)+
  show "raw_port a = Inr (inet_port x)"
    using la(2) [OF l(1)] by (cases x) (simp_all add: raw_port_def ta port_bytes_inverse)
  show "raw_eq a b = Inr (x = y)"
    using la(2,4) [OF l(1)] lb(2,4) [OF l(2)]
    by (cases x; cases y) (auto simp: raw_eq_def raw_in4_def raw_in6_def ta tb)
  show "\<exists>h. raw_hash hash_sv hash_port a = Inr h \<and> (x = y \<longrightarrow> raw_hash hash_sv hash_port b = Inr h)"
    using la(2,4) [OF l(1)] lb(2,4) [OF l(2)]
    by (cases x; cases y) (auto simp: raw_hash_def raw_in4_def raw_in6_def ta tb Let_def)
  show "encodes raw_default (Inet6 (replicate 16 0) 0)"
  proof -
    have p: "port_bytes 0 = replicate 2 0" by (simp add: port_bytes_def numeral_2_eq_2)
    have "replicate 126 0 = port_bytes 0 @ replicate 4 0 @ replicate 16 0 @ replicate 104 0"
      unfolding p replicate_add [symmetric] by simp
    then have "storage raw_default = family_bytes AF_INET6 @ port_bytes 0 @ replicate 4 0 @ replicate 16 0 @ replicate 104 0"
      by (simp add: raw_default_def raw_zero_def sizeof_storage_def)
    moreover have "length (replicate 16 (0 :: byte)) = 16" "length (replicate 4 (0 :: byte)) = 4" "4 \<le> length (replicate 104 (0 :: byte))"
      by simp_all
    ultimately have "layout (Inet6 (replicate 16 0) 0) (storage raw_default)" unfolding layout.simps by blast
    then show ?thesis by (simp add: encodes_def raw_default_def raw_sizes)
  qed
qed

text \<open>What \<^verbatim>\<open>memmove\<close> into the storage keeps.\<close>

lemma memmove_storage:
  assumes "raw_wf a"
  shows "and_then (memmove_into (storage a) s n) (\<lambda>st. Inr \<lparr>storage = st, socklen = n\<rparr>) =
    (if n \<le> sizeof_storage \<and> n \<le> length s then Inr \<lparr>storage = take n s @ drop n (storage a), socklen = n\<rparr>
     else Inl Index_out_of_bounds)"
  using assms by (simp add: memmove_into_def raw_wf_def)

lemma raw_zero_wf: "raw_wf raw_zero"
  by (simp add: raw_wf_def raw_zero_def)

lemma raw_of_sockaddr_eq:
  "raw_of_sockaddr s n = (if n \<le> sizeof_storage \<and> n \<le> length s
     then Inr \<lparr>storage = take n s @ drop n (storage raw_zero), socklen = n\<rparr> else Inl Index_out_of_bounds)"
  unfolding raw_of_sockaddr_def by (rule memmove_storage [OF raw_zero_wf])

lemma raw_assign_eq:
  assumes "raw_wf a"
  shows "raw_assign is_in s a = (let n = if is_in then 16 else sockaddr_len s in
    if n \<le> length s then Inr \<lparr>storage = take n s @ drop n (storage a), socklen = n\<rparr> else Inl Index_out_of_bounds)"
  unfolding raw_assign_def Let_def memmove_storage [OF assms] by (simp add: raw_sizes sockaddr_len_def)

lemma layout_take:
  assumes "layout x s"
  shows "layout x (take (inet_len x) s @ rest)"
proof (cases x)
  case (Inet4 ad p)
  with assms obtain pad where "length ad = 4" "8 \<le> length pad" "s = family_bytes AF_INET @ port_bytes p @ ad @ pad" by auto
  with Inet4 show ?thesis
    by (intro iffD2 [OF arg_cong [OF Inet4, of "\<lambda>x. layout x _"]])
      (auto simp: family_bytes_def port_bytes_def intro!: exI [of _ "take 8 pad @ rest"])
next
  case (Inet6 ad p)
  with assms obtain flow scope where "length ad = 16" "length flow = 4" "4 \<le> length scope"
    "s = family_bytes AF_INET6 @ port_bytes p @ flow @ ad @ scope" by auto
  with Inet6 show ?thesis
    by (intro iffD2 [OF arg_cong [OF Inet6, of "\<lambda>x. layout x _"]])
      (simp add: family_bytes_def port_bytes_def, intro exI [of _ flow] exI [of _ "take 4 scope @ rest"], simp)
qed

lemma sockaddr_len_layout: "layout x s \<Longrightarrow> sockaddr_len s = inet_len x"
  using layout_bytes(3) [of x s] by (cases x) (auto simp: sockaddr_len_def raw_sizes AF_INET_def AF_INET6_def)

lemma sockaddr_len_short:
  assumes "layout x s" and "m < inet_len x"
  shows "m < sockaddr_len (take m s)"
proof (cases "2 \<le> m")
  case True
  then have "sa_family (take m s) = sa_family s" by (simp add: sa_family_def bytes_at_def min_def)
  with sockaddr_len_layout [OF assms(1)] assms(2) show ?thesis by (simp add: sockaddr_len_def)
qed (simp add: sockaddr_len_def raw_sizes)

text \<open>
  C17: Constructing or assigning an address from a \<^verbatim>\<open>sockaddr\<close> copies exactly the address: the 16 or 28 bytes that its
  family calls for, followed by zeros in a new object and by the old bytes in an assigned one, with that length, so
  that the result is well-formed and stands for the same internet address; the typed constructors agree with the
  one that looks at the family.  A source shorter than its family calls for is read out of bounds.  Copies are exact.
\<close>

theorem raw_address_typed:
  assumes "raw_wf a" and "raw_wf obj" and "layout x s"
  shows "\<exists>new old. new = \<lparr>storage = take (inet_len x) s @ replicate (128 - inet_len x) 0, socklen = inet_len x\<rparr> \<and>
    old = \<lparr>storage = take (inet_len x) s @ drop (inet_len x) (storage a), socklen = inet_len x\<rparr> \<and>
    raw_of_sockaddr_family s = Inr new \<and> raw_assign False s a = Inr old \<and>
    (case x of Inet4 _ _ \<Rightarrow> raw_of_sockaddr_in s = Inr new \<and> raw_assign True s a = Inr old
     | Inet6 _ _ \<Rightarrow> raw_of_sockaddr_in6 s = Inr new) \<and>
    encodes new x \<and> encodes old x \<and> raw_wf new \<and> raw_wf old \<and> raw_copy a obj = Inr obj \<and>
    (\<forall>m < inet_len x. raw_of_sockaddr_family (take m s) = Inl Index_out_of_bounds \<and>
       raw_assign False (take m s) a = Inl Index_out_of_bounds)"
proof (intro exI conjI)
  note len = layout_bytes(1) [OF assms(3)] and fam = sockaddr_len_layout [OF assms(3)]
  have zero: "drop n (storage raw_zero) = replicate (128 - n) 0" for n by (simp add: raw_zero_def sizeof_storage_def)
  have n: "inet_len x \<le> sizeof_storage" by (cases x) (simp_all add: sizeof_storage_def)
  show "raw_of_sockaddr_family s = Inr \<lparr>storage = take (inet_len x) s @ replicate (128 - inet_len x) 0, socklen = inet_len x\<rparr>"
    using len n by (simp add: raw_of_sockaddr_family_def raw_of_sockaddr_eq fam zero)
  show "raw_assign False s a = Inr \<lparr>storage = take (inet_len x) s @ drop (inet_len x) (storage a), socklen = inet_len x\<rparr>"
    using len by (simp add: raw_assign_eq [OF assms(1)] fam Let_def)
  show "case x of Inet4 _ _ \<Rightarrow>
      raw_of_sockaddr_in s = Inr \<lparr>storage = take (inet_len x) s @ replicate (128 - inet_len x) 0, socklen = inet_len x\<rparr> \<and>
      raw_assign True s a = Inr \<lparr>storage = take (inet_len x) s @ drop (inet_len x) (storage a), socklen = inet_len x\<rparr>
    | Inet6 _ _ \<Rightarrow>
      raw_of_sockaddr_in6 s = Inr \<lparr>storage = take (inet_len x) s @ replicate (128 - inet_len x) 0, socklen = inet_len x\<rparr>"
    using len n
    by (cases x) (simp_all add: raw_of_sockaddr_in_def raw_of_sockaddr_in6_def raw_of_sockaddr_eq zero raw_sizes
        raw_assign_eq [OF assms(1)])
  show "encodes \<lparr>storage = take (inet_len x) s @ replicate (128 - inet_len x) 0, socklen = inet_len x\<rparr> x"
    "encodes \<lparr>storage = take (inet_len x) s @ drop (inet_len x) (storage a), socklen = inet_len x\<rparr> x"
    using layout_take [OF assms(3)] by (simp_all add: encodes_def)
  show "raw_wf \<lparr>storage = take (inet_len x) s @ replicate (128 - inet_len x) 0, socklen = inet_len x\<rparr>"
    "raw_wf \<lparr>storage = take (inet_len x) s @ drop (inet_len x) (storage a), socklen = inet_len x\<rparr>"
    using len n assms(1) by (simp_all add: raw_wf_def sizeof_storage_def)
  show "raw_copy a obj = Inr obj" using assms(1,2) by (simp add: raw_copy_def memmove_into_def raw_wf_def)
  show "\<forall>m < inet_len x. raw_of_sockaddr_family (take m s) = Inl Index_out_of_bounds \<and>
      raw_assign False (take m s) a = Inl Index_out_of_bounds"
  proof (intro allI impI)
    fix m assume m: "m < inet_len x"
    have "m < sockaddr_len (take m s)" "length (take m s) = m" using sockaddr_len_short [OF assms(3) m] m len by simp_all
    then show "raw_of_sockaddr_family (take m s) = Inl Index_out_of_bounds \<and> raw_assign False (take m s) a = Inl Index_out_of_bounds"
      by (auto simp: raw_of_sockaddr_family_def raw_of_sockaddr_eq raw_assign_eq [OF assms(1)] Let_def)
  qed
qed simp_all

text \<open>The address as the kernel sees it: the first \<^verbatim>\<open>socklen\<close> bytes.\<close>

definition sockaddr_of :: "raw_address \<Rightarrow> bytes" where
  "sockaddr_of a = take (socklen a) (storage a)"

text \<open>
  C35: An address survives the trip through a \<^verbatim>\<open>sockaddr\<close> pointer and a length, as when it is handed to a system
  call and read back: the address built from it is equal to it, has the same port and the same hash.
\<close>

theorem sockaddr_roundtrip:
  assumes "raw_wf a" and "raw_is_ipv4 a \<or> raw_is_ipv6 a"
  shows "\<exists>b. raw_of_sockaddr (sockaddr_of a) (socklen a) = Inr b \<and> raw_eq a b = Inr True \<and> raw_port b = raw_port a \<and>
    raw_hash hash_sv hash_port b = raw_hash hash_sv hash_port a"
proof -
  let ?b = "\<lparr>storage = take (socklen a) (storage a) @ drop (socklen a) (storage raw_zero), socklen = socklen a\<rparr>"
  have b: "raw_of_sockaddr (sockaddr_of a) (socklen a) = Inr ?b"
    using assms(1) by (simp add: raw_of_sockaddr_eq sockaddr_of_def raw_wf_def)
  have f: "bytes_at i k (storage ?b) = bytes_at i k (storage a)" if "i + k \<le> socklen a" for i k
  proof -
    have "length (storage a) = sizeof_storage" "socklen a \<le> sizeof_storage" using assms(1) by (simp_all add: raw_wf_def)
    with that have "k \<le> min (sizeof_storage - i) (socklen a - i)" by simp
    with that assms(1) show ?thesis by (simp add: bytes_at_def raw_wf_def drop_take min_def split: if_splits)
  qed
  from assms(2) show ?thesis
  proof
    assume v4: "raw_is_ipv4 a"
    then have n: "socklen a = 16" by (simp add: raw_is_ipv4_def raw_sizes)
    with v4 f [of 0 2] have "raw_is_ipv4 ?b" by (simp add: raw_is_ipv4_def sa_family_def)
    with v4 n f [of 2 2] f [of 4 4] b show ?thesis
      by (intro exI [of _ ?b]) (simp add: raw_defs)
  next
    assume v6: "raw_is_ipv6 a"
    then have n: "socklen a = 28" by (simp add: raw_is_ipv6_def raw_sizes)
    with v6 f [of 0 2] have b6: "raw_is_ipv6 ?b" by (simp add: raw_is_ipv6_def sa_family_def)
    have "\<not> raw_is_ipv4 ?b" "\<not> raw_is_ipv4 a" using n by (simp_all add: raw_is_ipv4_def raw_sizes)
    with v6 b6 n f [of 2 2] f [of 8 16] b show ?thesis
      by (intro exI [of _ ?b]) (simp add: raw_defs)
  qed
qed

text \<open>A concrete IPv4 address, 127.0.0.1 with port 4433.\<close>

definition sample_in :: bytes where
  "sample_in = family_bytes AF_INET @ [0x11, 0x51, 127, 0, 0, 1] @ replicate 8 0"

definition sample_raw :: raw_address where
  "sample_raw = \<lparr>storage = sample_in @ replicate 112 0, socklen = 16\<rparr>"

lemma sample_raw_ok: "raw_wf sample_raw" "raw_is_ipv4 sample_raw"
  by (simp_all add: raw_wf_def sample_raw_def sample_in_def family_bytes_def raw_sizes raw_is_ipv4_def sa_family_def bytes_at_def
      bytes_family_def AF_INET_def)

lemma sample_layout: "layout (Inet4 [127, 0, 0, 1] 4433) sample_in" "encodes sample_raw (Inet4 [127, 0, 0, 1] 4433)"
  by (simp_all add: encodes_def sample_raw_def sample_in_def family_bytes_def port_bytes_def)

text \<open>The same address with other bytes in the padding.\<close>

definition padded_raw :: raw_address where
  "padded_raw = \<lparr>storage = take 8 sample_in @ replicate 120 7, socklen = 16\<rparr>"

theorem raw_address_semantics_witness:
  "raw_eq sample_raw padded_raw = Inr True \<and> raw_eq sample_raw raw_default = Inr False \<and> raw_port sample_raw = Inr 4433"
proof -
  have "encodes padded_raw (Inet4 [127, 0, 0, 1] 4433)"
    by (simp add: encodes_def padded_raw_def sample_in_def family_bytes_def port_bytes_def)
  from raw_address_semantics [OF sample_layout(2) this, of "\<lambda>_. 0" "\<lambda>_. 0"]
    raw_address_semantics [OF sample_layout(2), of raw_default "Inet6 (replicate 16 0) 0" "\<lambda>_. 0" "\<lambda>_. 0"]
  show ?thesis by simp
qed

theorem raw_address_typed_witness:
  "raw_of_sockaddr_family sample_in = Inr sample_raw \<and> raw_of_sockaddr_in sample_in = Inr sample_raw \<and>
   raw_assign False (take 15 sample_in) raw_default = Inl Index_out_of_bounds"
proof -
  have "raw_wf raw_default" by (simp add: raw_wf_def raw_default_def raw_zero_def family_bytes_def raw_sizes)
  note typed = raw_address_typed [OF this sample_raw_ok(1) sample_layout(1)]
  have "length sample_in = 16" by (simp add: sample_in_def family_bytes_def)
  then have new: "\<lparr>storage = take 16 sample_in @ replicate (128 - 16) 0, socklen = 16\<rparr> = sample_raw" by (simp add: sample_raw_def)
  have "(15 :: nat) < 16" by simp
  with typed show ?thesis unfolding inet_len.simps new inet.case by blast
qed

theorem sockaddr_roundtrip_witness:
  "\<exists>b. raw_of_sockaddr sample_in 16 = Inr b \<and> raw_eq sample_raw b = Inr True \<and> raw_port b = Inr 4433"
proof -
  have len: "length sample_in = 16" by (simp add: sample_in_def family_bytes_def)
  have s: "sockaddr_of sample_raw = sample_in" "socklen sample_raw = 16"
    by (simp_all add: sockaddr_of_def sample_raw_def len)
  have "raw_port sample_raw = Inr 4433"
    using sample_raw_ok(2)
    by (simp add: raw_port_def bytes_at_def sample_raw_def sample_in_def family_bytes_def big_to_host_def)
  with sockaddr_roundtrip [OF sample_raw_ok(1), of "\<lambda>_. 0" "\<lambda>_. 0"] sample_raw_ok(2) show ?thesis by (auto simp: s)
qed

section \<open>Paths\<close>

text \<open>
  A \<^verbatim>\<open>Path\<close> object with an identity: the \<^verbatim>\<open>ngtcp2_path\<close> inside it holds, for each end, a pointer to the storage of an
  address (given by the path object that owns it) and a length.
\<close>

record path_obj =
  po_self :: nat
  po_local :: raw_address
  po_remote :: raw_address
  po_view_local :: "nat \<times> nat"
  po_view_remote :: "nat \<times> nat"

definition path_new :: "nat \<Rightarrow> raw_address \<Rightarrow> raw_address \<Rightarrow> path_obj" where
  "path_new self l r = \<lparr>po_self = self, po_local = l, po_remote = r,
     po_view_local = (self, socklen l), po_view_remote = (self, socklen r)\<rparr>"

definition path_default :: "nat \<Rightarrow> path_obj" where
  "path_default self = path_new self raw_default raw_default"

definition path_copy :: "nat \<Rightarrow> path_obj \<Rightarrow> path_obj" where
  "path_copy self p = path_new self (po_local p) (po_remote p)"

definition path_assign :: "path_obj \<Rightarrow> path_obj \<Rightarrow> path_obj result" where
  "path_assign this p =
     and_then (raw_copy (po_local this) (po_local p)) (\<lambda>l.
     and_then (raw_copy (po_remote this) (po_remote p)) (\<lambda>r.
       Inr (this\<lparr>po_local := l, po_remote := r, po_view_local := (po_self this, socklen l),
                 po_view_remote := (po_self this, socklen r)\<rparr>)))"

text \<open>What ngtcp2 may rely on: the pointers lead into the object itself, with the lengths of its members.\<close>

definition path_sound :: "path_obj \<Rightarrow> bool" where
  "path_sound p \<longleftrightarrow> raw_wf (po_local p) \<and> raw_wf (po_remote p) \<and>
     po_view_local p = (po_self p, socklen (po_local p)) \<and> po_view_remote p = (po_self p, socklen (po_remote p))"

lemma raw_default_wf: "raw_wf raw_default"
  by (simp add: raw_wf_def raw_default_def raw_zero_def family_bytes_def raw_sizes)

text \<open>
  Paths are values: a path made by default, from two addresses, by copy or by assignment refers only to its own
  members, never to the path it was made from, and holds the other path's addresses.
\<close>

theorem path_self_contained:
  assumes "path_sound p" and "path_sound q"
  shows "path_sound (path_default self) \<and> path_sound (path_copy self p) \<and>
    po_local (path_copy self p) = po_local p \<and> po_remote (path_copy self p) = po_remote p \<and>
    (\<exists>r. path_assign q p = Inr r \<and> path_sound r \<and> po_self r = po_self q \<and> po_local r = po_local p \<and> po_remote r = po_remote p)"
proof -
  have "raw_copy (po_local q) (po_local p) = Inr (po_local p)" "raw_copy (po_remote q) (po_remote p) = Inr (po_remote p)"
    using assms by (simp_all add: path_sound_def raw_copy_def memmove_into_def raw_wf_def)
  with assms raw_default_wf show ?thesis
    by (simp add: path_sound_def path_default_def path_copy_def path_new_def path_assign_def)
qed

theorem path_self_contained_witness:
  "\<exists>r. path_assign (path_default 1) (path_new 2 sample_raw raw_default) = Inr r \<and> po_view_local r = (1, 16)"
proof -
  have "path_sound (path_new 2 sample_raw raw_default)" "path_sound (path_default 1)"
    using sample_raw_ok(1) raw_default_wf by (simp_all add: path_sound_def path_new_def path_default_def)
  from path_self_contained [OF this, of 3] show ?thesis
    by (auto simp: path_sound_def path_new_def path_default_def sample_raw_def)
qed

end
