(* ===== verification/Quic_Events.thy ===== *)
theory Quic_Events
  imports Quic_Ep_Life
begin

text \<open>
  The event loop of an endpoint: every event libevent can deliver to it and to its connections (a packet, the
  expiry timer, a connection's io trigger and retransmission timer, the socket's write event) and the calls
  of the application, over one state that holds the endpoint and the callbacks which wait for its socket to
  become writeable.
\<close>

section \<open>State\<close>

text \<open>
  The callbacks of \<^verbatim>\<open>UDPSocket::writeable_callbacks_\<close>: the retry of a blocked connection, which captures a plain pointer
  to it, and a one-shot packet with the connection its callback may delete.  \<open>Gone\<close> is a retry whose connection left the
  map of the endpoint; the connection still exists then only if the application keeps a pointer to it.
\<close>

datatype waiter = Retry bytes | Gone bytes | Resend path bytes "connection_id option"

text \<open>
  The endpoint's own list \<open>waiting\<close> is empty between events; \<open>lp_wev\<close> is whether the write event is added.  Besides the
  libraries and the application's callbacks, \<open>le_other\<close> is what these do on other connections, and \<open>le_held\<close> says to which
  connections the application keeps a pointer of its own, such as the one \<^verbatim>\<open>connect\<close> returns.
\<close>

record 'ng ep_loop =
  lp_ep :: "'ng endpoint"
  lp_waiters :: "waiter list"
  lp_wev :: bool

record ('ng, 'os) loop_env =
  le_pk :: "'ng pkt_api"
  le_ng :: "'ng ngtcp2"
  le_app :: app
  le_other :: "'ng other_calls"
  le_held :: "bytes \<Rightarrow> bool"
  le_udp :: "'os udp_env"
  le_fuel :: nat

datatype loop_event =
    Ev_packet bytes packet
  | Ev_timeouts
  | Ev_listen "conn_ctx result"
  | Ev_connect path "conn_ctx result" connection_id
  | Ev_close_conns "direction option"
  | Ev_action bytes app_action
  | Ev_io bytes
  | Ev_timer bytes
  | Ev_write

definition find_conn :: "bytes \<Rightarrow> 'ng endpoint \<Rightarrow> 'ng connection option" where
  "find_conn k ep = (case map_of (conns ep) k of Some x \<Rightarrow> x | None \<Rightarrow> None)"

definition mark_waiter :: "'ng endpoint \<Rightarrow> waiter \<Rightarrow> waiter" where
  "mark_waiter ep w = (case w of Retry k \<Rightarrow> (case find_conn k ep of Some _ \<Rightarrow> w | None \<Rightarrow> Gone k) | _ \<Rightarrow> w)"

text \<open>
  A connection outside the map that the application keeps: the last one with that id the endpoint gave up.
\<close>

definition has_key :: "bytes \<Rightarrow> 'ng connection \<Rightarrow> bool" where
  "has_key k c \<longleftrightarrow> cid_key (cn_source_cid c) = k"

definition kept_conn :: "('ng, 'os) loop_env \<Rightarrow> bytes \<Rightarrow> 'ng endpoint \<Rightarrow> 'ng connection option" where
  "kept_conn P k ep = (if le_held P k then find (has_key k) (rev (dropped ep)) else None)"

fun replace_conn :: "bytes \<Rightarrow> 'ng connection \<Rightarrow> 'ng connection list \<Rightarrow> 'ng connection list" where
  "replace_conn k c' [] = []"
| "replace_conn k c' (c # cs) = (if has_key k c then c' # cs else c # replace_conn k c' cs)"

definition put_kept :: "bytes \<Rightarrow> 'ng connection \<Rightarrow> 'ng endpoint \<Rightarrow> 'ng endpoint" where
  "put_kept k c ep = ep\<lparr>dropped := rev (replace_conn k c (rev (dropped ep)))\<rparr>"

section \<open>Events\<close>

definition lp_when_writeable :: "waiter \<Rightarrow> 'ng ep_loop \<Rightarrow> 'ng ep_loop" where
  "lp_when_writeable w lp = lp\<lparr>lp_waiters := lp_waiters lp @ [w], lp_wev := True\<rparr>"

text \<open>The state after an operation on the endpoint, with the callbacks the operation registered.\<close>

definition absorb :: "'ng endpoint \<Rightarrow> waiter list \<Rightarrow> 'ng ep_loop \<Rightarrow> 'ng ep_loop" where
  "absorb ep ws lp =
     fold lp_when_writeable (map (\<lambda>(p, buf, cb). Resend p buf cb) (waiting ep) @ ws)
       (lp\<lparr>lp_ep := ep\<lparr>waiting := []\<rparr>, lp_waiters := map (mark_waiter ep) (lp_waiters lp)\<rparr>)"

definition run_waiter ::
  "('ng, 'os) loop_env \<Rightarrow> u64 \<Rightarrow> (bytes \<Rightarrow> nat) \<Rightarrow> waiter \<Rightarrow> 'ng ep_loop \<Rightarrow> 'os \<Rightarrow> ('ng ep_loop \<times> 'os) result option" where
  "run_waiter P now start w lp os =
     (case w of
        Gone k \<Rightarrow>
          (case kept_conn P k (lp_ep lp) of
             None \<Rightarrow> Some (Inl Use_of_destroyed_object)
           | Some c \<Rightarrow>
               obind (writeable_event (le_fuel P) (le_ng P) (le_udp P) (start k) now c os) (\<lambda>(c', os').
                 Some (Inr (absorb (put_kept k c' (lp_ep lp)) (replicate (write_waits c' - (write_waits c - 1)) (Gone k)) lp, os'))))
      | Resend p buf cb \<Rightarrow>
          obind (ep_send_packet (le_udp P) p buf cb (lp_ep lp) os) (\<lambda>(ep, os'). Some (Inr (absorb ep [] lp, os')))
      | Retry k \<Rightarrow>
          (case find_conn k (lp_ep lp) of
             None \<Rightarrow> Some (Inl Use_of_destroyed_object)
           | Some c \<Rightarrow>
               obind (writeable_event (le_fuel P) (le_ng P) (le_udp P) (start k) now c os) (\<lambda>(c', os').
                 Some (Inr (absorb (put_conn c' (lp_ep lp)) (replicate (write_waits c' - (write_waits c - 1)) (Retry k)) lp, os')))))"

fun run_waiters ::
  "('ng, 'os) loop_env \<Rightarrow> u64 \<Rightarrow> (bytes \<Rightarrow> nat) \<Rightarrow> waiter list \<Rightarrow> 'ng ep_loop \<Rightarrow> 'os \<Rightarrow> ('ng ep_loop \<times> 'os) result option" where
  "run_waiters P now start [] lp os = Some (Inr (lp, os))"
| "run_waiters P now start (w # ws) lp os =
     obind (run_waiter P now start w lp os) (\<lambda>(lp1, os1).
       run_waiters P now start (map (mark_waiter (lp_ep lp1)) ws) lp1 os1)"

text \<open>The handler of the write event moves the list of callbacks out of the socket and runs them.\<close>

definition write_event ::
  "('ng, 'os) loop_env \<Rightarrow> u64 \<Rightarrow> (bytes \<Rightarrow> nat) \<Rightarrow> 'ng ep_loop \<Rightarrow> 'os \<Rightarrow> ('ng ep_loop \<times> 'os) result option" where
  "write_event P now start lp os = run_waiters P now start (lp_waiters lp) (lp\<lparr>lp_waiters := [], lp_wev := False\<rparr>) os"

text \<open>The handler of a connection's retransmission timer, with what it asks of the endpoint.\<close>

definition timer_event ::
  "('ng, 'os) loop_env \<Rightarrow> u64 \<Rightarrow> nat \<Rightarrow> bytes \<Rightarrow> 'ng connection \<Rightarrow> 'ng ep_loop \<Rightarrow> 'os \<Rightarrow> ('ng ep_loop \<times> 'os) result option" where
  "timer_event P now start k c lp os =
     obind (retransmit_event (le_fuel P) (le_ng P) (le_udp P) start now c os) (\<lambda>(rv, c', os').
       case rv of
         Some code \<Rightarrow>
           obind (close_connection (le_ng P) (le_udp P) now code ''NO_ERROR'' c' (lp_ep lp) os') (\<lambda>(ep, os'').
             Some (Inr (absorb ep [] lp, os'')))
       | None \<Rightarrow> Some (Inr (absorb (put_conn c' (lp_ep lp)) (replicate (write_waits c' - write_waits c) (Retry k)) lp, os')))"

text \<open>
  The events of a connection outside the map that the application keeps: calls on its streams, its io trigger and its timer,
  whose handler may ask the endpoint to close it.
\<close>

definition close_kept ::
  "('ng, 'os) loop_env \<Rightarrow> u64 \<Rightarrow> ng_rv \<Rightarrow> bytes \<Rightarrow> 'ng connection \<Rightarrow> 'ng endpoint \<Rightarrow> 'os \<Rightarrow> ('ng endpoint \<times> 'os) result option" where
  "close_kept P now code k c ep os =
     (if closing c \<or> draining c then Some (Inr (put_kept k c ep, os))
      else if code = NG_IDLE_CLOSE
      then Some (and_then (delete_connection (cn_source_cid c) (put_kept k c ep)) (\<lambda>ep1. Inr (ep1, os)))
      else
        let (written, out, g) = ng_write_connection_close (le_ng P) code ''NO_ERROR'' max_payload_size now (cn_ng c);
            ep1 = put_kept k (c\<lparr>cn_ng := g\<rparr>) ep
        in if written \<le> 0
           then Some (and_then (delete_connection (cn_source_cid c) ep1) (\<lambda>ep2. Inr (ep2, os)))
           else if int max_payload_size < written then Some (Inl Assertion_failed)
           else ep_send_packet (le_udp P) (cn_path c) (fill_buffer out) (Some (cn_source_cid c)) ep1 os)"

definition kept_action ::
  "('ng, 'os) loop_env \<Rightarrow> bytes \<Rightarrow> app_action \<Rightarrow> 'ng ep_loop \<Rightarrow> 'os \<Rightarrow> ('ng ep_loop \<times> 'os) result option" where
  "kept_action P k a lp os =
     (case kept_conn P k (lp_ep lp) of
        None \<Rightarrow> Some (Inl Use_of_destroyed_object)
      | Some c \<Rightarrow> obind (Some (do_action (le_ng P) a c)) (\<lambda>c'. Some (Inr (absorb (put_kept k c' (lp_ep lp)) [] lp, os))))"

definition kept_io ::
  "('ng, 'os) loop_env \<Rightarrow> u64 \<Rightarrow> nat \<Rightarrow> bytes \<Rightarrow> 'ng ep_loop \<Rightarrow> 'os \<Rightarrow> ('ng ep_loop \<times> 'os) result option" where
  "kept_io P now start k lp os =
     (case kept_conn P k (lp_ep lp) of
        None \<Rightarrow> Some (Inr (lp, os))
      | Some c \<Rightarrow>
          if \<not> io_trigger c then Some (Inr (lp, os))
          else obind (io_event (le_fuel P) (le_ng P) (le_udp P) start now c os) (\<lambda>(c', os').
            Some (Inr (absorb (put_kept k c' (lp_ep lp)) (replicate (write_waits c' - write_waits c) (Gone k)) lp, os'))))"

definition kept_timer ::
  "('ng, 'os) loop_env \<Rightarrow> u64 \<Rightarrow> nat \<Rightarrow> bytes \<Rightarrow> 'ng ep_loop \<Rightarrow> 'os \<Rightarrow> ('ng ep_loop \<times> 'os) result option" where
  "kept_timer P now start k lp os =
     (case kept_conn P k (lp_ep lp) of
        None \<Rightarrow> Some (Inr (lp, os))
      | Some c \<Rightarrow>
          if retransmit_timer c = None then Some (Inr (lp, os))
          else obind (retransmit_event (le_fuel P) (le_ng P) (le_udp P) start now c os) (\<lambda>(rv, c', os').
            case rv of
              Some code \<Rightarrow> obind (close_kept P now code k c' (lp_ep lp) os') (\<lambda>(ep, os''). Some (Inr (absorb ep [] lp, os'')))
            | None \<Rightarrow>
                Some (Inr (absorb (put_kept k c' (lp_ep lp)) (replicate (write_waits c' - write_waits c) (Gone k)) lp, os'))))"

text \<open>
  One turn of the loop at time \<open>now\<close>.  \<open>start\<close> gives the stream a flush of a connection starts from, \<open>rnd\<close> the
  random ids.  The io trigger and the timer belong to their connection and fire only while they are pending.
\<close>

fun loop_turn ::
  "('ng, 'os) loop_env \<Rightarrow> u64 \<Rightarrow> (bytes \<Rightarrow> nat) \<Rightarrow> bytes list \<Rightarrow> loop_event \<Rightarrow> 'ng ep_loop \<Rightarrow> 'os \<Rightarrow>
   ('ng ep_loop \<times> 'os) result option" where
  "loop_turn P now start rnd (Ev_packet junk pkt) lp os =
     obind (handle_packet_app (le_pk P) (le_ng P) (le_app P) (le_other P) (le_udp P) now junk pkt rnd (lp_ep lp) os)
       (\<lambda>(ep, rnd', os'). Some (Inr (absorb ep [] lp, os')))"
| "loop_turn P now start rnd Ev_timeouts lp os =
     obind (Some (check_timeouts now (lp_ep lp))) (\<lambda>ep. Some (Inr (absorb ep [] lp, os)))"
| "loop_turn P now start rnd (Ev_listen mk_ctx) lp os = Some (Inr (absorb (snd (listen mk_ctx (lp_ep lp))) [] lp, os))"
| "loop_turn P now start rnd (Ev_connect p mk_ctx dcid) lp os =
     (case connect (le_pk P) p mk_ctx dcid rnd (lp_ep lp) of
        None \<Rightarrow> None
      | Some (r, ep, rnd') \<Rightarrow> Some (Inr (absorb ep [] lp, os)))"
| "loop_turn P now start rnd (Ev_close_conns d) lp os =
     obind (close_conns (le_ng P) (le_udp P) now d (lp_ep lp) os) (\<lambda>(ep, os'). Some (Inr (absorb ep [] lp, os')))"
| "loop_turn P now start rnd (Ev_action k a) lp os =
     (case find_conn k (lp_ep lp) of
        None \<Rightarrow> kept_action P k a lp os
      | Some c \<Rightarrow> obind (Some (do_action (le_ng P) a c)) (\<lambda>c'. Some (Inr (absorb (put_conn c' (lp_ep lp)) [] lp, os))))"
| "loop_turn P now start rnd (Ev_io k) lp os =
     (case find_conn k (lp_ep lp) of
        None \<Rightarrow> kept_io P now (start k) k lp os
      | Some c \<Rightarrow>
          if \<not> io_trigger c then Some (Inr (lp, os))
          else obind (io_event (le_fuel P) (le_ng P) (le_udp P) (start k) now c os) (\<lambda>(c', os').
            Some (Inr (absorb (put_conn c' (lp_ep lp)) (replicate (write_waits c' - write_waits c) (Retry k)) lp, os'))))"
| "loop_turn P now start rnd (Ev_timer k) lp os =
     (case find_conn k (lp_ep lp) of
        None \<Rightarrow> kept_timer P now (start k) k lp os
      | Some c \<Rightarrow> if retransmit_timer c = None then Some (Inr (lp, os)) else timer_event P now (start k) k c lp os)"
| "loop_turn P now start rnd Ev_write lp os = (if lp_wev lp then write_event P now start lp os else Some (Inr (lp, os)))"

definition loop_init :: "'ng ep_loop" where
  "loop_init = \<lparr>lp_ep = ep_init, lp_waiters = [], lp_wev = False\<rparr>"

section \<open>What an operation of the endpoint keeps of the connections\<close>

text \<open>
  What is assumed of ngtcp2 besides \<open>ids_ok\<close>: reading a packet and writing a close packet forget no stream id, and
  a stream that is reported as open is known by then.
\<close>

definition known :: "int set \<Rightarrow> ng_event \<Rightarrow> bool" where
  "known ids e \<longleftrightarrow> (case e of Stream_open sid \<Rightarrow> sid \<in> ids | _ \<Rightarrow> True)"

definition read_ok :: "'ng ngtcp2 \<Rightarrow> ('ng \<Rightarrow> int set) \<Rightarrow> bool" where
  "read_ok ng live \<longleftrightarrow>
     (\<forall>pkt ts g es rv g'. ng_read_pkt ng pkt ts g = (es, rv, g') \<longrightarrow>
        live g \<subseteq> live g' \<and> list_all (known (live g')) es) \<and>
     (\<forall>code msg n ts g. live g \<subseteq> live (snd (snd (ng_write_connection_close ng code msg n ts g))))"

definition loop_ok :: "('ng, 'os) loop_env \<Rightarrow> ('ng \<Rightarrow> int set) \<Rightarrow> bool" where
  "loop_ok P live \<longleftrightarrow> env_ok (le_udp P) \<and> writev_ok (le_ng P) \<and> ids_ok (le_ng P) live \<and> read_ok (le_ng P) live \<and>
     length (pk_junk (le_pk P)) = NGTCP2_MAX_PMTUD_UDP_PAYLOAD_SIZE * DATAGRAM_BATCH_SIZE \<and>
     length (pk_junk_sizes (le_pk P)) = DATAGRAM_BATCH_SIZE"

definition conns_kept :: "('ng \<Rightarrow> int set) \<Rightarrow> 'ng endpoint \<Rightarrow> 'ng endpoint \<Rightarrow> bool" where
  "conns_kept live ep ep' \<longleftrightarrow>
     (\<forall>k c'. find_conn k ep' = Some c' \<longrightarrow> (\<exists>c. find_conn k ep = Some c \<and> keeps_inv live c c'))"

lemma keeps_inv_refl [simp]: "keeps_inv live c c"
  by (simp add: keeps_inv_def)

lemma kept_refl [simp]: "conns_kept live ep ep"
  by (auto simp: conns_kept_def)

lemma kept_trans: "conns_kept live a b \<Longrightarrow> conns_kept live b c \<Longrightarrow> conns_kept live a c"
  unfolding conns_kept_def by (meson keeps_inv_trans)

lemma find_conn_iff: "find_conn k ep = Some c \<longleftrightarrow> map_of (conns ep) k = Some (Some c)"
  by (auto simp: find_conn_def split: option.splits)

lemma find_conn_key: "ep_inv ep \<Longrightarrow> find_conn k ep = Some c \<Longrightarrow> cid_key (cn_source_cid c) = k"
  using ep_invD [of ep k "Some c"] by (simp add: find_conn_iff conn_at_def)

lemma find_conn_cong: "conns ep' = conns ep \<Longrightarrow> find_conn k ep' = find_conn k ep"
  by (simp add: find_conn_def)

lemma kept_same: "conns ep' = conns ep \<Longrightarrow> conns_kept live ep ep'"
  by (simp add: conns_kept_def find_conn_def)

lemma find_put_conn:
  "umap_wf (conns ep) \<Longrightarrow> find_conn k (put_conn c ep) = (if k = cid_key (cn_source_cid c) then Some c else find_conn k ep)"
  by (simp add: find_conn_def put_conn_def um.find_put)

lemma find_delete_conn:
  "delete_connection cid ep = Inr ep' \<Longrightarrow> find_conn k ep' = (if k = cid_key cid then None else find_conn k ep)"
  by (auto simp: delete_connection_def find_conn_def um.find_erase split: option.splits)

lemma kept_put:
  assumes "umap_wf (conns ep)" and "find_conn (cid_key (cn_source_cid c)) ep = Some c0" and "keeps_inv live c0 c"
  shows "conns_kept live ep (put_conn c ep)"
  using assms by (auto simp: conns_kept_def find_put_conn)

lemma kept_delete: "delete_connection cid ep = Inr ep' \<Longrightarrow> conns_kept live ep ep'"
  by (auto simp: conns_kept_def find_delete_conn)

text \<open>Entries are only removed.\<close>

lemma kept_erase: "conns ep' = conns ep \<or> (\<exists>k. conns ep' = assoc_erase k (conns ep)) \<Longrightarrow> conns_kept live ep ep'"
  by (auto simp: conns_kept_def find_conn_def um.find_erase split: if_splits)

lemma kept_timeouts:
  assumes "check_timeouts now ep = Inr ep'"
  shows "conns_kept live ep ep'"
  using assms
  by (intro kept_erase) (auto simp: check_timeouts_def Let_def split: list.splits if_splits option.splits, blast+)

lemma delete_conns: "delete_connection cid ep = Inr ep' \<Longrightarrow> conns ep' = conns ep \<or> conns ep' = assoc_erase (cid_key cid) (conns ep)"
  by (auto simp: delete_connection_def split: option.splits)

lemma kept_send:
  assumes "ep_send_packet env p buf cb ep os = Some (Inr (ep', os'))"
  shows "conns_kept live ep ep'"
  using assms
  by (intro kept_erase)
    (auto simp: ep_send_packet_def Let_def elim!: obind_InrE and_then_InrE dest!: delete_conns
      split: list.splits option.splits if_splits, blast+)

lemma keeps_ng: "live (cn_ng c) \<subseteq> live g \<Longrightarrow> keeps_inv live c (c\<lparr>cn_ng := g\<rparr>)"
  by (intro keeps_imp_inv keeps_ext) simp_all

lemma kept_put_delete:
  assumes "umap_wf (conns ep)" and "find_conn (cid_key (cn_source_cid c)) ep = Some c0" and "keeps_inv live c0 c"
    and "delete_connection cid (put_conn c ep) = Inr ep'"
  shows "conns_kept live ep ep'"
  using kept_trans [OF kept_put [OF assms(1-3)] kept_delete [OF assms(4)]] .

lemma kept_close:
  assumes read: "read_ok ng live" and wf: "umap_wf (conns ep)" and at: "find_conn (cid_key (cn_source_cid c)) ep = Some c0"
    and c: "keeps_inv live c0 c" and r: "close_connection ng env now code msg c ep os = Some (Inr (ep', os'))"
  shows "conns_kept live ep ep'"
proof -
  obtain written out g where w: "ng_write_connection_close ng code msg max_payload_size now (cn_ng c) = (written, out, g)"
    by (metis prod_cases3)
  have "live (cn_ng c) \<subseteq> live (snd (snd (ng_write_connection_close ng code msg max_payload_size now (cn_ng c))))"
    using read by (simp add: read_ok_def)
  with w have "keeps_inv live c (c\<lparr>cn_ng := g\<rparr>)" by (intro keeps_ng) simp
  with c have c1: "keeps_inv live c0 (c\<lparr>cn_ng := g\<rparr>)" by (rule keeps_inv_trans)
  let ?ep1 = "put_conn (c\<lparr>cn_ng := g\<rparr>) ep"
  have 1: "conns_kept live ep ?ep1" by (rule kept_put [OF wf _ c1]) (simp add: at)
  from r w consider "ep' = put_conn c ep" | "delete_connection (cn_source_cid c) (put_conn c ep) = Inr ep'"
    | "delete_connection (cn_source_cid c) ?ep1 = Inr ep'"
    | "ep_send_packet env (cn_path c) (fill_buffer out) (Some (cn_source_cid c)) ?ep1 os = Some (Inr (ep', os'))"
    by (auto simp: close_connection_def Let_def split: if_splits elim!: and_then_InrE)
  then show ?thesis
  proof cases
    case 1
    with kept_put [OF wf at c] show ?thesis by simp
  next
    case 2
    with kept_put_delete [OF wf at c] show ?thesis by simp
  next
    case 3
    with 1 show ?thesis by (blast intro: kept_trans kept_delete)
  next
    case 4
    with 1 show ?thesis by (blast intro: kept_trans kept_send)
  qed
qed

lemma keeps_closing: "keeps_inv live c ((call_closing c)\<lparr>draining := True\<rparr>)"
  by (intro keeps_imp_inv keeps_ext) (simp_all add: call_closing_def split: option.splits)

lemma kept_drain:
  assumes "umap_wf (conns ep)" and "find_conn (cid_key (cn_source_cid c)) ep = Some c0" and "keeps_inv live c0 c"
  shows "conns_kept live ep (drain_connection ng now c ep)"
proof -
  let ?c1 = "(call_closing c)\<lparr>draining := True\<rparr>"
  have id: "cn_source_cid ?c1 = cn_source_cid c" by (simp add: call_closing_def split: option.splits)
  have "conns_kept live ep (put_conn ?c1 ep)"
    by (rule kept_put [OF assms(1) _ keeps_inv_trans [OF assms(3) keeps_closing]]) (simp only: id assms(2))
  moreover have "conns_kept live (put_conn ?c1 ep) (drain_connection ng now c ep)" if "\<not> draining c"
    using that by (intro kept_same) (simp add: drain_connection_def Let_def put_conn_def)
  ultimately show ?thesis
    using kept_put [OF assms] by (cases "draining c") (auto simp: drain_connection_def intro: kept_trans)
qed

section \<open>Callbacks forget no stream id\<close>

lemma keeps_live: "keeps live c c' \<Longrightarrow> live (cn_ng c) \<subseteq> live (cn_ng c')"
  by (simp add: keeps_def)

lemma pending_loop_live: "ids_ok ng live \<Longrightarrow> live (cn_ng c) \<subseteq> live (cn_ng (check_pending_loop ng avail popped ps c))"
proof (induction ng avail popped ps c rule: check_pending_loop.induct)
  case (2 ng avail popped r ps c)
  obtain o' g where o: "ng_open_bidi_stream ng (cn_ng c) = (o', g)" by fastforce
  have "live (cn_ng c) \<subseteq> live g"
    using ids_ok_open [OF "2.prems"] o by (cases o') auto
  with 2 o show ?case by (fastforce simp: put_stream_def split: option.splits)
qed simp

lemma erase_stream_live: "ids_ok ng live \<Longrightarrow> live (cn_ng c) \<subseteq> live (cn_ng (erase_stream ng sid c))"
  by (auto simp: erase_stream_def io_ready_def intro: ids_ok_mono(4) [THEN subsetD])

lemma stream_closed_live:
  assumes ids: "ids_ok ng live" and r: "stream_closed ng ap sid code c = Inr c'"
  shows "live (cn_ng c) \<subseteq> live (cn_ng c')"
proof (cases "map_of (streams c) sid")
  case None
  with r show ?thesis by (auto simp: stream_closed_def split: if_splits)
next
  case (Some i)
  obtain s new where m: "stream_mark_closed code (heap c ! i) = (s, new)" by fastforce
  from r Some m obtain c1 where
    c1: "c1 = put_stream i s c \<or> (\<exists>cb. call_close_callback ng ap cb (stream_id s) code (put_stream i s c) = Inr c1)"
    and c': "c' = erase_stream ng sid c1"
    by (auto simp: stream_closed_def split: if_splits list.splits close_call.splits elim!: and_then_InrE)
  have "live (cn_ng (put_stream i s c)) \<subseteq> live (cn_ng c1)"
    using c1 keeps_live [OF keeps_call_close [OF ids]] by (auto del: subsetI)
  with erase_stream_live [OF ids, of c1 sid] c' show ?thesis by (auto simp: put_stream_def)
qed

lemma stream_opened_live:
  assumes ids: "ids_ok ng live" and r: "stream_opened ng ap sid c = Inr (rv, c')"
  shows "live (cn_ng c) \<subseteq> live (cn_ng c')"
proof -
  let ?c0 = "c\<lparr>heap := heap c @ [set_ready (stream_new (ctx_stream_data_cb (cn_ctx c)) (ctx_stream_close_cb (cn_ctx c)) sid)]\<rparr>"
  from r obtain code c1 where c1: "call_open_callback ng ap sid ?c0 = Inr (code, c1)"
    and c': "enter_stream ng (length (heap c)) sid code c1 = Inr (rv, c')"
    by (auto simp: stream_opened_def elim!: and_then_InrE)
  have "live (cn_ng c) \<subseteq> live (cn_ng c1)" using keeps_live [OF keeps_call_open [OF ids c1]] by simp
  moreover have "live (cn_ng c1) \<subseteq> live (cn_ng c')"
    using c' stream_close_id [of code "heap c1 ! length (heap c)"] keeps_live [OF keeps_put_effects [OF ids]]
    by (auto simp: enter_stream_def split: if_splits prod.splits bool.splits del: subsetI)
  ultimately show ?thesis by blast
qed

lemma callback_live:
  assumes ids: "ids_ok ng live" and r: "ng_callback ng ap e c = Inr (rv, c')"
  shows "live (cn_ng c) \<subseteq> live (cn_ng c')"
proof (cases e)
  case (Extend_max_local_streams_bidi n)
  with r pending_loop_live [OF ids] show ?thesis
    by (auto simp: extend_max_local_streams_bidi_def check_pending_streams_def Let_def del: subsetI)
qed (use r keeps_live [OF keeps_stream_receive [OF ids]] keeps_live [OF keeps_stream_ack [OF ids]] stream_opened_live [OF ids]
      stream_closed_live [OF ids] in \<open>auto elim!: and_then_InrE del: subsetI\<close>)

lemma known_mono: "list_all (known A) es \<Longrightarrow> A \<subseteq> B \<Longrightarrow> list_all (known B) es"
  by (induction es) (auto simp: known_def split: ng_event.splits)

lemma keeps_callbacks:
  assumes ids: "ids_ok ng live"
  shows "ng_callbacks ng ap es c = Inr (rv, c') \<Longrightarrow>
    list_all (known (live (cn_ng c))) es \<Longrightarrow> keeps_inv live c c'"
proof (induction es arbitrary: c)
  case (Cons e es)
  from Cons.prems(1) obtain rv1 c1 where e: "ng_callback ng ap e c = Inr (rv1, c1)"
    and rest: "rv1 = NG_OK \<and> ng_callbacks ng ap es c1 = Inr (rv, c') \<or> c' = c1"
    by (auto elim!: and_then_InrE split: if_splits)
  have k: "keeps_inv live c c1" using Cons.prems(2) by (intro keeps_callback [OF ids _ e]) (simp add: event_ok_def known_def)
  have "list_all (known (live (cn_ng c1))) es"
    using Cons.prems(2) known_mono [OF _ callback_live [OF ids e]] by simp
  with rest Cons.IH k show ?case by (auto intro: keeps_inv_trans)
qed simp

lemma keeps_read_pkt:
  assumes ids: "ids_ok ng live" and read: "read_ok ng live" and r: "conn_read_pkt ng ap pkt ts c = Inr (rv, c')"
  shows "keeps_inv live c c'"
proof -
  obtain es rv1 g where rp: "ng_read_pkt ng pkt ts (cn_ng c) = (es, rv1, g)" by (metis prod_cases3)
  with r obtain cb where cb: "ng_callbacks ng ap es (c\<lparr>cn_ng := g\<rparr>) = Inr (cb, c')"
    by (auto simp: conn_read_pkt_def elim!: and_then_InrE)
  from read rp have live: "live (cn_ng c) \<subseteq> live g"
    and "list_all (known (live g)) es"
    unfolding read_ok_def by blast+
  then have "keeps_inv live (c\<lparr>cn_ng := g\<rparr>) c'" by (intro keeps_callbacks [OF ids cb]) simp
  with keeps_ng [OF live] show ?thesis by (rule keeps_inv_trans)
qed

section \<open>Packets and connections\<close>

lemma kept_read:
  assumes ids: "ids_ok ng live" and read: "read_ok ng live" and inv: "ep_inv ep" and at: "find_conn k ep = Some c"
    and r: "read_packet ng ap env now pkt c ep os = Some (Inr (res, ep', os'))"
  shows "conns_kept live ep ep'"
proof -
  note wf = ep_inv_wf [OF inv]
  from r obtain rv c1 where rd: "conn_read_pkt ng ap pkt now c = Inr (rv, c1)"
    by (auto simp: read_packet_def elim!: obind_InrE)
  note k = find_conn_key [OF inv at]
  have at1: "find_conn (cid_key (cn_source_cid c1)) ep = Some c"
    using same_id_read [OF rd] at k by (simp add: same_id_def)
  note c1 = keeps_read_pkt [OF ids read rd]
  have "keeps_inv live c1 (io_ready c1)" by (intro keeps_imp_inv keeps_ext) (simp_all add: io_ready_def)
  from keeps_inv_trans [OF c1 this] have io: "conns_kept live ep (put_conn (io_ready c1) ep)"
    by (intro kept_put [OF wf]) (simp_all add: io_ready_def at1)
  from r rd io kept_drain [OF wf at1 c1] kept_put_delete [OF wf at1 c1] kept_close [OF read wf at1 c1]
  show ?thesis by (cases rv) (auto simp: read_packet_def elim!: obind_InrE and_then_InrE)
qed

lemma kept_handle:
  assumes ids: "ids_ok ng live" and read: "read_ok ng live" and inv: "ep_inv ep" and at: "find_conn k ep = Some c"
    and r: "handle_conn_packet ng ap env now pkt c ep os = Some (Inr (ep', os'))"
  shows "conns_kept live ep ep'"
proof (cases "ng_in_closing_period ng (cn_ng c)")
  case True
  with r kept_delete show ?thesis by (auto simp: handle_conn_packet_def elim!: and_then_InrE)
next
  case False
  with r obtain res where "read_packet ng ap env now pkt c ep os = Some (Inr (res, ep', os'))"
    by (auto simp: handle_conn_packet_def elim!: obind_InrE)
  then show ?thesis by (rule kept_read [OF ids read inv at])
qed

text \<open>A new connection under a key that had none, beside the connections that are kept.\<close>

definition fresh_conn :: "'os udp_env \<Rightarrow> ('ng \<Rightarrow> int set) \<Rightarrow> 'ng connection \<Rightarrow> bool" where
  "fresh_conn env live c \<longleftrightarrow> conn_inv env live c \<and> write_waits c = 0"

definition conns_grown :: "'os udp_env \<Rightarrow> ('ng \<Rightarrow> int set) \<Rightarrow> 'ng endpoint \<Rightarrow> 'ng endpoint \<Rightarrow> bool" where
  "conns_grown env live ep ep' \<longleftrightarrow>
     (\<forall>k c'. find_conn k ep' = Some c' \<longrightarrow>
        (\<exists>c. find_conn k ep = Some c \<and> keeps_inv live c c') \<or> (find_conn k ep = None \<and> fresh_conn env live c'))"

lemma kept_grown: "conns_kept live ep ep' \<Longrightarrow> conns_grown env live ep ep'"
  unfolding conns_kept_def conns_grown_def by blast

lemma fresh_kept: "fresh_conn env live c \<Longrightarrow> keeps_inv live c c' \<Longrightarrow> fresh_conn env live c'"
  using keeps_conn_inv [of live c c' env] by (simp add: fresh_conn_def keeps_inv_def)

lemma grown_kept: "conns_grown env live a b \<Longrightarrow> conns_kept live b c \<Longrightarrow> conns_grown env live a c"
  unfolding conns_grown_def conns_kept_def by (meson fresh_kept keeps_inv_trans)

lemma kept_grown_trans: "conns ep1 = conns ep \<Longrightarrow> conns_grown env live ep1 ep' \<Longrightarrow> conns_grown env live ep ep'"
  by (simp add: conns_grown_def find_conn_def)

lemma make_conn_fresh_inv:
  assumes "pk_make_conn pk scid dcid p ctx dir hdr = Inr c"
    and "length (pk_junk pk) = NGTCP2_MAX_PMTUD_UDP_PAYLOAD_SIZE * DATAGRAM_BATCH_SIZE"
    and "length (pk_junk_sizes pk) = DATAGRAM_BATCH_SIZE"
  shows "fresh_conn env live c"
  using make_conn_inv [OF assms(1) [unfolded pk_make_conn_def] assms(2,3)] make_conn_fresh [OF assms(1) [unfolded pk_make_conn_def]]
  by (auto simp: fresh_conn_def io_ready_def conn_fresh_def)

lemma grown_put:
  assumes "umap_wf (conns ep)" and "map_of (conns ep) k = None" and "case x of None \<Rightarrow> True | Some c \<Rightarrow> fresh_conn env live c"
  shows "conns_grown env live ep (ep\<lparr>conns := umap_put k x (conns ep)\<rparr>)"
  using assms by (auto simp: conns_grown_def find_conn_def um.find_put split: option.splits if_splits)

lemma grown_accept:
  assumes P: "loop_ok P live" and wf: "umap_wf (conns ep)"
    and r: "accept_initial_connection (le_pk P) rnd pkt ep = Some (Inr (x, ep', rnd'))"
  shows "conns_grown env live ep ep' \<and> (case x of None \<Rightarrow> True | Some c \<Rightarrow> find_conn (cid_key (cn_source_cid c)) ep' = Some c)"
proof -
  obtain ok h where a: "pk_accept (le_pk P) (pkt_data pkt) = (ok, h)" by fastforce
  show ?thesis
  proof (cases "\<not> ok \<or> hd_is_0rtt h \<or> hd_is_initial h \<and> hd_token h \<noteq> []")
    case True
    with r a show ?thesis by (auto simp: accept_initial_connection_def kept_grown split: if_splits)
  next
    case False
    with r a obtain cid ctx c where f: "fresh_cid rnd ep = Some (cid, rnd')"
      and c: "pk_make_conn (le_pk P) cid (hd_scid h) (pkt_path pkt) ctx INBOUND (Some h) = Inr c"
      and x: "x = Some c" and ep': "ep' = ep\<lparr>conns := umap_put (cid_key cid) (Some c) (conns ep)\<rparr>"
      by (auto simp: accept_initial_connection_def split: option.splits elim!: and_then_InrE)
    have "fresh_conn env live c" using P by (intro make_conn_fresh_inv [OF c]) (simp_all add: loop_ok_def)
    with grown_put [OF wf, where k = "cid_key cid" and x = "Some c"] fresh_cid_new [OF f] ep' have "conns_grown env live ep ep'" by simp
    moreover have "find_conn (cid_key (cn_source_cid c)) ep' = Some c"
      by (simp add: ep' make_conn_source [OF c] find_conn_def um.find_put [OF wf])
    ultimately show ?thesis using x by simp
  qed
qed

lemma grown_new:
  assumes P: "loop_ok P live" and inv: "ep_inv ep" and rnd: "rnd_ok rnd"
    and ac: "accept_initial_connection (le_pk P) rnd pkt ep = Some (Inr (x, ep2, rnd2))"
    and rest: "x = None \<and> ep' = ep2 \<or>
      (\<exists>c os3. x = Some c \<and> handle_conn_packet (le_ng P) ap env now pkt c ep2 os1 = Some (Inr (ep', os3)))"
  shows "conns_grown env live ep ep'"
proof -
  from P have ids: "ids_ok (le_ng P) live" and read: "read_ok (le_ng P) live" by (simp_all add: loop_ok_def)
  note g = grown_accept [OF P ep_inv_wf [OF inv] ac, of env]
  have inv2: "ep_inv ep2"
    using accept_only_new [OF ep_inv_wf [OF inv] ac] rnd inv
    by (auto simp: rnd_ok_def list_all_iff cid_random_key intro: only_at_inv)
  from rest show ?thesis
  proof (elim disjE exE conjE)
    assume "ep' = ep2"
    with g show ?thesis by simp
  next
    fix c os3 assume "x = Some c" and h: "handle_conn_packet (le_ng P) ap env now pkt c ep2 os1 = Some (Inr (ep', os3))"
    with g have "find_conn (cid_key (cn_source_cid c)) ep2 = Some c" by simp
    from g grown_kept [OF _ kept_handle [OF ids read inv2 this h]] show ?thesis by blast
  qed
qed

lemma grown_packet:
  assumes P: "loop_ok P live" and inv: "ep_inv ep" and rnd: "rnd_ok rnd"
    and r: "handle_packet (le_pk P) (le_ng P) ap env now junk pkt rnd ep os = Some (Inr (ep', rnd', os'))"
  shows "conns_grown env live ep ep'"
proof -
  from P have ids: "ids_ok (le_ng P) live" and read: "read_ok (le_ng P) live" by (simp_all add: loop_ok_def)
  from r obtain d ep1 os1 where cd: "handle_packet_connid (le_pk P) env junk pkt ep os = Some (Inr (d, ep1, os1))"
    by (auto simp: handle_packet_def elim!: obind_InrE)
  have same: "conns ep1 = conns ep" using connid_conns [OF cd] by simp
  have inv1: "ep_inv ep1" using inv connid_conns [OF cd] by (simp add: ep_inv_def)
  have "conns_grown env live ep1 ep'"
  proof (cases d)
    case None
    with r cd show ?thesis by (auto simp: handle_packet_def kept_grown)
  next
    case (Some cid)
    show ?thesis
    proof (cases "get_conn cid ep1")
      case c: (Some c)
      then have at: "find_conn (cid_key cid) ep1 = Some c" by (simp add: get_conn_def find_conn_def)
      from r cd Some c obtain os2 where "handle_conn_packet (le_ng P) ap env now pkt c ep1 os1 = Some (Inr (ep', os2))"
        by (auto simp: handle_packet_def elim!: obind_InrE)
      then show ?thesis by (intro kept_grown kept_handle [OF ids read inv1 at])
    next
      case None
      show ?thesis
      proof (cases "accepting_inbound ep1")
        case False
        with None r cd Some show ?thesis by (auto simp: handle_packet_def kept_grown)
      next
        case True
        with r cd Some None obtain x ep2 rnd2 where
          ac: "accept_initial_connection (le_pk P) rnd pkt ep1 = Some (Inr (x, ep2, rnd2))"
          and rest: "x = None \<and> ep' = ep2 \<or>
            (\<exists>c os3. x = Some c \<and> handle_conn_packet (le_ng P) ap env now pkt c ep2 os1 = Some (Inr (ep', os3)))"
          by (auto simp: handle_packet_def elim!: obind_InrE split: option.splits)
        from grown_new [OF P inv1 rnd ac rest] show ?thesis .
      qed
    qed
  qed
  with same show ?thesis by (rule kept_grown_trans)
qed

lemma grown_connect:
  assumes P: "loop_ok P live" and inv: "ep_inv ep" and r: "connect (le_pk P) p mk_ctx dcid rnd ep = Some (res, ep', rnd')"
  shows "conns_grown env live ep ep'"
proof (cases mk_ctx)
  case (Inl f)
  with r show ?thesis by (simp add: connect_def kept_grown)
next
  case (Inr ctx)
  let ?ep1 = "ep\<lparr>outbound_ctx := Some ctx\<rparr>"
  from Inr r obtain cid x where f: "fresh_cid rnd ?ep1 = Some (cid, rnd')"
    and ep': "ep' = ?ep1\<lparr>conns := umap_put (cid_key cid) x (conns ?ep1)\<rparr>"
    and x: "\<forall>c. x = Some c \<longrightarrow> pk_make_conn (le_pk P) cid dcid p ctx OUTBOUND None = Inr c"
    by (auto simp: connect_def Let_def split: option.splits sum.splits)
  have "case x of None \<Rightarrow> True | Some c \<Rightarrow> fresh_conn env live c"
    using x P make_conn_fresh_inv by (auto simp: loop_ok_def split: option.splits)
  with grown_put [where ep = ?ep1 and k = "cid_key cid" and x = x and env = env and live = live] fresh_cid_new [OF f] ep' ep_inv_wf [OF inv]
  have "conns_grown env live ?ep1 ep'" by simp
  then show ?thesis by (rule kept_grown_trans [rotated]) simp
qed

lemma kept_close_loop:
  assumes read: "read_ok ng live"
  shows "ep_inv ep \<Longrightarrow> close_conns_loop ng env now d ks ep os = Some (Inr (ep', os')) \<Longrightarrow> conns_kept live ep ep'"
proof (induction ks arbitrary: ep os)
  case (Cons k ks)
  from Cons.prems(2) obtain c where at: "map_of (conns ep) k = Some (Some c)"
    by (auto split: option.splits)
  show ?case
  proof (cases "d \<noteq> None \<and> d \<noteq> Some (cn_dir c)")
    case True
    with Cons at show ?thesis by simp
  next
    case False
    with Cons.prems(2) at obtain ep1 os1 where c: "close_connection ng env now NG_OK ''NO_ERROR'' c ep os = Some (Inr (ep1, os1))"
      and r: "close_conns_loop ng env now d ks ep1 os1 = Some (Inr (ep', os'))"
      by (auto simp: if_splits elim!: obind_InrE split: if_splits)
    have f: "find_conn k ep = Some c" using at by (simp add: find_conn_iff)
    with find_conn_key [OF Cons.prems(1) f] have f': "find_conn (cid_key (cn_source_cid c)) ep = Some c" by simp
    from kept_close [OF read ep_inv_wf [OF Cons.prems(1)] f' keeps_inv_refl c]
      Cons.IH [OF ep_inv_close [OF Cons.prems(1) at c] r] show ?thesis by (rule kept_trans)
  qed
qed simp

text \<open>Calls on other connections, and the events of connections outside the map.\<close>

lemma kept_elsewhere:
  assumes ids: "ids_ok ng live"
  shows "do_elsewhere ng as ep = Inr ep' \<Longrightarrow> ep_inv ep \<Longrightarrow> conns_kept live ep ep'"
  using assms
proof (induction ng as ep rule: do_elsewhere.induct)
  case (2 ng k a as ep)
  show ?case
  proof (cases "\<exists>c. map_of (conns ep) k = Some (Some c)")
    case True
    then obtain c where at: "map_of (conns ep) k = Some (Some c)" ..
    with "2.prems"(1) obtain c' where act: "do_action ng a c = Inr c'"
      and rest: "do_elsewhere ng as (put_conn c' ep) = Inr ep'" by (auto elim!: and_then_InrE)
    have f: "find_conn k ep = Some c" using at by (simp add: find_conn_iff)
    have k: "cid_key (cn_source_cid c') = k"
      using find_conn_key [OF "2.prems"(2) f] same_id_action [OF act] by (simp add: same_id_def)
    have "conns_kept live ep (put_conn c' ep)"
      using kept_put [OF ep_inv_wf [OF "2.prems"(2)] _ keeps_imp_inv [OF keeps_action [OF "2.prems"(3) act]]] k f by simp
    with "2.IH"(3) [OF at refl rest act_on_conn(1) [OF "2.prems"(2) at act] "2.prems"(3)] show ?thesis by (blast intro: kept_trans)
  next
    case False
    with "2.prems" "2.IH"(1,2) show ?thesis by (auto split: option.splits)
  qed
qed simp

lemma grown_packet_app:
  assumes P: "loop_ok P live" and inv: "ep_inv ep" and rnd: "rnd_ok rnd"
    and r: "handle_packet_app (le_pk P) (le_ng P) ap other env now junk pkt rnd ep os = Some (Inr (ep', rnd', os'))"
  shows "conns_grown env live ep ep' \<and> ep_inv ep'"
proof -
  from handle_packet_app_effect [OF inv rnd r] obtain ep1 where
    h: "handle_packet (le_pk P) (le_ng P) ap env now junk pkt rnd ep os = Some (Inr (ep1, rnd', os'))"
    and d: "do_elsewhere (le_ng P) (other pkt ep ep1) ep1 = Inr ep'" and inv1: "ep_inv ep1" .
  from P have "ids_ok (le_ng P) live" by (simp add: loop_ok_def)
  from grown_kept [OF grown_packet [OF P inv rnd h] kept_elsewhere [OF this d inv1]] do_elsewhere_effect [OF d inv1]
  show ?thesis by simp
qed

lemma put_kept_conns [simp]:
  "conns (put_kept k c ep) = conns ep" "find_conn k' (put_kept k c ep) = find_conn k' ep" "ep_inv (put_kept k c ep) = ep_inv ep"
  "waiting (put_kept k c ep) = waiting ep"
  by (simp_all add: put_kept_def find_conn_def ep_inv_def)

lemma close_kept_effect:
  assumes r: "close_kept P now code k c ep os = Some (Inr (ep', os'))" and inv: "ep_inv ep"
  shows "conns_kept live ep ep' \<and> ep_inv ep'"
proof -
  obtain written out g where "ng_write_connection_close (le_ng P) code ''NO_ERROR'' max_payload_size now (cn_ng c) = (written, out, g)"
    by (metis prod_cases3)
  with r consider c1 where "ep' = put_kept k c1 ep" | c1 where "delete_connection (cn_source_cid c) (put_kept k c1 ep) = Inr ep'"
    | c1 where "ep_send_packet (le_udp P) (cn_path c) (fill_buffer out) (Some (cn_source_cid c)) (put_kept k c1 ep) os = Some (Inr (ep', os'))"
    by (auto simp: close_kept_def Let_def split: if_splits elim!: and_then_InrE)
  then show ?thesis
  proof cases
    case 1
    with inv show ?thesis by (simp add: kept_same)
  next
    case (2 c1)
    with inv ep_inv_delete [OF _ 2] kept_trans [OF kept_same kept_delete [OF 2]] show ?thesis by simp
  next
    case (3 c1)
    with inv ep_inv_send [OF _ 3] kept_trans [OF kept_same kept_send [OF 3]] show ?thesis by simp
  qed
qed

end
