(* ===== verification/Quic_Loop.thy ===== *)
theory Quic_Loop
  imports Quic_Events
begin

text \<open>
  The event loop of an endpoint in every reachable state: the callbacks that wait for the socket are exactly
  the retries of the blocked connections and the queued one-shot packets, and what happens to a retry whose
  connection is deleted.
\<close>

section \<open>The invariant\<close>

text \<open>
  The callbacks that wait, \<open>ws\<close>: a retry belongs to a connection that exists, and each connection has as many
  retries among them as it registered.
\<close>

definition retries_ok :: "'os udp_env \<Rightarrow> ('ng \<Rightarrow> int set) \<Rightarrow> waiter list \<Rightarrow> 'ng endpoint \<Rightarrow> bool" where
  "retries_ok env live ws ep \<longleftrightarrow>
     (\<forall>k. count_list ws (Retry k) = (case find_conn k ep of None \<Rightarrow> 0 | Some c \<Rightarrow> write_waits c)) \<and>
     (\<forall>k c. find_conn k ep = Some c \<longrightarrow> conn_inv env live c)"

definition loop_inv :: "('ng, 'os) loop_env \<Rightarrow> ('ng \<Rightarrow> int set) \<Rightarrow> waiter list \<Rightarrow> 'ng ep_loop \<Rightarrow> bool" where
  "loop_inv P live ws lp \<longleftrightarrow> ep_inv (lp_ep lp) \<and> waiting (lp_ep lp) = [] \<and>
     retries_ok (le_udp P) live (ws @ lp_waiters lp) (lp_ep lp) \<and> (lp_waiters lp \<noteq> [] \<longrightarrow> lp_wev lp)"

lemma lp_when_writeable_fold:
  "lp_ep (fold lp_when_writeable ws lp) = lp_ep lp \<and> lp_waiters (fold lp_when_writeable ws lp) = lp_waiters lp @ ws \<and>
   lp_wev (fold lp_when_writeable ws lp) = (lp_wev lp \<or> ws \<noteq> [])"
  by (induction ws arbitrary: lp) (auto simp: lp_when_writeable_def)

lemma absorb_simps [simp]:
  "lp_ep (absorb ep ws lp) = ep\<lparr>waiting := []\<rparr>"
  "lp_waiters (absorb ep ws lp) =
     map (mark_waiter ep) (lp_waiters lp) @ map (\<lambda>(p, buf, cb). Resend p buf cb) (waiting ep) @ ws"
  "lp_wev (absorb ep ws lp) = (lp_wev lp \<or> waiting ep \<noteq> [] \<or> ws \<noteq> [])"
  by (simp_all add: absorb_def lp_when_writeable_fold)

lemma count_mark:
  "count_list (map (mark_waiter ep) ws) (Retry k) = (if find_conn k ep = None then 0 else count_list ws (Retry k))"
  by (induction ws) (auto simp: mark_waiter_def split: waiter.splits option.splits)

lemma count_resend [simp]: "count_list (map (\<lambda>(p, buf, cb). Resend p buf cb) qs) (Retry k) = 0"
  by (induction qs) auto

lemma mark_waiter_kept [simp]: "mark_waiter (put_kept k c ep) = mark_waiter ep"
  by (auto simp: mark_waiter_def fun_eq_iff split: waiter.splits)

lemma count_gone [simp]: "count_list (replicate n (Gone k)) (Retry k') = 0"
  by (induction n) auto

lemma retries_okD:
  assumes "retries_ok env live ws ep"
  shows "find_conn k ep = None \<Longrightarrow> count_list ws (Retry k) = 0"
    and "find_conn k ep = Some c \<Longrightarrow> count_list ws (Retry k) = write_waits c"
    and "find_conn k ep = Some c \<Longrightarrow> conn_inv env live c"
  using assms by (auto simp: retries_ok_def split: option.splits)

lemma find_conn_waiting [simp]: "find_conn k (ep\<lparr>waiting := w\<rparr>) = find_conn k ep"
  by (simp add: find_conn_def)

lemma mark_waiter_waiting [simp]: "mark_waiter (ep\<lparr>waiting := w\<rparr>) = mark_waiter ep"
  by (auto simp: mark_waiter_def fun_eq_iff split: waiter.splits)

lemma ep_inv_waiting [simp]: "ep_inv (ep\<lparr>waiting := w\<rparr>) = ep_inv ep"
  by (simp add: ep_inv_def)

lemma grown_retries:
  assumes inv: "retries_ok env live ws ep" and g: "conns_grown env live ep ep'"
  shows "retries_ok env live (map (mark_waiter ep') ws @ map (\<lambda>(p, buf, cb). Resend p buf cb) qs) ep'"
proof -
  have "count_list ws (Retry k) = write_waits c' \<and> conn_inv env live c'" if f: "find_conn k ep' = Some c'" for k c'
  proof -
    from g [unfolded conns_grown_def, rule_format, OF f] show ?thesis
    proof (elim disjE exE conjE)
      fix c assume c: "find_conn k ep = Some c" "keeps_inv live c c'"
      with retries_okD(2,3) [OF inv c(1)] keeps_conn_inv [of live c c' env] show ?thesis by (simp add: keeps_inv_def)
    next
      assume "find_conn k ep = None" "fresh_conn env live c'"
      with retries_okD(1) [OF inv] show ?thesis by (simp add: fresh_conn_def)
    qed
  qed
  then show ?thesis by (auto simp: retries_ok_def count_mark split: option.splits)
qed

text \<open>An operation of the endpoint, during which the callbacks \<open>ws\<close> of a write event may still be to run.\<close>

lemma absorb_gone_inv:
  assumes inv: "loop_inv P live ws lp" and e: "ep_inv ep'" and g: "conns_grown (le_udp P) live (lp_ep lp) ep'"
  shows "loop_inv P live (map (mark_waiter ep') ws) (absorb ep' (replicate n (Gone k)) lp)"
proof -
  from inv have "retries_ok (le_udp P) live (ws @ lp_waiters lp) (lp_ep lp)" by (simp add: loop_inv_def)
  from grown_retries [OF this g, of "waiting ep'"] e inv show ?thesis
    by (auto simp: loop_inv_def retries_ok_def)
qed

lemma absorb_inv:
  assumes "loop_inv P live ws lp" and "ep_inv ep'" and "conns_grown (le_udp P) live (lp_ep lp) ep'"
  shows "loop_inv P live (map (mark_waiter ep') ws) (absorb ep' [] lp)"
  using absorb_gone_inv [OF assms, of 0] by simp

text \<open>An event of a connection outside the map.\<close>

lemma absorb_kept_inv:
  assumes "loop_inv P live ws lp"
  shows "loop_inv P live (map (mark_waiter (lp_ep lp)) ws) (absorb (put_kept k c (lp_ep lp)) (replicate n (Gone k)) lp)"
proof -
  have "conns_grown (le_udp P) live (lp_ep lp) (put_kept k c (lp_ep lp))" by (intro kept_grown kept_same) simp
  moreover have "ep_inv (put_kept k c (lp_ep lp))" using assms by (simp add: loop_inv_def)
  ultimately show ?thesis using absorb_gone_inv [OF assms, of "put_kept k c (lp_ep lp)" n k] by simp
qed

text \<open>
  An event of the connection at \<open>k\<close>, which may be the first of the callbacks (\<open>v\<close>) and may register \<open>n\<close> more.
\<close>

lemma absorb_conn_inv:
  assumes inv: "loop_inv P live (v @ ws) lp" and at: "find_conn k (lp_ep lp) = Some c" and id: "same_id c c'"
    and c': "conn_inv (le_udp P) live c'" and v: "v = replicate m (Retry k)" and n: "write_waits c' + m = write_waits c + n"
  shows "loop_inv P live (map (mark_waiter (put_conn c' (lp_ep lp))) ws) (absorb (put_conn c' (lp_ep lp)) (replicate n (Retry k)) lp)"
proof -
  let ?ep = "put_conn c' (lp_ep lp)"
  from inv have e: "ep_inv (lp_ep lp)" and w: "waiting ?ep = []" and wev: "lp_waiters lp \<noteq> [] \<longrightarrow> lp_wev lp"
    and r: "retries_ok (le_udp P) live (v @ ws @ lp_waiters lp) (lp_ep lp)"
    by (simp_all add: loop_inv_def put_conn_def)
  have k: "cid_key (cn_source_cid c') = k" using find_conn_key [OF e at] id by (simp add: same_id_def)
  have f: "find_conn k' ?ep = (if k' = k then Some c' else find_conn k' (lp_ep lp))" for k'
    by (simp add: find_put_conn [OF ep_inv_wf [OF e]] k)
  have cnt: "count_list (replicate i (Retry k)) (Retry k') = (if k' = k then i else 0)" for i k'
    by (induction i) auto
  have "ep_inv ?ep"
    using only_at_inv [OF only_at_put [OF ep_inv_wf [OF e] k] e] ep_invD [OF e, of k "Some c"] at
    by (simp add: find_conn_iff conn_at_def)
  moreover have "retries_ok (le_udp P) live
      (map (mark_waiter ?ep) (ws @ lp_waiters lp) @ replicate n (Retry k)) ?ep"
  proof -
    have "count_list (ws @ lp_waiters lp) (Retry k) + m = write_waits c"
      using retries_okD(2) [OF r at] by (simp add: v cnt)
    moreover have "count_list (ws @ lp_waiters lp) (Retry k') = (case find_conn k' (lp_ep lp) of None \<Rightarrow> 0 | Some d \<Rightarrow> write_waits d)"
      if "k' \<noteq> k" for k' using retries_okD(1,2) [OF r, of k'] that by (auto simp: v cnt split: option.splits)
    ultimately show ?thesis
      using n c' retries_okD(3) [OF r] by (auto simp: retries_ok_def f count_mark cnt split: option.splits)
  qed
  ultimately show ?thesis using w wev by (auto simp: loop_inv_def retries_ok_def)
qed

section \<open>Events of a connection\<close>

lemma on_io_ready_outcome:
  assumes P: "env_ok env" "writev_ok ng" "ids_ok ng live" and h: "heap_ok c" and inv: "conn_inv env live c"
    and r: "on_io_ready fuel ng env start ts c os = Some (Inr (c', os'))"
  shows "conn_inv env live c' \<and> same_id c c' \<and> heap_ok c' \<and> write_waits c \<le> write_waits c'"
proof -
  from r obtain st where st: "flush_streams fuel ng env start ts c os = Some (Inr st)"
    and c': "c' = schedule_retransmit ng ts (fl_conn st)"
    by (auto simp: on_io_ready_def split: option.splits sum.splits)
  have "flush_frame c (fl_conn st) \<and> write_waits c \<le> write_waits (fl_conn st)"
  proof (cases "0 < n_packets c")
    case True
    with st show ?thesis by (auto simp: flush_streams_def flush_start_def split: if_splits)
  next
    case False
    with h inv have "conn_ready c" "n_packets c = 0" by (simp_all add: conn_ready_def conn_inv_def send_inv_def)
    from flush_streams_sound [OF P(1,2) this st] show ?thesis by (simp add: flush_ended_def Let_def)
  qed
  moreover have "flush_frame (fl_conn st) c' \<and> write_waits c' = write_waits (fl_conn st)"
    by (simp add: c' schedule_retransmit_def Let_def flush_frame_def list_all2_refl flushed_refl)
  ultimately have "flush_frame c c'" "write_waits c \<le> write_waits c'" by (auto intro: flush_frame_trans)
  with flush_frame_ok [OF _ h] on_io_ready_inv [OF P h inv r] show ?thesis by (simp add: same_id_def flush_frame_def)
qed

lemma io_event_outcome:
  assumes P: "env_ok env" "writev_ok ng" "ids_ok ng live" and h: "heap_ok c" and inv: "conn_inv env live c"
    and r: "io_event fuel ng env start ts c os = Some (Inr (c', os'))"
  shows "conn_inv env live c' \<and> same_id c c' \<and> write_waits c \<le> write_waits c'"
proof -
  let ?c = "c\<lparr>io_trigger := False\<rparr>"
  have "keeps live c ?c" by (intro keeps_ext) simp_all
  with inv have "conn_inv env live ?c" by (blast intro: keeps_conn_inv keeps_imp_inv)
  moreover have "heap_ok ?c" using h by (simp add: heap_ok_def)
  ultimately show ?thesis using on_io_ready_outcome [OF P, of ?c] r by (simp add: io_event_def same_id_def)
qed

lemma writeable_outcome:
  assumes P: "env_ok env" "writev_ok ng" "ids_ok ng live" and h: "heap_ok c" and inv: "conn_inv env live c"
    and w: "0 < write_waits c" and r: "writeable_event fuel ng env start ts c os = Some (Inr (c', os'))"
  shows "conn_inv env live c' \<and> same_id c c' \<and> heap_ok c'"
proof -
  let ?c = "c\<lparr>write_waits := write_waits c - 1\<rparr>"
  have n: "0 < n_packets ?c" "n_packets ?c \<le> ue_max_batch env" and b: "conn_batch_ok (batch ?c)"
    using inv w by (auto simp: conn_inv_def send_inv_def n_packets_def split: if_splits)
  obtain ok cancel c1 os1 where s: "conn_send env ?c os = Some (Inr (ok, cancel, c1, os1))" and fr: "send_frame ?c c1"
    using conn_send_settled [OF P(1) b n, of os] by blast
  from writeable_send [OF P(1) inv w, of os] s have inv1: "conn_inv env live c1" by auto
  have 1: "same_id c c1" "heap_ok c1"
    using flush_frame_send [OF fr] h flush_frame_ok [OF flush_frame_send [OF fr]] by (auto simp: same_id_def flush_frame_def heap_ok_def)
  from r s have "c' = c1 \<or> on_io_ready fuel ng env start ts c1 os1 = Some (Inr (c', os'))"
    by (auto simp: writeable_event_def split: if_splits)
  with on_io_ready_outcome [OF P 1(2) inv1] inv1 1 show ?thesis by (auto intro: same_id_trans)
qed

lemma retransmit_outcome:
  assumes P: "env_ok env" "writev_ok ng" "ids_ok ng live" and h: "heap_ok c" and inv: "conn_inv env live c"
    and r: "retransmit_event fuel ng env start ts c os = Some (Inr (rv, c', os'))"
  shows "(rv \<noteq> None \<longrightarrow> keeps_inv live c c') \<and> conn_inv env live c' \<and> same_id c c' \<and> write_waits c \<le> write_waits c'"
proof -
  let ?c = "c\<lparr>cn_ng := snd (ng_handle_expiry ng ts (cn_ng c)), retransmit_timer := None\<rparr>"
  have k: "keeps live c ?c" by (intro keeps_ext) (simp_all add: ids_ok_mono(3) [OF P(3)])
  with inv have inv1: "conn_inv env live ?c" by (blast intro: keeps_conn_inv keeps_imp_inv)
  have h1: "heap_ok ?c" and id: "same_id c ?c" using h by (simp_all add: heap_ok_def same_id_def)
  from r consider "rv \<noteq> None" "c' = ?c" | "rv = None" "on_io_ready fuel ng env start ts ?c os = Some (Inr (c', os'))"
    by (auto simp: retransmit_event_def Let_def split: prod.splits if_splits option.splits sum.splits)
  then show ?thesis
  proof cases
    case 1
    with keeps_imp_inv [OF k] inv1 id show ?thesis by simp
  next
    case 2
    with on_io_ready_outcome [OF P h1 inv1] id show ?thesis by (auto intro: same_id_trans)
  qed
qed

section \<open>The write event\<close>

definition heaps_ok :: "'ng endpoint \<Rightarrow> bool" where
  "heaps_ok ep \<longleftrightarrow> (\<forall>k c. find_conn k ep = Some c \<longrightarrow> heap_ok c)"

definition conns_same :: "'ng endpoint \<Rightarrow> 'ng endpoint \<Rightarrow> bool" where
  "conns_same ep ep' \<longleftrightarrow> (\<forall>k c'. find_conn k ep' = Some c' \<longrightarrow> find_conn k ep = Some c')"

lemma send_conns:
  assumes "ep_send_packet env p buf cb ep os = Some (Inr (ep', os'))"
  shows "conns_same ep ep'"
proof -
  have "conns ep' = conns ep \<or> (\<exists>k. conns ep' = assoc_erase k (conns ep))"
    using assms
    by (auto simp: ep_send_packet_def Let_def elim!: obind_InrE and_then_InrE dest!: delete_conns
        split: list.splits option.splits if_splits, blast+)
  then show ?thesis by (auto simp: conns_same_def find_conn_def um.find_erase split: if_splits)
qed

lemma run_waiter_inv:
  assumes P: "loop_ok P live" and inv: "loop_inv P live (w # ws) lp" and h: "heaps_ok (lp_ep lp)"
    and r: "run_waiter P now start w lp os = Some (Inr (lp', os'))"
  shows "loop_inv P live (map (mark_waiter (lp_ep lp')) ws) lp' \<and> heaps_ok (lp_ep lp')"
proof (cases w)
  case (Gone k)
  with r obtain c' n where lp': "lp' = absorb (put_kept k c' (lp_ep lp)) (replicate n (Gone k)) lp"
    by (auto simp: run_waiter_def elim!: obind_InrE split: option.splits)
  from inv Gone have "loop_inv P live ws lp" by (simp add: loop_inv_def retries_ok_def)
  from absorb_kept_inv [OF this, of k c' n] lp' h show ?thesis
    by (simp add: heaps_ok_def)
next
  case (Resend p buf cb)
  with r obtain ep' where s: "ep_send_packet (le_udp P) p buf cb (lp_ep lp) os = Some (Inr (ep', os'))"
    and lp': "lp' = absorb ep' [] lp" by (auto simp: run_waiter_def elim!: obind_InrE)
  from inv Resend have "loop_inv P live ws lp" and e: "ep_inv (lp_ep lp)" by (simp_all add: loop_inv_def retries_ok_def)
  from absorb_inv [OF this(1) ep_inv_send [OF e s] kept_grown [OF kept_send [OF s]]] lp'
  have "loop_inv P live (map (mark_waiter ep') ws) lp'" by simp
  moreover have "mark_waiter (lp_ep lp') = mark_waiter ep'" by (simp add: lp')
  moreover have "heaps_ok (lp_ep lp')"
    using send_conns [OF s] h by (auto simp: lp' heaps_ok_def conns_same_def)
  ultimately show ?thesis by simp
next
  case (Retry k)
  from P have ok: "env_ok (le_udp P)" "writev_ok (le_ng P)" "ids_ok (le_ng P) live" by (simp_all add: loop_ok_def)
  from r Retry obtain c c' where at: "find_conn k (lp_ep lp) = Some c"
    and we: "writeable_event (le_fuel P) (le_ng P) (le_udp P) (start k) now c os = Some (Inr (c', os'))"
    and lp': "lp' = absorb (put_conn c' (lp_ep lp)) (replicate (write_waits c' - (write_waits c - 1)) (Retry k)) lp"
    by (auto simp: run_waiter_def elim!: obind_InrE split: option.splits)
  from inv have e: "ep_inv (lp_ep lp)" and ro: "retries_ok (le_udp P) live (w # ws @ lp_waiters lp) (lp_ep lp)"
    by (simp_all add: loop_inv_def)
  have c: "conn_inv (le_udp P) live c" "0 < write_waits c"
    using retries_okD(2,3) [OF ro at] Retry by auto
  then have one: "write_waits c = 1" by (auto simp: conn_inv_def send_inv_def split: if_splits)
  from h at have "heap_ok c" by (simp add: heaps_ok_def)
  note out = writeable_outcome [OF ok this c we]
  have "loop_inv P live ([Retry k] @ ws) lp" using inv Retry by simp
  from absorb_conn_inv [OF this at, of c' 1 "write_waits c'"] out one lp'
  have "loop_inv P live (map (mark_waiter (put_conn c' (lp_ep lp))) ws) lp'" by simp
  moreover have "mark_waiter (lp_ep lp') = mark_waiter (put_conn c' (lp_ep lp))" by (simp add: lp')
  moreover have "heaps_ok (lp_ep lp')"
    using h out by (auto simp: lp' heaps_ok_def find_put_conn [OF ep_inv_wf [OF e]] split: if_splits)
  ultimately show ?thesis by simp
qed

lemma run_waiters_inv:
  assumes P: "loop_ok P live"
  shows "loop_inv P live ws lp \<Longrightarrow> heaps_ok (lp_ep lp) \<Longrightarrow> run_waiters P now start ws lp os = Some (Inr (lp', os')) \<Longrightarrow>
    loop_inv P live [] lp'"
proof (induction "length ws" arbitrary: ws lp os)
  case (Suc n)
  then obtain w ws' where ws: "ws = w # ws'" by (cases ws) auto
  with Suc.prems(3) obtain lp1 os1 where w: "run_waiter P now start w lp os = Some (Inr (lp1, os1))"
    and r: "run_waiters P now start (map (mark_waiter (lp_ep lp1)) ws') lp1 os1 = Some (Inr (lp', os'))"
    by (auto elim!: obind_InrE)
  note 1 = run_waiter_inv [OF P Suc.prems(1) [unfolded ws] Suc.prems(2) w]
  have "n = length (map (mark_waiter (lp_ep lp1)) ws')" using Suc.hyps(2) ws by simp
  from Suc.hyps(1) [OF this 1 [THEN conjunct1] 1 [THEN conjunct2] r] show ?case .
qed simp

lemma write_event_inv:
  assumes "loop_ok P live" and "loop_inv P live [] lp" and "heaps_ok (lp_ep lp)"
    and "write_event P now start lp os = Some (Inr (lp', os'))"
  shows "loop_inv P live [] lp'"
  using run_waiters_inv [OF assms(1), of "lp_waiters lp" "lp\<lparr>lp_waiters := [], lp_wev := False\<rparr>" now start os lp' os'] assms
  by (simp add: write_event_def loop_inv_def)

section \<open>Every turn of the loop\<close>

lemma kept_step_inv:
  assumes inv: "loop_inv P live [] lp"
    and r: "lp' = lp \<or> (\<exists>c n. lp' = absorb (put_kept k c (lp_ep lp)) (replicate n (Gone k)) lp) \<or>
      (\<exists>now code c ep os1 os2. close_kept P now code k c (lp_ep lp) os1 = Some (Inr (ep, os2)) \<and> lp' = absorb ep [] lp)"
  shows "loop_inv P live [] lp'"
  using r
proof (elim disjE exE conjE)
  fix c n assume "lp' = absorb (put_kept k c (lp_ep lp)) (replicate n (Gone k)) lp"
  with absorb_kept_inv [OF inv, of k c n] show ?thesis by simp
next
  fix now code c ep os1 os2 assume c: "close_kept P now code k c (lp_ep lp) os1 = Some (Inr (ep, os2))" and lp': "lp' = absorb ep [] lp"
  from inv have "ep_inv (lp_ep lp)" by (simp add: loop_inv_def)
  from close_kept_effect [OF c this, of live] absorb_inv [OF inv _ kept_grown] lp' show ?thesis by simp
qed (use inv in simp)

lemma kept_action_inv:
  assumes "loop_inv P live [] lp" and r: "kept_action P k a lp os = Some (Inr (lp', os'))"
  shows "loop_inv P live [] lp'"
proof -
  from r obtain c where "lp' = absorb (put_kept k c (lp_ep lp)) (replicate 0 (Gone k)) lp"
    by (auto simp: kept_action_def elim!: obind_InrE split: option.splits)
  then show ?thesis by (intro kept_step_inv [OF assms(1)]) blast
qed

lemma kept_io_inv:
  assumes "loop_inv P live [] lp" and r: "kept_io P now start k lp os = Some (Inr (lp', os'))"
  shows "loop_inv P live [] lp'"
proof -
  from r have "lp' = lp \<or> (\<exists>c n. lp' = absorb (put_kept k c (lp_ep lp)) (replicate n (Gone k)) lp)"
    by (auto simp: kept_io_def elim!: obind_InrE split: option.splits if_splits)
  then show ?thesis by (intro kept_step_inv [OF assms(1)]) blast
qed

lemma kept_timer_inv:
  assumes "loop_inv P live [] lp" and r: "kept_timer P now start k lp os = Some (Inr (lp', os'))"
  shows "loop_inv P live [] lp'"
proof (cases "lp' = lp")
  case False
  with r obtain c where c: "kept_conn P k (lp_ep lp) = Some c" "retransmit_timer c \<noteq> None"
    by (auto simp: kept_timer_def split: option.splits if_splits)
  with r obtain rv c' os1 where re: "retransmit_event (le_fuel P) (le_ng P) (le_udp P) start now c os = Some (Inr (rv, c', os1))"
    by (auto simp: kept_timer_def elim!: obind_InrE)
  show ?thesis
  proof (cases rv)
    case None
    with r c re have "lp' = absorb (put_kept k c' (lp_ep lp)) (replicate (write_waits c' - write_waits c) (Gone k)) lp"
      by (auto simp: kept_timer_def)
    then show ?thesis by (intro kept_step_inv [OF assms(1)]) blast
  next
    case (Some code)
    with r c re obtain ep where "close_kept P now code k c' (lp_ep lp) os1 = Some (Inr (ep, os'))" "lp' = absorb ep [] lp"
      by (auto simp: kept_timer_def elim!: obind_InrE)
    then show ?thesis by (intro kept_step_inv [OF assms(1)]) blast
  qed
qed (use assms(1) in simp)

text \<open>
  The steps of the loop.  The sizes of the stream queues are assumed to fit in memory (\<open>heaps_ok\<close>), random ids have
  the full length.
\<close>

inductive loop_step :: "('ng, 'os) loop_env \<Rightarrow> 'ng ep_loop \<times> 'os \<Rightarrow> 'ng ep_loop \<times> 'os \<Rightarrow> bool" for P where
  turn: "heaps_ok (lp_ep lp) \<Longrightarrow> rnd_ok rnd \<Longrightarrow> loop_turn P now start rnd e lp os = Some (Inr (lp', os')) \<Longrightarrow>
    loop_step P (lp, os) (lp', os')"

lemma only_at_put_inv:
  assumes inv: "ep_inv ep" and at: "find_conn k ep = Some c" and id: "same_id c c'"
  shows "ep_inv (put_conn c' ep)"
proof -
  have "cid_key (cn_source_cid c') = k" using find_conn_key [OF inv at] id by (simp add: same_id_def)
  from only_at_inv [OF only_at_put [OF ep_inv_wf [OF inv] this] inv] ep_invD [OF inv, of k "Some c"] at show ?thesis
    by (simp add: find_conn_iff conn_at_def)
qed

lemma timer_event_inv:
  assumes P: "loop_ok P live" and inv: "loop_inv P live [] lp" and h: "heaps_ok (lp_ep lp)" and at: "find_conn k (lp_ep lp) = Some c"
    and r: "timer_event P now start k c lp os = Some (Inr (lp', os'))"
  shows "loop_inv P live [] lp'"
proof -
  from P have ok: "env_ok (le_udp P)" "writev_ok (le_ng P)" "ids_ok (le_ng P) live" and read: "read_ok (le_ng P) live"
    by (simp_all add: loop_ok_def)
  from inv have e: "ep_inv (lp_ep lp)" and ro: "retries_ok (le_udp P) live (lp_waiters lp) (lp_ep lp)" by (simp_all add: loop_inv_def)
  from r obtain rv c' os1 where re: "retransmit_event (le_fuel P) (le_ng P) (le_udp P) start now c os = Some (Inr (rv, c', os1))"
    by (auto simp: timer_event_def elim!: obind_InrE)
  from h at have hc: "heap_ok c" by (simp add: heaps_ok_def)
  note out = retransmit_outcome [OF ok hc retries_okD(3) [OF ro at] re]
  show ?thesis
  proof (cases rv)
    case None
    with r re have lp': "lp' = absorb (put_conn c' (lp_ep lp)) (replicate (write_waits c' - write_waits c) (Retry k)) lp"
      by (simp add: timer_event_def)
    have "loop_inv P live ([] @ []) lp" using inv by simp
    from absorb_conn_inv [OF this at, of c' 0 "write_waits c' - write_waits c"] out lp' show ?thesis by simp
  next
    case (Some code)
    with r re obtain ep where cl: "close_connection (le_ng P) (le_udp P) now code ''NO_ERROR'' c' (lp_ep lp) os1 = Some (Inr (ep, os'))"
      and lp': "lp' = absorb ep [] lp" by (auto simp: timer_event_def elim!: obind_InrE)
    have k: "cid_key (cn_source_cid c') = k" using find_conn_key [OF e at] out by (simp add: same_id_def)
    have len: "length k = NGTCP2_MAX_CIDLEN" using ep_invD [OF e, of k "Some c"] at by (simp add: find_conn_iff conn_at_def)
    have "ep_inv ep" by (rule only_at_inv [OF only_at_close [OF ep_inv_wf [OF e] k cl] e len])
    moreover have "conns_kept live (lp_ep lp) ep"
      using kept_close [OF read ep_inv_wf [OF e] _ _ cl, of c] k at out Some by simp
    ultimately show ?thesis using absorb_inv [OF inv _ kept_grown] lp' by simp
  qed
qed

lemma io_turn_inv:
  assumes P: "loop_ok P live" and inv: "loop_inv P live [] lp" and h: "heaps_ok (lp_ep lp)" and at: "find_conn k (lp_ep lp) = Some c"
    and io: "io_event (le_fuel P) (le_ng P) (le_udp P) start now c os = Some (Inr (c', os'))"
  shows "loop_inv P live [] (absorb (put_conn c' (lp_ep lp)) (replicate (write_waits c' - write_waits c) (Retry k)) lp)"
proof -
  from P have ok: "env_ok (le_udp P)" "writev_ok (le_ng P)" "ids_ok (le_ng P) live" by (simp_all add: loop_ok_def)
  from inv have ro: "retries_ok (le_udp P) live (lp_waiters lp) (lp_ep lp)" by (simp add: loop_inv_def)
  from h at have hc: "heap_ok c" by (simp add: heaps_ok_def)
  note out = io_event_outcome [OF ok hc retries_okD(3) [OF ro at] io]
  have "loop_inv P live ([] @ []) lp" using inv by simp
  from absorb_conn_inv [OF this at, of c' 0 "write_waits c' - write_waits c"] out show ?thesis by simp
qed

lemma action_turn_inv:
  assumes P: "loop_ok P live" and inv: "loop_inv P live [] lp" and at: "find_conn k (lp_ep lp) = Some c"
    and d: "do_action (le_ng P) a c = Inr c'"
  shows "loop_inv P live [] (absorb (put_conn c' (lp_ep lp)) [] lp)"
proof -
  from P have ids: "ids_ok (le_ng P) live" by (simp add: loop_ok_def)
  from inv have e: "ep_inv (lp_ep lp)" by (simp add: loop_inv_def)
  have id: "same_id c c'" by (rule same_id_action [OF d])
  then have "cid_key (cn_source_cid c') = k" using find_conn_key [OF e at] by (simp add: same_id_def)
  with kept_put [OF ep_inv_wf [OF e] _ keeps_imp_inv [OF keeps_action [OF ids d]]] at
  have "conns_kept live (lp_ep lp) (put_conn c' (lp_ep lp))" by simp
  with absorb_inv [OF inv only_at_put_inv [OF e at id] kept_grown] show ?thesis by simp
qed

lemma listen_turn_inv:
  assumes "loop_inv P live [] lp"
  shows "loop_inv P live [] (absorb (snd (listen mk_ctx (lp_ep lp))) [] lp)"
proof -
  let ?ep = "snd (listen mk_ctx (lp_ep lp))"
  have "ep_inv ?ep" using assms by (auto simp: loop_inv_def listen_def ep_inv_def split: sum.splits)
  moreover have "conns_kept live (lp_ep lp) ?ep" by (rule kept_same) (simp add: listen_def split: sum.splits)
  ultimately show ?thesis by (intro absorb_inv [OF assms, simplified] kept_grown)
qed

lemma io_loop_turn_inv:
  assumes P: "loop_ok P live" and inv: "loop_inv P live [] lp" and h: "heaps_ok (lp_ep lp)"
    and r: "loop_turn P now start rnd (Ev_io k) lp os = Some (Inr (lp', os'))"
  shows "loop_inv P live [] lp'"
proof (cases "\<exists>c. find_conn k (lp_ep lp) = Some c \<and> io_trigger c")
  case True
  with r obtain c c' where at: "find_conn k (lp_ep lp) = Some c"
    and io: "io_event (le_fuel P) (le_ng P) (le_udp P) (start k) now c os = Some (Inr (c', os'))"
    and lp': "lp' = absorb (put_conn c' (lp_ep lp)) (replicate (write_waits c' - write_waits c) (Retry k)) lp"
    by (auto elim!: obind_InrE)
  from io_turn_inv [OF P inv h at io] lp' show ?thesis by simp
next
  case False
  with r inv kept_io_inv [OF inv] show ?thesis by (auto split: option.splits)
qed

lemma loop_turn_inv:
  assumes P: "loop_ok P live" and inv: "loop_inv P live [] lp" and h: "heaps_ok (lp_ep lp)" and rnd: "rnd_ok rnd"
    and r: "loop_turn P now start rnd e lp os = Some (Inr (lp', os'))"
  shows "loop_inv P live [] lp'"
proof -
  from P have read: "read_ok (le_ng P) live" by (simp add: loop_ok_def)
  from inv have ei: "ep_inv (lp_ep lp)" by (simp add: loop_inv_def)
  note ab = absorb_inv [OF inv, simplified]
  show ?thesis
  proof (cases e)
    case (Ev_packet junk pkt)
    with r obtain ep rnd' where hp: "handle_packet_app (le_pk P) (le_ng P) (le_app P) (le_other P) (le_udp P) now junk pkt rnd (lp_ep lp) os =
        Some (Inr (ep, rnd', os'))" and lp': "lp' = absorb ep [] lp" by (auto elim!: obind_InrE)
    from grown_packet_app [OF P ei rnd hp] ab lp' show ?thesis by simp
  next
    case Ev_timeouts
    with r obtain ep where "check_timeouts now (lp_ep lp) = Inr ep" and "lp' = absorb ep [] lp" by (auto elim!: obind_InrE)
    with ab ep_inv_timeouts [OF ei] kept_grown [OF kept_timeouts] show ?thesis by blast
  next
    case (Ev_listen mk_ctx)
    with r listen_turn_inv [OF inv, of mk_ctx] show ?thesis by simp
  next
    case (Ev_connect p mk_ctx dcid)
    with r obtain res ep rnd' where c: "connect (le_pk P) p mk_ctx dcid rnd (lp_ep lp) = Some (res, ep, rnd')"
      and lp': "lp' = absorb ep [] lp" by (auto split: option.splits prod.splits)
    from ab [OF ep_inv_connect [OF ei rnd c] grown_connect [OF P ei c]] lp' show ?thesis by simp
  next
    case (Ev_close_conns d)
    with r obtain ep where c: "close_conns_loop (le_ng P) (le_udp P) now d (map fst (conns (lp_ep lp))) (lp_ep lp) os = Some (Inr (ep, os'))"
      and lp': "lp' = absorb ep [] lp" by (auto simp: close_conns_def elim!: obind_InrE)
    from ab [OF ep_inv_close_loop [OF ei c] kept_grown [OF kept_close_loop [OF read ei c]]] lp' show ?thesis by simp
  next
    case (Ev_action k a)
    with r kept_action_inv [OF inv] action_turn_inv [OF P inv] show ?thesis by (auto elim!: obind_InrE split: option.splits)
  next
    case (Ev_io k)
    with r io_loop_turn_inv [OF P inv h] show ?thesis by blast
  next
    case (Ev_timer k)
    with r inv timer_event_inv [OF P inv h] kept_timer_inv [OF inv] show ?thesis by (auto split: option.splits if_splits)
  next
    case Ev_write
    with r inv write_event_inv [OF P inv h] show ?thesis by (auto split: if_splits)
  qed
qed

lemma loop_init_inv: "loop_inv P live [] loop_init"
  by (simp add: loop_inv_def loop_init_def ep_init_def ep_inv_def umap_wf_def omap_wf_def retries_ok_def find_conn_def)

lemma loop_reach_inv:
  assumes P: "loop_ok P live" and r: "(loop_step P)\<^sup>*\<^sup>* (loop_init, os0) s"
  shows "loop_inv P live [] (fst s)"
  using r
proof (induction rule: rtranclp_induct)
  case base
  show ?case by (simp add: loop_init_inv)
next
  case (step s t)
  from step.hyps(2) step.IH show ?case by cases (auto intro: loop_turn_inv [OF P])
qed

text \<open>
  C2: The socket never forgets a blocked connection: in every state the event loop can reach, whatever packets,
  timers, write events and calls arrive in whatever order, a connection with unsent packets has exactly one
  retry among the callbacks that wait for the socket, a connection without has none, and the write event is
  added whenever a callback waits.
\<close>

theorem blocked_connections_registered:
  assumes "loop_ok P live" and "(loop_step P)\<^sup>*\<^sup>* (loop_init, os0) (lp, os)" and "find_conn k (lp_ep lp) = Some c"
  shows "count_list (lp_waiters lp) (Retry k) = (if 0 < n_packets c then 1 else 0) \<and> (lp_waiters lp \<noteq> [] \<longrightarrow> lp_wev lp)"
proof -
  from loop_reach_inv [OF assms(1,2)] have ro: "retries_ok (le_udp P) live (lp_waiters lp) (lp_ep lp)"
    and "lp_waiters lp \<noteq> [] \<longrightarrow> lp_wev lp" by (simp_all add: loop_inv_def)
  with retries_okD(2,3) [OF ro assms(3)] show ?thesis by (simp add: conn_inv_def send_inv_def)
qed

section \<open>Connections that are deleted while they are blocked\<close>

lemma turn_absorbs:
  assumes "e \<noteq> Ev_write" and "loop_turn P now start rnd e lp os = Some (Inr (lp', os'))"
  shows "lp' = lp \<or> (\<exists>ep ws. lp' = absorb ep ws lp)"
  using assms
  by (cases e)
    (auto simp: timer_event_def kept_action_def kept_io_def kept_timer_def elim!: obind_InrE
      split: option.splits prod.splits if_splits, blast+)

text \<open>A retry of a connection that no longer exists faults when its turn comes; the callbacks before it are run.\<close>

lemma run_waiters_gone:
  assumes "\<not> le_held P k"
  shows "run_waiters P now start (us @ Gone k # vs) lp os =
    obind (run_waiters P now start us lp os) (\<lambda>_. Some (Inl Use_of_destroyed_object))"
proof (induction "length us" arbitrary: us vs lp os)
  case 0
  with assms show ?case by (simp add: run_waiter_def kept_conn_def)
next
  case (Suc n)
  then obtain u us' where us: "us = u # us'" by (cases us) auto
  have "mark_waiter ep (Gone k) = Gone k" for ep :: "'a endpoint" by (simp add: mark_waiter_def)
  moreover have "n = length (map (mark_waiter ep) us')" for ep :: "'a endpoint" using Suc.hyps(2) us by simp
  note Suc.hyps(1) [OF this]
  ultimately show ?case
    by (cases "run_waiter P now start u lp os") (auto simp: us obind_def split: sum.splits)
qed

text \<open>
  C14: A retry outlives its connection: when any event removes a connection that has unsent packets, the callback
  registered for it stays with the socket, and the write event is added already.  If the application keeps no pointer to
  the connection, it is destroyed then, and the next write event runs the callbacks that were registered before this one
  and, if they end well, uses the destroyed connection.
\<close>

theorem deleted_while_blocked:
  assumes "loop_ok P live" and "(loop_step P)\<^sup>*\<^sup>* (loop_init, os0) (lp, os)"
    and "find_conn k (lp_ep lp) = Some c" and "0 < n_packets c" and "\<not> le_held P k"
    and "e \<noteq> Ev_write" and "loop_turn P now start rnd e lp os = Some (Inr (lp', os'))" and "find_conn k (lp_ep lp') = None"
  shows "\<exists>us vs. lp_waiters lp' = us @ Gone k # vs \<and> lp_wev lp' \<and>
    write_event P now' start' lp' os'' =
      obind (run_waiters P now' start' us (lp'\<lparr>lp_waiters := [], lp_wev := False\<rparr>) os'')
        (\<lambda>_. Some (Inl Use_of_destroyed_object))"
proof -
  from loop_reach_inv [OF assms(1,2)] have inv: "loop_inv P live [] lp" by simp
  then have ro: "retries_ok (le_udp P) live (lp_waiters lp) (lp_ep lp)" by (simp add: loop_inv_def)
  from retries_okD(2,3) [OF ro assms(3)] assms(4) have "count_list (lp_waiters lp) (Retry k) \<noteq> 0"
    by (simp add: conn_inv_def send_inv_def)
  then have mem: "Retry k \<in> set (lp_waiters lp)" by (simp add: count_list_0_iff)
  with inv have wev: "lp_wev lp" by (auto simp: loop_inv_def)
  from turn_absorbs [OF assms(6,7)] obtain ep ws where lp': "lp' = absorb ep ws lp" using assms(3,8) by auto
  with assms(8) have "mark_waiter ep (Retry k) = Gone k" by (simp add: mark_waiter_def)
  with mem lp' have "Gone k \<in> set (lp_waiters lp')" by force
  then obtain us vs where w: "lp_waiters lp' = us @ Gone k # vs" by (meson split_list)
  with run_waiters_gone [OF assms(5)] wev lp' show ?thesis
    by (intro exI [of _ us] exI [of _ vs]) (simp add: write_event_def)
qed

section \<open>The write event returns\<close>

text \<open>A connection that ngtcp2 gives a packet size and a quantum, within the fuel; a callback that can be run.\<close>

definition flush_ready :: "('ng, 'os) loop_env \<Rightarrow> 'ng connection \<Rightarrow> bool" where
  "flush_ready P c \<longleftrightarrow> ng_max_tx_udp_payload_size (le_ng P) (cn_ng c) \<noteq> 0 \<and> 0 < max_stream_packets (le_ng P) c \<and>
     length (streams c) + max_stream_packets (le_ng P) c + 1 < le_fuel P"

definition waiter_ready :: "('ng, 'os) loop_env \<Rightarrow> 'ng endpoint \<Rightarrow> waiter \<Rightarrow> bool" where
  "waiter_ready P ep w =
     (case w of
        Gone k \<Rightarrow> False
      | Resend p buf cb \<Rightarrow> dgram_ok (length buf)
      | Retry k \<Rightarrow> (case find_conn k ep of None \<Rightarrow> False | Some c \<Rightarrow> flush_ready P c))"

lemma waiter_ready_waiting [simp]: "waiter_ready P (ep\<lparr>waiting := x\<rparr>) = waiter_ready P ep"
  by (auto simp: waiter_ready_def fun_eq_iff split: waiter.splits)

lemma writeable_returns:
  assumes P: "env_ok (le_udp P)" "writev_ok (le_ng P)" and h: "heap_ok c" and inv: "conn_inv (le_udp P) live c"
    and w: "0 < write_waits c" and f: "flush_ready P c"
  shows "\<exists>c' os'. writeable_event (le_fuel P) (le_ng P) (le_udp P) start now c os = Some (Inr (c', os'))"
proof -
  let ?c = "c\<lparr>write_waits := write_waits c - 1\<rparr>"
  have n: "0 < n_packets ?c" "n_packets ?c \<le> ue_max_batch (le_udp P)" and b: "conn_batch_ok (batch ?c)"
    using inv w by (auto simp: conn_inv_def send_inv_def n_packets_def split: if_splits)
  obtain ok cancel c1 os1 where s: "conn_send (le_udp P) ?c os = Some (Inr (ok, cancel, c1, os1))" and fr: "send_frame ?c c1"
    and ok: "ok \<longrightarrow> n_packets c1 = 0" and b1: "conn_batch_ok (batch c1)"
    using conn_send_settled [OF P(1) b n, of os] by (auto simp: send_settled_def)
  show ?thesis
  proof (cases ok)
    case True
    have "heap_ok ?c" using h by (simp add: heap_ok_def)
    with flush_frame_ok [OF flush_frame_send [OF fr]] b1 have "conn_ready c1" by (simp add: conn_ready_def)
    moreover have "cn_ng c1 = cn_ng c" "streams c1 = streams c" using conn_send_ng [OF s] send_frame_streams [OF fr] by simp_all
    then have "flush_ready P c1" using f by (simp add: flush_ready_def max_stream_packets_def)
    ultimately obtain st where "flush_streams (le_fuel P) (le_ng P) (le_udp P) start now c1 os1 = Some (Inr st)"
      using flush_streams_outcome [OF P, of c1 "le_fuel P" start now os1] ok True by (auto simp: flush_ready_def)
    with s True show ?thesis by (simp add: writeable_event_def on_io_ready_def)
  next
    case False
    with s show ?thesis by (simp add: writeable_event_def)
  qed
qed

lemma put_conn_ready:
  assumes wf: "umap_wf (conns ep)" and w: "waiter_ready P ep w" and k: "w \<noteq> Retry (cid_key (cn_source_cid c))"
  shows "waiter_ready P (put_conn c ep) (mark_waiter (put_conn c ep) w)"
  using w k by (cases w) (auto simp: waiter_ready_def mark_waiter_def find_put_conn [OF wf] split: option.splits waiter.splits)

lemma run_waiter_returns:
  assumes P: "loop_ok P live" and inv: "loop_inv P live (w # ws) lp" and h: "heaps_ok (lp_ep lp)"
    and ready: "list_all (waiter_ready P (lp_ep lp)) (w # ws)"
  shows "\<exists>lp' os'. run_waiter P now start w lp os = Some (Inr (lp', os')) \<and>
    list_all (waiter_ready P (lp_ep lp')) (map (mark_waiter (lp_ep lp')) ws)"
proof (cases w)
  case (Gone k)
  with ready show ?thesis by (simp add: waiter_ready_def)
next
  case (Resend p buf cb)
  with ready have "dgram_ok (length buf)" by (simp add: waiter_ready_def)
  from P ep_send_returns [OF _ this, of "le_udp P" os p cb "lp_ep lp"] obtain q os' where
    s: "ep_send_packet (le_udp P) p buf cb (lp_ep lp) os = Some (Inr ((lp_ep lp)\<lparr>sent := sent (lp_ep lp) @ [(p, buf)],
       waiting := waiting (lp_ep lp) @ (if q then [(p, buf, cb)] else [])\<rparr>, os'))" (is "_ = Some (Inr (?ep, os'))")
    by (auto simp: loop_ok_def)
  have same: "waiter_ready P (?ep\<lparr>waiting := []\<rparr>) (mark_waiter ?ep v)" if "waiter_ready P (lp_ep lp) v" for v
    using that by (cases v) (auto simp: waiter_ready_def mark_waiter_def find_conn_def split: option.splits)
  have "list_all (waiter_ready P (?ep\<lparr>waiting := []\<rparr>)) (map (mark_waiter ?ep) ws)"
    using ready same by (simp add: list_all_iff)
  then show ?thesis using s Resend by (simp add: run_waiter_def)
next
  case (Retry k)
  from P have ok: "env_ok (le_udp P)" "writev_ok (le_ng P)" "ids_ok (le_ng P) live" by (simp_all add: loop_ok_def)
  from inv have e: "ep_inv (lp_ep lp)" and ro: "retries_ok (le_udp P) live (w # ws @ lp_waiters lp) (lp_ep lp)"
    by (simp_all add: loop_inv_def)
  obtain c where at: "find_conn k (lp_ep lp) = Some c"
    using retries_okD(1) [OF ro, of k] Retry by (cases "find_conn k (lp_ep lp)") auto
  have c: "conn_inv (le_udp P) live c" "0 < write_waits c" using retries_okD(2,3) [OF ro at] Retry by auto
  then have "write_waits c = 1" by (auto simp: conn_inv_def send_inv_def split: if_splits)
  with retries_okD(2) [OF ro at] Retry have k: "Retry k \<notin> set ws" by (simp add: count_list_0_iff)
  from h at have hc: "heap_ok c" by (simp add: heaps_ok_def)
  have "flush_ready P c" using ready Retry at by (simp add: waiter_ready_def)
  from writeable_returns [OF ok(1,2) hc c this, of "start k" now os] obtain c' os' where
    we: "writeable_event (le_fuel P) (le_ng P) (le_udp P) (start k) now c os = Some (Inr (c', os'))" by blast
  have key: "cid_key (cn_source_cid c') = k"
    using writeable_outcome [OF ok hc c we] find_conn_key [OF e at] by (simp add: same_id_def)
  have "list_all (waiter_ready P (put_conn c' (lp_ep lp))) (map (mark_waiter (put_conn c' (lp_ep lp))) ws)"
    using ready k put_conn_ready [OF ep_inv_wf [OF e], of P _ c'] by (auto simp: list_all_iff key)
  with we at Retry show ?thesis by (simp add: run_waiter_def)
qed

lemma run_waiters_returns:
  assumes P: "loop_ok P live"
  shows "loop_inv P live ws lp \<Longrightarrow> heaps_ok (lp_ep lp) \<Longrightarrow> list_all (waiter_ready P (lp_ep lp)) ws \<Longrightarrow>
    \<exists>lp' os'. run_waiters P now start ws lp os = Some (Inr (lp', os'))"
proof (induction "length ws" arbitrary: ws lp os)
  case (Suc n)
  then obtain w ws' where ws: "ws = w # ws'" by (cases ws) auto
  from run_waiter_returns [OF P Suc.prems [unfolded ws], of now start os] obtain lp1 os1 where
    w: "run_waiter P now start w lp os = Some (Inr (lp1, os1))"
    and r: "list_all (waiter_ready P (lp_ep lp1)) (map (mark_waiter (lp_ep lp1)) ws')" by blast
  note 1 = run_waiter_inv [OF P Suc.prems(1,2) [unfolded ws] w]
  have "n = length (map (mark_waiter (lp_ep lp1)) ws')" using Suc.hyps(2) ws by simp
  from Suc.hyps(1) [OF this 1 [THEN conjunct1] 1 [THEN conjunct2] r, of os1] w ws show ?case by auto
qed simp

text \<open>
  C11: A write event of the socket returns, whatever the socket takes of each packet.  In every reachable state in which all
  waiting callbacks belong to connections still in the map of the endpoint, these connections are ready to be flushed
  (ngtcp2 gives them a packet size and a quantum, and the loop has the fuel), queued packets have the size of a datagram
  and the stream queues fit in memory, all callbacks are run to their end, without failing an assertion or touching a
  destroyed object, and the invariant of the loop holds again.
\<close>

theorem write_event_returns:
  assumes "loop_ok P live" and "(loop_step P)\<^sup>*\<^sup>* (loop_init, os0) (lp, os)" and "heaps_ok (lp_ep lp)"
    and "list_all (waiter_ready P (lp_ep lp)) (lp_waiters lp)"
  shows "\<exists>lp' os'. write_event P now start lp os = Some (Inr (lp', os')) \<and> loop_inv P live [] lp'"
proof -
  let ?lp = "lp\<lparr>lp_waiters := [], lp_wev := False\<rparr>"
  from loop_reach_inv [OF assms(1,2)] have inv: "loop_inv P live [] lp" by simp
  then have "loop_inv P live (lp_waiters lp) ?lp" by (simp add: loop_inv_def)
  from run_waiters_returns [OF assms(1) this, of now start os] assms(3,4) obtain lp' os' where
    "write_event P now start lp os = Some (Inr (lp', os'))" by (auto simp: write_event_def)
  with write_event_inv [OF assms(1) inv assms(3)] show ?thesis by blast
qed

section \<open>Instances\<close>

text \<open>
  An ngtcp2 that has one datagram to write and drops the connection with the first packet it reads, on a socket
  that takes nothing until it becomes free: a connection is made, its io event leaves the datagram behind, a
  packet arrives.
\<close>

definition switch_env :: "bool udp_env" where
  "switch_env = \<lparr>ue_socket = True, ue_max_batch = MAX_BATCH Send_MMSG,
     ue_send = (\<lambda>is_free sizes. Some (Inr (if is_free then (Io_errno 0, length sizes) else (Io_errno EAGAIN, 0), is_free)))\<rparr>"

lemma switch_env_ok: "env_ok switch_env"
  by (auto simp: env_ok_def switch_env_def MAX_BATCH_def utils_consts sender_promise_def io_failure_def)

definition drop_ng :: "nat ngtcp2" where
  "drop_ng = sample_ng\<lparr>ng_open_bidi_stream := (\<lambda>g. (None, g)),
     ng_writev_stream := (\<lambda>req g. if g = 0 \<and> 0 < wr_destlen req then (Wrote [7] (- 1) 0, 1) else (Wrote [] (- 1) 0, g)),
     ng_read_pkt := (\<lambda>pkt ts g. ([], NG_DROP_CONN, g))\<rparr>"

definition drop_buf :: bytes where
  "drop_buf = replicate (NGTCP2_MAX_PMTUD_UDP_PAYLOAD_SIZE * DATAGRAM_BATCH_SIZE) 0"

definition drop_sizes :: "nat list" where
  "drop_sizes = replicate DATAGRAM_BATCH_SIZE 0"

definition drop_env :: "(nat, bool) loop_env" where
  "drop_env = \<lparr>le_pk = sample_pk\<lparr>pk_tls := (\<lambda>b g. Inr g), pk_junk := drop_buf, pk_junk_sizes := drop_sizes\<rparr>,
     le_ng = drop_ng, le_app = life_app, le_other = (\<lambda>_ _ _. []), le_held = (\<lambda>_. False), le_udp = switch_env, le_fuel = Suc (Suc (Suc 17))\<rparr>"

lemma drop_lengths [simp]:
  "length drop_buf = NGTCP2_MAX_PMTUD_UDP_PAYLOAD_SIZE * DATAGRAM_BATCH_SIZE" "length drop_sizes = DATAGRAM_BATCH_SIZE"
  by (simp_all add: drop_buf_def drop_sizes_def)

lemma drop_env_ok: "loop_ok drop_env (\<lambda>g. {})"
proof -
  have "writev_ok drop_ng" by (simp add: writev_ok_def drop_ng_def Suc_le_eq)
  moreover have "ids_ok drop_ng (\<lambda>g. {})" by (simp add: ids_ok_def drop_ng_def)
  moreover have "read_ok drop_ng (\<lambda>g. {})" by (simp add: read_ok_def drop_ng_def)
  ultimately show ?thesis by (simp add: loop_ok_def drop_env_def switch_env_ok)
qed

abbreviation drop_key :: bytes where
  "drop_key \<equiv> replicate 20 9"

definition drop_conn :: "nat connection" where
  "drop_conn = io_ready (conn_fresh 0 sample_ctx OUTBOUND (cid_random drop_key) (sample_cid 1) any_path drop_buf drop_sizes)"

definition drop_conn1 :: "nat connection" where
  "drop_conn1 = drop_conn\<lparr>cn_ng := 1, batch := \<lparr>sb_buf = 7 # drop 1 drop_buf, sb_sizes = drop_sizes[0 := 1], sb_n = 1\<rparr>,
     io_trigger := False, write_waits := 1, sent_counter := 1\<rparr>"

definition drop_loop :: "nat connection \<Rightarrow> waiter list \<Rightarrow> nat ep_loop" where
  "drop_loop c ws = \<lparr>lp_ep = ep_init\<lparr>outbound_ctx := Some sample_ctx, conns := [(drop_key, Some c)]\<rparr>, lp_waiters = ws, lp_wev = (ws \<noteq> [])\<rparr>"

lemma drop_turn_connect:
  "loop_turn drop_env 5 (\<lambda>_. 0) [drop_key] (Ev_connect any_path (Inr sample_ctx) (sample_cid 1)) loop_init False =
     Some (Inr (drop_loop drop_conn [], False))"
  by (simp add: loop_init_def connect_def drop_env_def ep_init_def cid_key_def cid_random_def NGTCP2_MAX_CIDLEN_def pk_make_conn_def make_conn_def
      conn_construct_def conn_init_def sample_pk_def absorb_def drop_loop_def drop_conn_def)

lemma drop_ng_fields:
  "ng_max_tx_udp_payload_size drop_ng g = 1200" "ng_send_quantum drop_ng g = 12000" "ng_get_expiry drop_ng g = - 1"
  "ng_update_pkt_tx_time drop_ng ts g = g" "ng_read_pkt drop_ng pkt ts g = ([], NG_DROP_CONN, g)" "ng_in_closing_period drop_ng g = False"
  "ng_writev_stream drop_ng req g =
     (if g = 0 \<and> 0 < wr_destlen req then (Wrote [7] (- 1) 0, 1) else (Wrote [] (- 1) 0, g))"
  by (simp_all add: drop_ng_def sample_ng_def)

lemma drop_conn_fields:
  "cn_ng drop_conn = 0" "batch drop_conn = \<lparr>sb_buf = drop_buf, sb_sizes = drop_sizes, sb_n = 0\<rparr>" "streams drop_conn = []"
  "heap drop_conn = []" "send_ecn drop_conn = 0" "write_waits drop_conn = 0" "sent_counter drop_conn = 0" "retransmit_timer drop_conn = None"
  "cn_source_cid drop_conn = cid_random drop_key" "io_trigger drop_conn" "draining drop_conn = False" "closing drop_conn = False"
  by (simp_all add: drop_conn_def io_ready_def conn_fresh_def)

lemma drop_batch_send:
  "conn_send switch_env (drop_conn\<lparr>cn_ng := 1, batch := \<lparr>sb_buf = 7 # drop 1 drop_buf, sb_sizes = drop_sizes[0 := 1], sb_n = 1\<rparr>,
     io_trigger := False\<rparr>) False = Some (Inr (False, False, drop_conn1, False))"
proof -
  have "take 1 (drop_sizes[0 := 1]) = [1]" by (simp add: drop_sizes_def DATAGRAM_BATCH_SIZE_def numeral_eq_Suc)
  then show ?thesis
    by (simp add: conn_send_def n_packets_def switch_env_def MAX_BATCH_def utils_consts send_packets_def
        drop_conn1_def drop_conn_fields Let_def)
qed

lemma drop_io: "io_event (Suc (Suc (Suc n))) drop_ng switch_env 0 5 drop_conn False = Some (Inr (drop_conn1, False))"
proof -
  let ?c = "drop_conn\<lparr>io_trigger := False\<rparr>"
  let ?d = "drop_conn\<lparr>cn_ng := 1, batch := \<lparr>sb_buf = 7 # drop 1 drop_buf, sb_sizes = drop_sizes[0 := 1], sb_n = 1\<rparr>, io_trigger := False\<rparr>"
  define st0 where "st0 = flush_start 0 ?c False"
  define st1 where "st1 = st0\<lparr>fl_conn := ?d, fl_pos := 1, fl_packets := 1, fl_made := [[7]]\<rparr>"
  have s0: "st0 = \<lparr>fl_conn = ?c, fl_os = False, fl_strs = [None], fl_pos = 0, fl_packets = 0,
      fl_cancelled = False, fl_made = [], fl_handed = []\<rparr>"
    by (simp add: st0_def flush_start_def flush_order_def drop_conn_fields)
  have "unat (10 :: u64) = 10" by simp
  then have k: "max_stream_packets drop_ng ?c = 10" by (simp add: max_stream_packets_def drop_ng_fields)
  have one: "flush_step drop_ng switch_env 10 5 st0 = Some (Inr (Next st1))"
    by (simp add: st1_def s0 flush_step_def flush_write_def drop_ng_fields drop_conn_fields utils_consts Let_def flush_packet_def
        add_datagram_def n_packets_def switch_env_def MAX_BATCH_def flush_requeue_def)
  have two: "flush_step drop_ng switch_env 10 5 st1 = Some (Inr (Next (st1\<lparr>fl_strs := []\<rparr>)))"
    by (simp add: st1_def s0 flush_step_def flush_write_def drop_ng_fields drop_conn_fields utils_consts Let_def)
  have loop: "flush_loop (Suc (Suc (Suc n))) drop_ng switch_env 10 5 st0 = Some (Inr (Leave_loop (st1\<lparr>fl_strs := []\<rparr>)))"
    using one two by (simp add: st1_def s0)
  show ?thesis
    unfolding io_event_def on_io_ready_def flush_streams_def k st0_def [symmetric] loop
    by (simp add: drop_ng_fields n_packets_def drop_conn_fields flush_done_def st1_def s0 flush_send_def drop_batch_send [unfolded One_nat_def]
        schedule_retransmit_def) (simp add: drop_conn1_def drop_conn_fields)
qed

lemma drop_turn_io:
  "loop_turn drop_env 5 (\<lambda>_. 0) [] (Ev_io drop_key) (drop_loop drop_conn []) False = Some (Inr (drop_loop drop_conn1 [Retry drop_key], False))"
  using drop_io [of 17]
  by (simp add: drop_loop_def find_conn_def drop_conn_fields drop_env_def absorb_def put_conn_def lp_when_writeable_def drop_conn1_def
      cid_key_def cid_random_def NGTCP2_MAX_CIDLEN_def ep_init_def)

lemma drop_turn_packet:
  "\<exists>lp. loop_turn drop_env 6 (\<lambda>_. 0) [] (Ev_packet drop_key (sample_pkt 9)) (drop_loop drop_conn1 [Retry drop_key]) False =
     Some (Inr (lp, False)) \<and> find_conn drop_key (lp_ep lp) = None \<and> lp_waiters lp = [Gone drop_key]"
  by (simp add: handle_packet_app_def handle_packet_def handle_packet_connid_def drop_env_def sample_pk_def sample_pkt_def NGTCP2_MAX_CIDLEN_def cid_make_def
      get_conn_def cid_key_def drop_loop_def ep_init_def handle_conn_packet_def drop_ng_fields read_packet_def conn_read_pkt_def
      delete_connection_def put_conn_def drop_conn1_def drop_conn_fields cid_random_def assoc_erase_def find_conn_def mark_waiter_def)

lemma drop_heaps: "heaps_ok (lp_ep (drop_loop c ws))" if "heap c = []" "streams c = []"
  using that by (auto simp: heaps_ok_def drop_loop_def find_conn_def heap_ok_def split: if_splits)

lemma drop_reach: "(loop_step drop_env)\<^sup>*\<^sup>* (loop_init, False) (drop_loop drop_conn1 [Retry drop_key], False)"
proof -
  have "loop_step drop_env (loop_init, False) (drop_loop drop_conn [], False)"
    by (rule turn [OF _ _ drop_turn_connect])
      (simp_all add: heaps_ok_def loop_init_def ep_init_def find_conn_def rnd_ok_def NGTCP2_MAX_CIDLEN_def)
  moreover have "loop_step drop_env (drop_loop drop_conn [], False) (drop_loop drop_conn1 [Retry drop_key], False)"
    by (rule turn [OF drop_heaps _ drop_turn_io]) (simp_all add: drop_conn_fields rnd_ok_def)
  ultimately show ?thesis by (blast intro: converse_rtranclp_into_rtranclp)
qed

lemma drop_found: "find_conn drop_key (lp_ep (drop_loop c ws)) = Some c"
  by (simp add: find_conn_def drop_loop_def)

theorem blocked_connections_registered_witness:
  "n_packets drop_conn1 = 1 \<and> count_list (lp_waiters (drop_loop drop_conn1 [Retry drop_key])) (Retry drop_key) = 1"
  using blocked_connections_registered [OF drop_env_ok drop_reach drop_found] by (simp add: n_packets_def drop_conn1_def)

theorem deleted_while_blocked_witness:
  "\<exists>lp. loop_turn drop_env 6 (\<lambda>_. 0) [] (Ev_packet drop_key (sample_pkt 9)) (drop_loop drop_conn1 [Retry drop_key]) False = Some (Inr (lp, False)) \<and>
     lp_wev lp \<and> write_event drop_env 7 (\<lambda>_. 0) lp False = Some (Inl Use_of_destroyed_object)"
proof -
  obtain lp where lp: "loop_turn drop_env 6 (\<lambda>_. 0) [] (Ev_packet drop_key (sample_pkt 9)) (drop_loop drop_conn1 [Retry drop_key]) False =
      Some (Inr (lp, False))" "find_conn drop_key (lp_ep lp) = None" "lp_waiters lp = [Gone drop_key]"
    using drop_turn_packet by blast
  have "0 < n_packets drop_conn1" "\<not> le_held drop_env drop_key" by (simp_all add: n_packets_def drop_conn1_def drop_env_def)
  from deleted_while_blocked [OF drop_env_ok drop_reach drop_found this _ lp(1,2), of 7 "\<lambda>_. 0" False] lp show ?thesis
    by (auto simp: append_eq_Cons_conv Cons_eq_append_conv)
qed

lemma drop_blocked_ready:
  "heaps_ok (lp_ep (drop_loop drop_conn1 [Retry drop_key]))"
  "list_all (waiter_ready drop_env (lp_ep (drop_loop drop_conn1 [Retry drop_key]))) (lp_waiters (drop_loop drop_conn1 [Retry drop_key]))"
proof -
  show "heaps_ok (lp_ep (drop_loop drop_conn1 [Retry drop_key]))"
    by (rule drop_heaps) (simp_all add: drop_conn1_def drop_conn_fields)
  have "unat (10 :: u64) = 10" by simp
  then have "flush_ready drop_env drop_conn1"
    by (simp add: flush_ready_def drop_env_def drop_ng_fields max_stream_packets_def drop_conn1_def drop_conn_fields)
  then show "list_all (waiter_ready drop_env (lp_ep (drop_loop drop_conn1 [Retry drop_key]))) (lp_waiters (drop_loop drop_conn1 [Retry drop_key]))"
    using drop_found [of drop_conn1 "[Retry drop_key]"] by (simp add: waiter_ready_def drop_loop_def)
qed

theorem write_event_returns_witness:
  "\<exists>lp' os'. write_event drop_env 7 (\<lambda>_. 0) (drop_loop drop_conn1 [Retry drop_key]) False = Some (Inr (lp', os')) \<and>
     loop_inv drop_env (\<lambda>g. {}) [] lp'"
  by (rule write_event_returns [OF drop_env_ok drop_reach drop_blocked_ready])

end
