(* ===== verification/Quic_Unblock.thy ===== *)
theory Quic_Unblock
  imports Quic_Loop
begin

text \<open>
  What a write event achieves: once the socket takes what it is given, every connection of the endpoint gets its
  waiting packets out, and what it flushes afterwards too.
\<close>

section \<open>A socket that has become free\<close>

text \<open>While \<open>free\<close> holds of the kernel's state, it takes every packet or fails for good, and \<open>free\<close> goes on to hold.\<close>

definition frees :: "'os udp_env \<Rightarrow> ('os \<Rightarrow> bool) \<Rightarrow> bool" where
  "frees env free \<longleftrightarrow> (\<forall>os sizes r n os'. free os \<and> ue_send env os sizes = Some (Inr ((r, n), os')) \<longrightarrow>
     free os' \<and> \<not> io_blocked r \<and> (io_failure r \<or> n = length sizes))"

definition batch_fits :: "'ng connection \<Rightarrow> bool" where
  "batch_fits c \<longleftrightarrow> sb_n (batch c) \<le> length (sb_sizes (batch c))"

lemma send_packets_free:
  assumes "frees env free" and "free os" and "sb_n b \<le> length (sb_sizes b)"
    and "send_packets True mb (ue_send env) b os = Some (Inr (rv, b', os'))"
  shows "free os' \<and> \<not> io_blocked rv \<and> sb_n b' = 0"
proof -
  from assms(4) obtain r n where s: "ue_send env os (take (sb_n b) (sb_sizes b)) = Some (Inr ((r, n), os'))"
    by (auto simp: send_packets_def split: if_splits option.splits sum.splits)
  with assms(1,2) have "free os'" "\<not> io_blocked r" "io_failure r \<or> n = length (take (sb_n b) (sb_sizes b))"
    unfolding frees_def by blast+
  with s assms(3,4) show ?thesis by (auto simp: send_packets_def split: if_splits)
qed

lemma conn_send_free:
  assumes "frees env free" and "ue_socket env" and "free os" and "batch_fits c"
    and "conn_send env c os = Some (Inr (ok, cancel, c', os'))"
  shows "n_packets c' = 0 \<and> write_waits c' = write_waits c \<and> free os'"
proof -
  from assms(2,5) obtain rv b' where sp: "send_packets True (ue_max_batch env) (ue_send env) (batch c) os = Some (Inr (rv, b', os'))"
    by (auto simp: conn_send_def Let_def split: if_splits option.splits sum.splits)
  from send_packets_free [OF assms(1,3) _ sp] assms(4) have "free os'" "\<not> io_blocked rv" "sb_n b' = 0"
    by (simp_all add: batch_fits_def)
  with sp assms(2,5) show ?thesis by (auto simp: conn_send_def n_packets_def Let_def split: if_splits)
qed

section \<open>Flushing into a free socket\<close>

definition flush_free :: "('os \<Rightarrow> bool) \<Rightarrow> nat \<Rightarrow> ('ng, 'os) flush \<Rightarrow> bool" where
  "flush_free free w st \<longleftrightarrow> free (fl_os st) \<and> batch_fits (fl_conn st) \<and> write_waits (fl_conn st) = w"

definition next_free :: "('os \<Rightarrow> bool) \<Rightarrow> nat \<Rightarrow> ('ng, 'os) flush_next \<Rightarrow> bool" where
  "next_free free w x = (case x of
     Next st \<Rightarrow> flush_free free w st | Leave_loop st \<Rightarrow> flush_free free w st
   | Return st \<Rightarrow> flush_free free w st \<and> n_packets (fl_conn st) = 0)"

lemma next_free_simps [simp]:
  "next_free free w (Next st) = flush_free free w st" "next_free free w (Leave_loop st) = flush_free free w st"
  "next_free free w (Return st) = (flush_free free w st \<and> n_packets (fl_conn st) = 0)"
  by (simp_all add: next_free_def)

lemma flush_send_free:
  assumes "frees env free" and "ue_socket env" and "flush_free free w st" and "flush_send env st = Some (Inr (ok, st'))"
  shows "flush_free free w st' \<and> n_packets (fl_conn st') = 0"
proof -
  from assms(4) obtain cancel c os where s: "conn_send env (fl_conn st) (fl_os st) = Some (Inr (ok, cancel, c, os))"
    and st': "fl_conn st' = c" "fl_os st' = os"
    by (auto simp: flush_send_def split: option.splits sum.splits)
  from conn_send_free [OF assms(1,2) _ _ s] assms(3) have "n_packets c = 0" "write_waits c = w" "free os"
    by (simp_all add: flush_free_def)
  then show ?thesis by (simp add: flush_free_def st' batch_fits_def n_packets_def)
qed

lemma flush_free_put [simp]:
  "flush_free free w (st\<lparr>fl_strs := xs, fl_conn := put_stream r s (fl_conn st)\<rparr>) = flush_free free w st"
  by (simp add: flush_free_def put_stream_def batch_fits_def)

lemma flush_free_ng [simp]:
  "flush_free free w (st\<lparr>fl_conn := (fl_conn st)\<lparr>cn_ng := g\<rparr>\<rparr>) = flush_free free w st"
  "flush_free free w (st\<lparr>fl_conn := stream_wrote stream n ((fl_conn st)\<lparr>cn_ng := g\<rparr>)\<rparr>) = flush_free free w st"
  "flush_free free w (st\<lparr>fl_strs := xs\<rparr>) = flush_free free w st"
  "flush_free free w (st\<lparr>fl_pos := i\<rparr>) = flush_free free w st"
  by (simp_all add: flush_free_def batch_fits_def stream_wrote_def put_stream_def split: option.splits)

lemma flush_requeue_free:
  "flush_requeue k stream st = Inr x \<Longrightarrow> flush_free free w st \<Longrightarrow> next_free free w x"
  by (auto simp: flush_requeue_def split: if_splits option.splits)

lemma flush_packet_free:
  assumes "frees env free" and "ue_socket env" and "flush_free free w st"
    and "flush_packet env k stream pkt ecn st = Some (Inr x)"
  shows "next_free free w x"
proof -
  let ?st1 = "st\<lparr>fl_conn := (fl_conn st)\<lparr>batch := add_datagram (fl_pos st) pkt (batch (fl_conn st)), send_ecn := ecn\<rparr>,
      fl_pos := fl_pos st + length pkt, fl_packets := fl_packets st + 1, fl_made := fl_made st @ [pkt]\<rparr>"
  from assms(4) have room: "\<not> length (sb_sizes (batch (fl_conn st))) \<le> sb_n (batch (fl_conn st))"
    by (auto simp: flush_packet_def Let_def split: if_splits)
  then have 1: "flush_free free w ?st1"
    using assms(3) by (simp add: flush_free_def batch_fits_def add_datagram_def)
  show ?thesis
  proof (cases "n_packets (fl_conn ?st1) = ue_max_batch env")
    case False
    with assms(4) room have "flush_requeue k stream ?st1 = Inr x" by (simp add: flush_packet_def Let_def)
    from flush_requeue_free [OF this 1] show ?thesis .
  next
    case True
    with assms(4) room obtain ok st2 where s: "flush_send env ?st1 = Some (Inr (ok, st2))"
      and x: "if ok then flush_requeue k stream (st2\<lparr>fl_pos := 0\<rparr>) = Inr x else x = Return st2"
      by (auto simp: flush_packet_def Let_def split: if_splits option.splits sum.splits)
    from flush_send_free [OF assms(1,2) 1 s] have "flush_free free w st2" "n_packets (fl_conn st2) = 0" by simp_all
    with x flush_requeue_free [of k stream "st2\<lparr>fl_pos := 0\<rparr>" x free w] show ?thesis
      by (auto split: if_splits)
  qed
qed

lemma flush_write_free:
  assumes "frees env free" and "ue_socket env" and "flush_free free w st"
    and "flush_write ng env k ts stream fin bufs st = Some (Inr x)"
  shows "next_free free w x"
  using assms(3,4)
  by (auto simp: flush_write_def Let_def elim!: flush_packet_free [OF assms(1,2), rotated]
      split: if_splits prod.splits write_res.splits)

lemma flush_step_free:
  assumes "frees env free" and "ue_socket env" and "flush_free free w st"
    and "flush_step ng env k ts st = Some (Inr x)"
  shows "next_free free w x"
  using assms(3,4)
  by (auto simp: flush_step_def Let_def elim!: flush_write_free [OF assms(1,2), rotated] split: if_splits option.splits sum.splits)

lemma flush_loop_free:
  assumes "frees env free" and "ue_socket env"
  shows "flush_loop fuel ng env k ts st = Some (Inr x) \<Longrightarrow> flush_free free w st \<Longrightarrow> next_free free w x"
proof (induction fuel arbitrary: st)
  case (Suc fuel)
  show ?case
  proof (cases "fl_strs st = []")
    case True
    with Suc.prems show ?thesis by auto
  next
    case False
    with Suc.prems obtain y where y: "flush_step ng env k ts st = Some (Inr y)"
      by (auto split: option.splits sum.splits)
    from flush_step_free [OF assms Suc.prems(2) y] Suc y False show ?thesis
      by (cases y) auto
  qed
qed simp

lemma flush_streams_free:
  assumes "frees env free" and "ue_socket env" and "free os" and "n_packets c = 0"
    and "flush_streams fuel ng env start ts c os = Some (Inr st)"
  shows "n_packets (fl_conn st) = 0 \<and> write_waits (fl_conn st) = write_waits c \<and> free (fl_os st)"
proof -
  let ?st0 = "flush_start start c os" and ?w = "write_waits c"
  have 0: "flush_free free ?w ?st0"
    using assms(3,4) by (simp add: flush_free_def flush_start_def batch_fits_def n_packets_def)
  from assms(4,5) obtain x where x: "flush_loop fuel ng env (max_stream_packets ng c) ts ?st0 = Some (Inr x)"
    by (auto simp: flush_streams_def split: if_splits option.splits sum.splits)
  have fin: "n_packets (fl_conn (flush_done ng ts st1)) = n_packets (fl_conn st1)"
    "write_waits (fl_conn (flush_done ng ts st1)) = write_waits (fl_conn st1)" "fl_os (flush_done ng ts st1) = fl_os st1" for st1
    by (simp_all add: flush_done_def n_packets_def)
  note x0 = flush_loop_free [OF assms(1,2) x 0]
  show ?thesis
  proof (cases x)
    case (Next st1)
    with x assms(4,5) show ?thesis by (auto simp: flush_streams_def split: if_splits)
  next
    case (Return st1)
    with x assms(4,5) have "st = flush_done ng ts st1" by (auto simp: flush_streams_def split: if_splits)
    with x0 Return show ?thesis by (simp add: flush_free_def fin)
  next
    case (Leave_loop st1)
    show ?thesis
    proof (cases "0 < n_packets (fl_conn st1)")
      case True
      with x assms(4,5) Leave_loop obtain ok st2 where s2: "flush_send env st1 = Some (Inr (ok, st2))" and st: "st = flush_done ng ts st2"
        by (auto simp: flush_streams_def split: if_splits option.splits sum.splits)
      from x0 Leave_loop have "flush_free free ?w st1" by simp
      from flush_send_free [OF assms(1,2) this s2] show ?thesis by (simp add: flush_free_def fin st)
    next
      case False
      with x assms(4,5) Leave_loop have "st = flush_done ng ts st1" by (auto simp: flush_streams_def split: if_splits)
      with x0 Leave_loop False show ?thesis by (simp add: flush_free_def fin)
    qed
  qed
qed

lemma writeable_free:
  assumes "frees env free" and "ue_socket env" and "free os" and "batch_fits c"
    and "writeable_event fuel ng env start ts c os = Some (Inr (c', os'))"
  shows "n_packets c' = 0 \<and> write_waits c' = write_waits c - 1 \<and> free os'"
proof -
  let ?c = "c\<lparr>write_waits := write_waits c - 1\<rparr>"
  have timer: "n_packets (schedule_retransmit ng ts d) = n_packets d" "write_waits (schedule_retransmit ng ts d) = write_waits d" for d
    by (simp_all add: schedule_retransmit_def n_packets_def Let_def)
  from assms(5) obtain ok cancel c1 os1 where s: "conn_send env ?c os = Some (Inr (ok, cancel, c1, os1))"
    by (auto simp: writeable_event_def split: option.splits sum.splits)
  have "batch_fits ?c" using assms(4) by (simp add: batch_fits_def)
  from conn_send_free [OF assms(1-3) this s] have 1: "n_packets c1 = 0" "write_waits c1 = write_waits c - 1" "free os1" by simp_all
  show ?thesis
  proof (cases ok)
    case True
    with s assms(5) obtain st where "flush_streams fuel ng env start ts c1 os1 = Some (Inr st)"
      "c' = schedule_retransmit ng ts (fl_conn st)" "os' = fl_os st"
      by (auto simp: writeable_event_def on_io_ready_def split: option.splits sum.splits)
    with flush_streams_free [OF assms(1,2) 1(3,1)] 1(2) show ?thesis by (simp add: timer)
  next
    case False
    with s assms(5) 1 show ?thesis by (simp add: writeable_event_def)
  qed
qed

section \<open>The write event of a free socket\<close>

lemma ep_send_free:
  assumes "frees env free" and "ue_socket env" and "free os" and "ep_send_packet env p buf cb ep os = Some (Inr (ep', os'))"
  shows "waiting ep' = waiting ep \<and> free os'"
proof -
  let ?b = "\<lparr>sb_buf = buf, sb_sizes = [length buf], sb_n = 1\<rparr>"
  from assms(2,4) obtain rv b' os1 where sp: "send_packets True (ue_max_batch env) (ue_send env) ?b os = Some (Inr (rv, b', os1))"
    and q: "send_or_queue_packet (ue_socket env) (ue_max_batch env) (ue_send env) buf (cb \<noteq> None) os = Some (Inr (io_blocked rv, [], os1))"
    by (auto simp: ep_send_packet_def send_or_queue_packet_def split: option.splits sum.splits elim!: obind_InrE)
  from send_packets_free [OF assms(1,3) _ sp] have "free os1" "\<not> io_blocked rv" by simp_all
  with q assms(4) show ?thesis by (auto simp: ep_send_packet_def Let_def)
qed

lemma run_waiter_free:
  assumes f: "frees (le_udp P) free" and P: "loop_ok P live" and "free os" and inv: "loop_inv P live (w # ws) lp" and "lp_waiters lp = []"
    and ready: "waiter_ready P (lp_ep lp) w" and r: "run_waiter P now start w lp os = Some (Inr (lp', os'))"
  shows "lp_waiters lp' = [] \<and> free os'"
proof -
  from P have sock: "ue_socket (le_udp P)" by (simp add: loop_ok_def env_ok_def)
  from inv have wait: "waiting (lp_ep lp) = []"
    and ro: "retries_ok (le_udp P) live (w # ws @ lp_waiters lp) (lp_ep lp)" by (simp_all add: loop_inv_def)
  show ?thesis
  proof (cases w)
    case (Gone k)
    with ready show ?thesis by (simp add: waiter_ready_def)
  next
    case (Resend p buf cb)
    with r assms(5) wait ep_send_free [OF f sock assms(3)] show ?thesis
      by (fastforce simp: run_waiter_def elim!: obind_InrE)
  next
    case (Retry k)
    with r obtain c c' where at: "find_conn k (lp_ep lp) = Some c"
      and we: "writeable_event (le_fuel P) (le_ng P) (le_udp P) (start k) now c os = Some (Inr (c', os'))"
      and lp': "lp' = absorb (put_conn c' (lp_ep lp)) (replicate (write_waits c' - (write_waits c - 1)) (Retry k)) lp"
      by (auto simp: run_waiter_def elim!: obind_InrE split: option.splits)
    have "batch_fits c"
      using retries_okD(3) [OF ro at] by (simp add: conn_inv_def send_inv_def conn_batch_ok_def batch_fits_def)
    from writeable_free [OF f sock assms(3) this we] assms(5) wait show ?thesis
      by (simp add: lp' put_conn_def)
  qed
qed

lemma run_waiters_free:
  assumes f: "frees (le_udp P) free" and P: "loop_ok P live"
  shows "loop_inv P live ws lp \<Longrightarrow> heaps_ok (lp_ep lp) \<Longrightarrow> free os \<Longrightarrow> lp_waiters lp = [] \<Longrightarrow>
    list_all (waiter_ready P (lp_ep lp)) ws \<Longrightarrow> run_waiters P now start ws lp os = Some (Inr (lp', os')) \<Longrightarrow> lp_waiters lp' = []"
proof (induction "length ws" arbitrary: ws lp os)
  case (Suc n)
  then obtain w ws' where ws: "ws = w # ws'" by (cases ws) auto
  with Suc.prems(6) obtain lp1 os1 where w: "run_waiter P now start w lp os = Some (Inr (lp1, os1))"
    and r: "run_waiters P now start (map (mark_waiter (lp_ep lp1)) ws') lp1 os1 = Some (Inr (lp', os'))"
    by (auto elim!: obind_InrE)
  note 1 = run_waiter_inv [OF P Suc.prems(1,2) [unfolded ws] w]
  have "waiter_ready P (lp_ep lp) w" using Suc.prems(5) ws by simp
  note 2 = run_waiter_free [OF f P Suc.prems(3,1) [unfolded ws] Suc.prems(4) this w]
  from run_waiter_returns [OF P Suc.prems(1,2,5) [unfolded ws], of now start os] w
  have 3: "list_all (waiter_ready P (lp_ep lp1)) (map (mark_waiter (lp_ep lp1)) ws')" by auto
  have "n = length (map (mark_waiter (lp_ep lp1)) ws')" using Suc.hyps(2) ws by simp
  from Suc.hyps(1) [OF this 1 [THEN conjunct1] 1 [THEN conjunct2] 2 [THEN conjunct2] 2 [THEN conjunct1] 3 r] show ?case .
qed simp

text \<open>
  C13: One write event is enough once the socket is free.  In a reachable state in which all waiting callbacks belong to
  connections still in the map of the endpoint, these connections are ready to be flushed, queued packets have the size of a
  datagram and the stream queues fit in memory: if from then on the kernel takes everything it is given (or fails for
  good), then the event returns, and after it no callback waits and no connection of the endpoint has unsent packets,
  however many connections were blocked and whatever they produced in the meantime.
\<close>

theorem write_event_unblocks:
  assumes "loop_ok P live" and "(loop_step P)\<^sup>*\<^sup>* (loop_init, os0) (lp, os1)" and "heaps_ok (lp_ep lp)"
    and "list_all (waiter_ready P (lp_ep lp)) (lp_waiters lp)" and "frees (le_udp P) free" and "free os"
  shows "\<exists>lp' os'. write_event P now start lp os = Some (Inr (lp', os')) \<and> lp_waiters lp' = [] \<and>
    (\<forall>k c. find_conn k (lp_ep lp') = Some c \<longrightarrow> n_packets c = 0)"
proof -
  let ?lp = "lp\<lparr>lp_waiters := [], lp_wev := False\<rparr>"
  from loop_reach_inv [OF assms(1,2)] have inv: "loop_inv P live [] lp" by simp
  then have inv': "loop_inv P live (lp_waiters lp) ?lp" by (simp add: loop_inv_def)
  from run_waiters_returns [OF assms(1) this, of now start os] assms(3,4) obtain lp' os' where
    r: "run_waiters P now start (lp_waiters lp) ?lp os = Some (Inr (lp', os'))" by auto
  have none: "lp_waiters lp' = []" by (rule run_waiters_free [OF assms(5,1) inv' _ assms(6) _ _ r]) (simp_all add: assms(3,4))
  from write_event_inv [OF assms(1) inv assms(3), of now start os] r have "loop_inv P live [] lp'" by (simp add: write_event_def)
  then have "retries_ok (le_udp P) live [] (lp_ep lp')" by (simp add: loop_inv_def none)
  from retries_okD(2,3) [OF this] have "n_packets c = 0" if "find_conn k (lp_ep lp') = Some c" for k c
    using that by (fastforce simp: conn_inv_def send_inv_def split: if_splits)
  with r none show ?thesis by (auto simp: write_event_def)
qed

text \<open>The blocked connection of the instance, on the socket that has become free.\<close>

theorem write_event_unblocks_witness:
  "n_packets drop_conn1 = 1 \<and> (\<exists>lp' os'. write_event drop_env 7 (\<lambda>_. 0) (drop_loop drop_conn1 [Retry drop_key]) True = Some (Inr (lp', os')) \<and>
     lp_waiters lp' = [] \<and> (\<forall>k c. find_conn k (lp_ep lp') = Some c \<longrightarrow> n_packets c = 0))"
proof
  show "n_packets drop_conn1 = 1" by (simp add: n_packets_def drop_conn1_def)
  show "\<exists>lp' os'. write_event drop_env 7 (\<lambda>_. 0) (drop_loop drop_conn1 [Retry drop_key]) True = Some (Inr (lp', os')) \<and>
     lp_waiters lp' = [] \<and> (\<forall>k c. find_conn k (lp_ep lp') = Some c \<longrightarrow> n_packets c = 0)"
  proof (rule write_event_unblocks [OF drop_env_ok drop_reach drop_blocked_ready, where free = "\<lambda>b. b"])
    show "frees (le_udp drop_env) (\<lambda>b. b)" by (auto simp: frees_def drop_env_def switch_env_def utils_consts)
  qed simp
qed

end
