(* ===== verification/Quic_Threads.thy ===== *)
theory Quic_Threads
  imports Quic_Loop Quic_Network
begin

text \<open>
  The whole program with its threads: application threads call \<^verbatim>\<open>Endpoint::listen\<close>, \<^verbatim>\<open>Endpoint::connect\<close>, \<^verbatim>\<open>Stream::send\<close> and
  \<^verbatim>\<open>Stream::close\<close>, which hand a closure to \<^verbatim>\<open>Network::call\<close> and thereby to the queue of the event loop thread; that
  thread runs the closures between the events of the endpoint.  The first two calls wait for a promise their closure
  fulfils.  The threads together refine a server that takes one call after the other.
\<close>

section \<open>Jobs\<close>

text \<open>What a queued closure does: an event of the endpoint's loop, and the promise it fulfils, if any.\<close>

record job =
  job_event :: loop_event
  job_promise :: "nat option"







text \<open>
  What the promise of a call gets: \<^verbatim>\<open>true\<close> for \<^verbatim>\<open>listen\<close>, the new connection for \<^verbatim>\<open>connect\<close> (its id), or the exception.
\<close>

datatype reply = Listening | Connected bytes





section \<open>The specification\<close>

text \<open>
  A server for one endpoint: the calls that wait, in the order they were made, and the replies given.  It serves the
  first call that waits, or handles an event, one at a time.
\<close>

record ('ng, 'os) server =
  sv_lp :: "'ng ep_loop"
  sv_os :: 'os
  sv_waiting :: "job list"
  sv_replies :: "(nat \<times> reply result) list"

definition server_init :: "'os \<Rightarrow> ('ng, 'os) server" where
  "server_init os = \<lparr>sv_lp = loop_init, sv_os = os, sv_waiting = [], sv_replies = []\<rparr>"




section \<open>The threads\<close>

record ('ng, 'os) threads =
  th_net :: job_net
  th_lp :: "'ng ep_loop"
  th_os :: 'os
  th_done :: "(nat \<times> reply result) list"

definition th_init :: "'os \<Rightarrow> ('ng, 'os) threads" where
  "th_init os = \<lparr>th_net = job_net_init, th_lp = loop_init, th_os = os, th_done = []\<rparr>"



section \<open>The threads refine the server\<close>

text \<open>The calls that wait are those the loop thread took and has not run yet, then those in the queue.\<close>

definition server_of :: "(nat \<Rightarrow> job) \<Rightarrow> ('ng, 'os) threads \<Rightarrow> ('ng, 'os) server" where
  "server_of closure s = \<lparr>sv_lp = th_lp s, sv_os = th_os s,
     sv_waiting = map closure (swapped (th_net s) @ job_queue (th_net s)), sv_replies = th_done s\<rparr>"




lemma server_of_init [simp]: "server_of closure (th_init os) = server_init os"
  by (simp add: server_of_def th_init_def server_init_def job_net_init_def)

lemma jobs_inv_th_init [simp]: "jobs_inv (th_net (th_init os))"
  by (simp add: th_init_def jobs_inv_init)




section \<open>Instances\<close>





end
