(* ===== verification/Quic_Raii.thy ===== *)
theory Quic_Raii
  imports Quic_Setup Quic_Tls
begin

text \<open>
  Objects that own a resource: the UDP socket, the TLS credentials and the TLS session each acquire one in their
  constructor and release it in their destructor.  C++ runs the destructor only of an object whose constructor
  returned, so what a constructor acquired before it throws stays behind.
\<close>

section \<open>The life of an owning object\<close>

text \<open>The calls made over an object's life.\<close>

definition lifetime :: "('c, 'a) calls \<Rightarrow> ('c, unit) calls \<Rightarrow> 'c list" where
  "lifetime ctor dtor = (case snd ctor of Inl _ \<Rightarrow> fst ctor | Inr _ \<Rightarrow> fst ctor @ fst dtor)"

text \<open>Acquisitions that succeeded and were not released, \<open>ok\<close> being whether the acquiring call succeeds.\<close>

definition left_open :: "bool \<Rightarrow> 'c \<Rightarrow> 'c \<Rightarrow> 'c list \<Rightarrow> int" where
  "left_open ok acquire release cs = (if ok then int (count_list cs acquire) else 0) - int (count_list cs release)"

text \<open>
  The contract of such a constructor: it makes the calls of a plan in order, all of them when it returns; the plan
  acquires once and does not release.
\<close>

locale raii =
  fixes ctor :: "('c, 'a) calls" and dtor :: "('c, unit) calls" and plan :: "'c list" and ok :: bool and acquire release :: 'c
  assumes ctor_prefix: "\<exists>rest. plan = fst ctor @ rest" and ctor_done: "snd ctor = Inr x \<Longrightarrow> ok \<and> fst ctor = plan"
    and plan_first: "hd plan = acquire" and plan_once: "count_list plan acquire = 1"
    and plan_release: "count_list plan release = 0"
    and dtor_releases: "fst dtor = [release]"
begin

lemma ctor_counts: "count_list (fst ctor) acquire = (if fst ctor = [] then 0 else 1)" "count_list (fst ctor) release = 0"
proof -
  obtain rest where plan: "plan = fst ctor @ rest" using ctor_prefix by blast
  with plan_once plan_release have "count_list (fst ctor) acquire \<le> 1" and r: "count_list (fst ctor) release = 0" by auto
  moreover have "acquire \<in> set (fst ctor)" if "fst ctor \<noteq> []" using plan_first plan that by (cases "fst ctor") auto
  ultimately show "count_list (fst ctor) acquire = (if fst ctor = [] then 0 else 1)"
    using count_list_0_iff [of "fst ctor" acquire] by auto
  show "count_list (fst ctor) release = 0" by (rule r)
qed

text \<open>A finished object leaves nothing open; one whose constructor threw leaves open what it acquired.\<close>

lemma lifetime_open:
  "left_open ok acquire release (lifetime ctor dtor) =
     (if (\<exists>x. snd ctor = Inr x) \<or> fst ctor = [] \<or> \<not> ok then 0 else 1)"
proof (cases "snd ctor")
  case (Inl e)
  then show ?thesis by (simp add: left_open_def lifetime_def ctor_counts)
next
  case (Inr x)
  have "acquire \<noteq> release" using plan_once plan_release by auto
  with Inr ctor_done [OF Inr] plan_once plan_release show ?thesis by (simp add: left_open_def lifetime_def dtor_releases)
qed

end

section \<open>The three owners\<close>

text \<open>The socket: \<^verbatim>\<open>socket\<close> and \<^verbatim>\<open>close\<close>.\<close>

abbreviation open_call :: "address \<Rightarrow> sys_call" where
  "open_call addr \<equiv> Socket (if is_ipv6 addr then AF_INET6 else AF_INET)"

lemma socket_calls:
  "\<exists>rest. map fst (socket_plan errno sockname addr) = fst (udp_socket_new errno sockname has_callback addr) @ rest"
  "snd (udp_socket_new errno sockname has_callback addr) = Inr s \<Longrightarrow>
     errno (open_call addr) = None \<and> fst (udp_socket_new errno sockname has_callback addr) = map fst (socket_plan errno sockname addr)"
proof -
  let ?plan = "socket_plan errno sockname addr"
  have no: "udp_socket_new errno sockname False addr = ([], Inl Logic_error)" by (simp add: udp_socket_new_def)
  show "\<exists>rest. map fst ?plan = fst (udp_socket_new errno sockname has_callback addr) @ rest"
    using no socket_is_plan [of errno sockname addr] run_calls_prefix [of ?plan] by (cases has_callback) auto
  assume s: "snd (udp_socket_new errno sockname has_callback addr) = Inr s"
  with no have cb: has_callback by (cases has_callback) auto
  with s socket_is_plan [of errno sockname addr] have r: "snd (run_calls ?plan) = Inr ()" by (auto elim!: and_then_InrE)
  from r [unfolded run_calls_ok] have "errno (open_call addr) = None" by (simp add: socket_plan_def check_rv_def)
  with run_calls_all [OF r] socket_is_plan [of errno sockname addr] cb
  show "errno (open_call addr) = None \<and> fst (udp_socket_new errno sockname has_callback addr) = map fst ?plan" by simp
qed

interpretation socket: raii "udp_socket_new errno sockname has_callback addr" udp_socket_destroy
  "map fst (socket_plan errno sockname addr)" "errno (open_call addr) = None" "open_call addr" Close_socket
  for errno sockname has_callback addr
  by unfold_locales (rule socket_calls(1), erule socket_calls(2), simp_all add: socket_plan_def udp_socket_destroy_def)

text \<open>The credentials: reading the two file names may fail before any call.\<close>

definition creds_plan :: "(tls_call \<Rightarrow> int) \<Rightarrow> string \<Rightarrow> string \<Rightarrow> (tls_call \<times> fault option) list" where
  "creds_plan rv key cert =
     (let c = Set_key_file cert key (if str_tolower (path_extension key) = ''.pem'' then X509_FMT_PEM else X509_FMT_DER)
      in [(Allocate_credentials, throws rv Runtime_error Allocate_credentials), (c, throws rv Invalid_argument c)])"

lemma creds_is_plan:
  "(\<exists>e. gnutls_creds_new rv exists key cert remote ca = ([], Inl e)) \<or>
   gnutls_creds_new rv exists key cert remote ca = run_calls (creds_plan rv key cert)"
proof (cases "exists key \<and> exists cert \<and> (remote = [] \<or> exists remote)")
  case True
  have ca: "and_then (datum_copy datum_default) (datum_assign datum_default) = Inr datum_default"
    by (simp add: datum_copy_def datum_assign_def datum_default_def)
  have rc: "\<exists>d. (if remote \<noteq> [] then and_then (datum_of_string exists remote) (datum_assign datum_default) else Inr datum_default) = Inr d"
    using True by (auto simp: datum_of_string_def datum_assign_def datum_default_def)
  have ca': "(if ca \<noteq> [] then and_then (datum_copy datum_default) (datum_assign datum_default) else Inr datum_default) = Inr datum_default"
    by (simp add: ca)
  define fmt where "fmt p = (if str_tolower (path_extension p) = ''.pem'' then X509_FMT_PEM else X509_FMT_DER)" for p
  have d: "datum_of_string exists p = Inr (datum_default\<lparr>datum_path := p, datum_format := fmt p\<rparr>)" if "exists p" for p
    using that by (simp add: datum_of_string_def fmt_def)
  have no: "datum_set datum_default = False" "from_mem datum_default = False" by (simp_all add: datum_set_def datum_default_def)
  have plan: "creds_plan rv key cert = [(Allocate_credentials, throws rv Runtime_error Allocate_credentials),
      (Set_key_file cert key (fmt key), throws rv Invalid_argument (Set_key_file cert key (fmt key)))]"
    by (simp add: creds_plan_def fmt_def Let_def)
  from True rc obtain r where key: "exists key" and cert: "exists cert" and r: "(if remote \<noteq> [] then and_then (datum_of_string exists remote)
    (datum_assign datum_default) else Inr datum_default) = Inr r" by blast
  have "gnutls_creds_new rv exists key cert remote ca = run_calls (creds_plan rv key cert)"
    unfolding gnutls_creds_new_def ca' r d [OF key] d [OF cert] plan
    by (simp add: no call_bind_check throws_def) (simp add: call_check_def throws_def)
  then show ?thesis by simp
next
  case False
  then show ?thesis by (auto simp: gnutls_creds_new_def datum_of_string_def datum_default_def split: if_splits)
qed

lemma creds_calls:
  "\<exists>rest. map fst (creds_plan rv key cert) = fst (gnutls_creds_new rv exists key cert remote ca) @ rest"
  "snd (gnutls_creds_new rv exists key cert remote ca) = Inr u \<Longrightarrow>
     0 \<le> rv Allocate_credentials \<and> fst (gnutls_creds_new rv exists key cert remote ca) = map fst (creds_plan rv key cert)"
proof -
  let ?plan = "creds_plan rv key cert"
  note c = creds_is_plan [of rv exists key cert remote ca]
  show "\<exists>rest. map fst ?plan = fst (gnutls_creds_new rv exists key cert remote ca) @ rest"
    using c run_calls_prefix [of ?plan] by auto
  assume s: "snd (gnutls_creds_new rv exists key cert remote ca) = Inr u"
  with c have e: "gnutls_creds_new rv exists key cert remote ca = run_calls ?plan" by auto
  with s have r: "snd (run_calls ?plan) = Inr ()" by simp
  from r [unfolded run_calls_ok] have "0 \<le> rv Allocate_credentials" by (simp add: creds_plan_def Let_def throws_def split: if_splits)
  with run_calls_all [OF r] e
  show "0 \<le> rv Allocate_credentials \<and> fst (gnutls_creds_new rv exists key cert remote ca) = map fst ?plan" by simp
qed

interpretation creds: raii "gnutls_creds_new rv exists key cert remote ca" gnutls_creds_destroy
  "map fst (creds_plan rv key cert)" "0 \<le> rv Allocate_credentials" Allocate_credentials Free_credentials
  for rv exists key cert remote ca
  by unfold_locales (rule creds_calls(1), erule creds_calls(2), simp_all add: creds_plan_def gnutls_creds_destroy_def Let_def)

text \<open>The session.\<close>

lemma session_calls:
  "\<exists>rest. map fst (session_plan rv is_client) = fst (gnutls_session_new rv is_client) @ rest"
  "snd (gnutls_session_new rv is_client) = Inr u \<Longrightarrow>
     0 \<le> rv (Gnutls_init is_client) \<and> fst (gnutls_session_new rv is_client) = map fst (session_plan rv is_client)"
proof -
  let ?plan = "session_plan rv is_client"
  show "\<exists>rest. map fst ?plan = fst (gnutls_session_new rv is_client) @ rest"
    using run_calls_prefix [of ?plan] by (simp add: session_is_plan)
  assume "snd (gnutls_session_new rv is_client) = Inr u"
  then have r: "snd (run_calls ?plan) = Inr ()" by (simp add: session_is_plan)
  from r [unfolded run_calls_ok] have "0 \<le> rv (Gnutls_init is_client)" by (simp add: session_plan_def throws_def split: if_splits)
  with run_calls_all [OF r]
  show "0 \<le> rv (Gnutls_init is_client) \<and> fst (gnutls_session_new rv is_client) = map fst ?plan" by (simp add: session_is_plan)
qed

interpretation session: raii "gnutls_session_new rv is_client" gnutls_session_destroy
  "map fst (session_plan rv is_client)" "0 \<le> rv (Gnutls_init is_client)" "Gnutls_init is_client" Gnutls_deinit
  for rv is_client
  by unfold_locales (rule session_calls(1), erule session_calls(2), simp_all add: session_plan_def gnutls_session_destroy_def)

section \<open>What is left open\<close>

text \<open>
  C37: The socket, the credentials and the session release what they acquired when they are destroyed, but a
  constructor that throws after its first call leaves the file descriptor, the credentials or the session open
  for good.
\<close>

theorem constructors_leak_on_throw:
  "left_open (errno (open_call addr) = None) (open_call addr) Close_socket
       (lifetime (udp_socket_new errno sockname has_callback addr) udp_socket_destroy) =
     (if (\<exists>s. snd (udp_socket_new errno sockname has_callback addr) = Inr s) \<or>
         fst (udp_socket_new errno sockname has_callback addr) = [] \<or> (\<exists>e. errno (open_call addr) = Some e) then 0 else 1) \<and>
   left_open (0 \<le> rv Allocate_credentials) Allocate_credentials Free_credentials
       (lifetime (creds_make rv exists key cert remote ca) gnutls_creds_destroy) =
     (if snd (creds_make rv exists key cert remote ca) = Inr () \<or>
         fst (creds_make rv exists key cert remote ca) = [] \<or> rv Allocate_credentials < 0 then 0 else 1) \<and>
   left_open (0 \<le> rv (Gnutls_init is_client)) (Gnutls_init is_client) Gnutls_deinit
       (lifetime (make_session rv is_client) gnutls_session_destroy) =
     (if snd (make_session rv is_client) = Inr () \<or> rv (Gnutls_init is_client) < 0 then 0 else 1)"
proof (intro conjI)
  have "fst (gnutls_session_new rv is_client) \<noteq> []"
    by (simp add: session_is_plan session_plan_def throws_def)
  then show "left_open (0 \<le> rv (Gnutls_init is_client)) (Gnutls_init is_client) Gnutls_deinit
       (lifetime (make_session rv is_client) gnutls_session_destroy) =
     (if snd (make_session rv is_client) = Inr () \<or> rv (Gnutls_init is_client) < 0 then 0 else 1)"
    by (simp add: make_session_def session.lifetime_open not_le)
qed (simp_all add: socket.lifetime_open creds_make_def creds.lifetime_open not_le)

text \<open>A session whose default priorities cannot be set stays open.\<close>

theorem constructors_leak_on_throw_witness:
  "left_open True (Gnutls_init True) Gnutls_deinit
     (lifetime (make_session (\<lambda>c. if c = Set_default_priority then - 1 else 0) True) gnutls_session_destroy) = 1"
proof -
  have "snd (make_session (\<lambda>c. if c = Set_default_priority then - 1 else 0) True) \<noteq> Inr ()"
    by (simp add: make_session_def session_is_plan session_plan_def throws_def)
  with constructors_leak_on_throw [where rv = "\<lambda>c. if c = Set_default_priority then - 1 else 0" and is_client = True]
  show ?thesis by simp
qed

end
