(* ===== verification/Quic_Callbacks.thy ===== *)
theory Quic_Callbacks
  imports Quic_Setup
begin

text \<open>
  The table of callbacks a connection gives to ngtcp2, filled in by \<^verbatim>\<open>Connection::init\<close> and by the constructor, the
  functions in it, and that ngtcp2 reaches the right operation of the connection through it.
\<close>

section \<open>The table\<close>

datatype ng_slot =
    Slot_client_initial | Slot_recv_client_initial | Slot_recv_crypto_data | Slot_handshake_completed
  | Slot_encrypt | Slot_decrypt | Slot_hp_mask | Slot_recv_stream_data | Slot_acked_stream_data_offset
  | Slot_stream_open | Slot_stream_close | Slot_recv_retry | Slot_extend_max_local_streams_bidi | Slot_rand
  | Slot_get_new_connection_id | Slot_update_key | Slot_stream_reset | Slot_delete_crypto_aead_ctx
  | Slot_delete_crypto_cipher_ctx | Slot_get_path_challenge_data | Slot_version_negotiation

text \<open>A function of the crypto helper library, or one of the functions of \<^verbatim>\<open>src/connection.cpp\<close>.\<close>

datatype ng_handler =
    Crypto_helper ng_slot
  | Recv_stream_data_fn | Acked_stream_data_offset_fn | On_stream_open_fn | On_stream_close_fn | On_stream_reset_fn
  | Extend_max_local_streams_bidi_fn | Rand_fn | Get_new_connection_id_fn

definition init_callbacks :: "(ng_slot \<times> ng_handler) list" where
  "init_callbacks =
     [(Slot_recv_crypto_data, Crypto_helper Slot_recv_crypto_data), (Slot_encrypt, Crypto_helper Slot_encrypt),
      (Slot_decrypt, Crypto_helper Slot_decrypt), (Slot_hp_mask, Crypto_helper Slot_hp_mask),
      (Slot_recv_stream_data, Recv_stream_data_fn), (Slot_acked_stream_data_offset, Acked_stream_data_offset_fn),
      (Slot_stream_close, On_stream_close_fn), (Slot_extend_max_local_streams_bidi, Extend_max_local_streams_bidi_fn),
      (Slot_rand, Rand_fn), (Slot_get_new_connection_id, Get_new_connection_id_fn),
      (Slot_update_key, Crypto_helper Slot_update_key), (Slot_stream_reset, On_stream_reset_fn),
      (Slot_delete_crypto_aead_ctx, Crypto_helper Slot_delete_crypto_aead_ctx),
      (Slot_delete_crypto_cipher_ctx, Crypto_helper Slot_delete_crypto_cipher_ctx),
      (Slot_get_path_challenge_data, Crypto_helper Slot_get_path_challenge_data),
      (Slot_version_negotiation, Crypto_helper Slot_version_negotiation), (Slot_stream_open, On_stream_open_fn)]"

definition conn_callbacks :: "direction \<Rightarrow> (ng_slot \<times> ng_handler) list" where
  "conn_callbacks dir = init_callbacks @
     (case dir of
        OUTBOUND \<Rightarrow> [(Slot_client_initial, Crypto_helper Slot_client_initial), (Slot_recv_retry, Crypto_helper Slot_recv_retry)]
      | INBOUND \<Rightarrow> [(Slot_recv_client_initial, Crypto_helper Slot_recv_client_initial)])"

section \<open>The functions in it\<close>

text \<open>The random bytes ngtcp2 asks for: the result of the generator is not looked at, so \<open>dest\<close> stays as it was when it fails.\<close>

definition rand_cb :: "bytes option \<Rightarrow> bytes \<Rightarrow> bytes" where
  "rand_cb rnd dest = (case rnd of Some b \<Rightarrow> b | None \<Rightarrow> dest)"

text \<open>Calling the function of an event; \<open>None\<close> when the function is of another type.\<close>

fun run_handler ::
  "'ng ngtcp2 \<Rightarrow> app \<Rightarrow> ng_handler \<Rightarrow> ng_event \<Rightarrow> 'ng connection \<Rightarrow> (ng_rv \<times> 'ng connection) result option" where
  "run_handler ng ap Recv_stream_data_fn (Recv_stream_data fin sid data) c = Some (stream_receive ng ap sid data fin c)"
| "run_handler ng ap Acked_stream_data_offset_fn (Acked_stream_data_offset sid n) c = Some (stream_ack ng sid n c)"
| "run_handler ng ap On_stream_open_fn (Stream_open sid) c = Some (stream_opened ng ap sid c)"
| "run_handler ng ap On_stream_close_fn (Stream_close sid code) c =
     Some (and_then (stream_closed ng ap sid code c) (\<lambda>c'. Inr (NG_OK, c')))"
| "run_handler ng ap On_stream_reset_fn (Stream_reset sid code) c =
     Some (and_then (stream_closed ng ap sid code c) (\<lambda>c'. Inr (NG_OK, c')))"
| "run_handler ng ap Extend_max_local_streams_bidi_fn (Extend_max_local_streams_bidi n) c =
     Some (Inr (NG_OK, extend_max_local_streams_bidi ng c))"
| "run_handler ng ap _ _ c = None"

definition event_slot :: "ng_event \<Rightarrow> ng_slot" where
  "event_slot e =
     (case e of
        Recv_stream_data _ _ _ \<Rightarrow> Slot_recv_stream_data
      | Acked_stream_data_offset _ _ \<Rightarrow> Slot_acked_stream_data_offset
      | Stream_open _ \<Rightarrow> Slot_stream_open
      | Stream_close _ _ \<Rightarrow> Slot_stream_close
      | Stream_reset _ _ \<Rightarrow> Slot_stream_reset
      | Extend_max_local_streams_bidi _ \<Rightarrow> Slot_extend_max_local_streams_bidi)"

text \<open>The callbacks ngtcp2's documentation requires of a client and of a server.\<close>

definition required_slots :: "direction \<Rightarrow> ng_slot list" where
  "required_slots dir =
     [Slot_recv_crypto_data, Slot_encrypt, Slot_decrypt, Slot_hp_mask, Slot_rand, Slot_get_new_connection_id, Slot_update_key,
      Slot_delete_crypto_aead_ctx, Slot_delete_crypto_cipher_ctx, Slot_get_path_challenge_data, Slot_version_negotiation] @
     (case dir of OUTBOUND \<Rightarrow> [Slot_client_initial, Slot_recv_retry] | INBOUND \<Rightarrow> [Slot_recv_client_initial])"

text \<open>
  Every callback is wired up: in both directions each slot is filled at most once and every slot ngtcp2 requires
  is filled; the function ngtcp2 finds for an event about a stream has the type of that event and does to the
  connection what the model of the callbacks says.
\<close>

theorem callbacks_wired:
  "distinct (map fst (conn_callbacks dir)) \<and> set (required_slots dir) \<subseteq> fst ` set (conn_callbacks dir) \<and>
   (\<exists>f. map_of (conn_callbacks dir) (event_slot e) = Some f \<and> run_handler ng ap f e c = Some (ng_callback ng ap e c))"
  by (cases dir; cases e) (simp_all add: conn_callbacks_def init_callbacks_def required_slots_def event_slot_def)

end
