(* ===== verification/Quic_Windows.thy ===== *)
theory Quic_Windows
  imports Quic_Format Quic_Send Quic_Setup
begin

text \<open>
  The branches of \<^verbatim>\<open>src/udp.cpp\<close>, \<^verbatim>\<open>src/utils.cpp\<close> and \<^verbatim>\<open>include/quic/utils.hpp\<close> that are compiled for Windows
  (\<^verbatim>\<open>#ifdef _WIN32\<close>): the extension functions \<^verbatim>\<open>WSARecvMsg\<close> and \<^verbatim>\<open>WSASendMsg\<close> and how their pointers are obtained, the
  socket constructor, receiving and sending with them, and the texts of errors.  The Windows sender fulfils the
  contract of the other senders once it has the right function.
\<close>

section \<open>The extension functions\<close>

text \<open>The functions the socket library can return a pointer to, and the ids to ask for them.\<close>

datatype wsa_fn = Fn_recvmsg | Fn_sendmsg

datatype wsa_guid = WSAID_WSARECVMSG | WSAID_WSASENDMSG

text \<open>The two global pointers, and how many of the sockets made for asking are open.\<close>

record wsa_state =
  wsa_recv :: "wsa_fn option"
  wsa_send :: "wsa_fn option"
  tmp_socks :: nat

definition wsa_start :: wsa_state where
  "wsa_start = \<lparr>wsa_recv = None, wsa_send = None, tmp_socks = 0\<rparr>"

text \<open>
  \<^verbatim>\<open>init_wsa_bs\<close>: \<open>sock_ok\<close> is whether \<^verbatim>\<open>socket\<close> succeeds, which the code does not look at; \<open>io k g\<close> is what \<^verbatim>\<open>WSAIoctl\<close> stores when
  it is asked for \<open>g\<close> in the \<open>k\<close>-th call, \<open>None\<close> being \<^verbatim>\<open>SOCKET_ERROR\<close>.  Both calls pass \<^verbatim>\<open>&recvmsg_guid\<close>.
\<close>

definition init_wsa_bs ::
  "bool \<Rightarrow> (nat \<Rightarrow> wsa_guid \<Rightarrow> wsa_fn option) \<Rightarrow> wsa_state \<Rightarrow> wsa_state \<times> unit result" where
  "init_wsa_bs sock_ok io w =
     (if wsa_recv w \<noteq> None \<and> wsa_send w \<noteq> None then (w, Inr ())
      else let w1 = (if sock_ok then w\<lparr>tmp_socks := tmp_socks w + 1\<rparr> else w) in
        case io 0 WSAID_WSARECVMSG of
          None \<Rightarrow> (w1, Inl Runtime_error)
        | Some f \<Rightarrow>
            (let w2 = w1\<lparr>wsa_recv := Some f\<rparr> in
             case io 1 WSAID_WSARECVMSG of
               None \<Rightarrow> (w2, Inl Runtime_error)
             | Some g \<Rightarrow> (w2\<lparr>wsa_send := Some g\<rparr>, Inr ())))"

text \<open>The socket constructor: the pointers first, and the result of making the socket non-blocking is not looked at.\<close>

definition udp_socket_new_wsa ::
  "bool \<Rightarrow> (nat \<Rightarrow> wsa_guid \<Rightarrow> wsa_fn option) \<Rightarrow> (sys_call \<Rightarrow> int option) \<Rightarrow> address \<Rightarrow> bool \<Rightarrow> address \<Rightarrow> wsa_state \<Rightarrow>
   wsa_state \<times> (sys_call, udp_socket) calls" where
  "udp_socket_new_wsa sock_ok io wsa_error sockname has_callback addr w =
     (if \<not> has_callback then (w, call_lift (Inl Logic_error))
      else let (w1, r) = init_wsa_bs sock_ok io w in
       (w1,
        call_bind (call_lift r) (\<lambda>_.
        call_bind (call_check (check_rv wsa_error) (Socket (if is_ipv6 addr then AF_INET6 else AF_INET))) (\<lambda>_.
        call_bind (call_check (check_rv wsa_error) (Bind addr)) (\<lambda>_.
        call_bind (call_check (check_rv wsa_error) Getsockname) (\<lambda>_.
        call_bind (call_do Set_nonblock) (\<lambda>_.
        call_bind (call_check (check_rv wsa_error) (if is_ipv6 addr then Set_recvtclass else Set_recvtos)) (\<lambda>_.
        let s = \<lparr>us_bound = sockname, us_ecn = 0\<rparr> in
        call_bind (set_ecn s) (\<lambda>_.
        call_bind (call_do Event_add_read) (\<lambda>_. call_lift (Inr s)))))))))))"

section \<open>Packets\<close>

definition IP_ECN :: nat where "IP_ECN = 50"
definition IPV6_ECN :: nat where "IPV6_ECN = 50"

definition ecn_cmsg_wsa :: "address \<Rightarrow> cmsg \<Rightarrow> bool" where
  "ecn_cmsg_wsa remote c \<longleftrightarrow>
     (if is_ipv4 remote then cmsg_level c = IPPROTO_IP \<and> cmsg_type c = IP_ECN
      else cmsg_level c = IPPROTO_IPV6 \<and> cmsg_type c = IPV6_ECN) \<and> 0 < cmsg_len c"

definition packet_make_wsa :: "address \<Rightarrow> bytes \<Rightarrow> msg_hdr \<Rightarrow> packet result" where
  "packet_make_wsa local data hdr =
     (let remote = msg_name hdr in
      if is_ipv4 remote \<or> is_ipv6 remote
      then Inr \<lparr>pkt_path = \<lparr>path_local = local, path_remote = remote\<rparr>, pkt_data = data,
                pkt_ecn = (case find (ecn_cmsg_wsa remote) (msg_control hdr) of Some c \<Rightarrow> cmsg_byte c | None \<Rightarrow> 0)\<rparr>
      else Inl Assertion_failed)"

definition process_packet_wsa :: "address \<Rightarrow> bytes \<Rightarrow> msg_hdr \<Rightarrow> packet list result" where
  "process_packet_wsa bound payload hdr =
     (if payload = [] then Inr []
      else if msg_trunc hdr then Inr []
      else and_then (packet_make_wsa bound payload hdr) (\<lambda>p. Inr [p]))"

section \<open>Receiving\<close>

text \<open>The answers of \<^verbatim>\<open>WSARecvMsg\<close>: \<^verbatim>\<open>SOCKET_ERROR\<close> with the code of \<^verbatim>\<open>WSAGetLastError\<close>, or a datagram.\<close>

datatype wsa_answer = Wsa_error int | Wsa_msg bytes msg_hdr

fun receive_wsa_loop ::
  "address \<Rightarrow> nat \<Rightarrow> wsa_answer list \<Rightarrow> (io_result \<times> packet list \<times> nat \<times> wsa_answer list) result option" where
  "receive_wsa_loop bound cnt [] = None"
| "receive_wsa_loop bound cnt (Wsa_error e # as) =
     (if e = WSAEWOULDBLOCK then Some (Inr (Io_errno 0, [], cnt, as))
      else Some (Inr (Io_wsa e, [], cnt, as)))"
| "receive_wsa_loop bound cnt (Wsa_msg data hdr # as) =
     (case process_packet_wsa bound data hdr of
        Inl f \<Rightarrow> Some (Inl f)
      | Inr ps \<Rightarrow>
          (let cnt' = cnt + 1 in
           if cnt' < MAX_RECEIVE_PER_LOOP
           then map_option (\<lambda>r. and_then r (\<lambda>(res, qs, n, as'). Inr (res, ps @ qs, n, as')))
                  (receive_wsa_loop bound cnt' as)
           else Some (Inr (Io_errno 0, ps, cnt', as))))"

text \<open>Calling through a pointer: there has to be a function, and the right one.\<close>

definition wsa_call :: "wsa_fn \<Rightarrow> wsa_fn option \<Rightarrow> fault option" where
  "wsa_call f p = (case p of None \<Rightarrow> Some Null_dereference | Some g \<Rightarrow> if g = f then None else Some Call_of_wrong_function)"

definition receive_wsa ::
  "wsa_state \<Rightarrow> address \<Rightarrow> wsa_answer list \<Rightarrow> (io_result \<times> packet list \<times> nat \<times> wsa_answer list) result option" where
  "receive_wsa w bound as =
     (case wsa_call Fn_recvmsg (wsa_recv w) of Some f \<Rightarrow> Some (Inl f) | None \<Rightarrow> receive_wsa_loop bound 0 as)"

section \<open>Sending\<close>

text \<open>The loop over the packets returns at the first error, with its WSA code.\<close>

fun send_wsa_loop :: "wsa_fn option \<Rightarrow> nat \<Rightarrow> send_answer list \<Rightarrow> nat list \<Rightarrow> send_result" where
  "send_wsa_loop p nsent as [] = Some (Inr ((Io_errno 0, nsent), as))"
| "send_wsa_loop p nsent as (b # bs) =
     (if b = 0 then Some (Inl Assertion_failed)
      else case wsa_call Fn_sendmsg p of
        Some f \<Rightarrow> Some (Inl f)
      | None \<Rightarrow>
          (case as of
             [] \<Rightarrow> None
           | Send_error e # as' \<Rightarrow> Some (Inr ((Io_wsa e, nsent), as'))
           | Send_lens lens # as' \<Rightarrow>
               (if lens = [b] then send_wsa_loop p (nsent + 1) as' bs else Some (Inl Assertion_failed))))"

definition udp_send_wsa :: "wsa_state \<Rightarrow> send_answer list \<Rightarrow> nat list \<Rightarrow> send_result" where
  "udp_send_wsa w as sizes = send_wsa_loop (wsa_send w) 0 as sizes"

section \<open>Texts of errors\<close>

definition int_string :: "int \<Rightarrow> string" where
  "int_string e = (if e < 0 then CHR ''-'' # dec_string (nat (- e)) else dec_string (nat e))"

text \<open>\<open>format e\<close> is the text \<^verbatim>\<open>FormatMessage\<close> writes into the buffer, empty when it finds none.\<close>

fun io_result_str :: "(int \<Rightarrow> string) \<Rightarrow> (ng_rv \<Rightarrow> string) \<Rightarrow> (int \<Rightarrow> string) \<Rightarrow> io_result \<Rightarrow> string" where
  "io_result_str strerror nstrerror format (Io_wsa e) =
     (if format e \<noteq> [] then format e else ''Unknown error '' @ int_string e)"
| "io_result_str strerror nstrerror format (Io_ngtcp2 rv) = nstrerror rv"
| "io_result_str strerror nstrerror format (Io_errno e) = strerror e"

section \<open>The contract of a sender\<close>

lemma send_wsa_loop_cases:
  "send_wsa_loop p k as sizes = Some (Inr ((r, nsent), as')) \<Longrightarrow>
   k \<le> nsent \<and> nsent \<le> k + length sizes \<and> (io_failure r \<longrightarrow> nsent < k + length sizes)"
proof (induction p k as sizes rule: send_wsa_loop.induct)
  case (1 p k as)
  then show ?case by (auto simp: io_failure_def)
next
  case (2 p k as b bs)
  then show ?case by (fastforce split: if_splits list.splits send_answer.splits option.splits)
qed

interpretation wsa: udp_sender "udp_send_wsa w" "\<lambda>_ _. True" for w
  by unfold_locales (auto simp: udp_send_wsa_def dest!: send_wsa_loop_cases)

text \<open>
  With the function it means to call, the Windows socket leaves exactly the unsent packets in the batch, like
  the other senders; \<^verbatim>\<open>WSAEWOULDBLOCK\<close> counts as blocked, and every other code empties the batch.
\<close>

theorem send_packets_wsa:
  assumes "batch_wf b" and "1 \<le> sb_n b" and "sb_n b \<le> max_batch"
    and "udp_send_wsa w as (take (sb_n b) (sb_sizes b)) = Some (Inr ((ret, nsent), as'))"
  shows "\<exists>res b'. send_packets True max_batch (udp_send_wsa w) b as = Some (Inr (res, b', as')) \<and>
    send_outcome ret nsent b res b'"
  using wsa.send_packets_outcome [OF assms(1-3) TrueI assms(4)] .

theorem send_packets_wsa_witness:
  "\<exists>res b'. send_packets True 3 (udp_send_wsa (wsa_start\<lparr>wsa_send := Some Fn_sendmsg\<rparr>)) sample_batch
      [Send_lens [2], Send_error WSAEWOULDBLOCK] = Some (Inr (res, b', [])) \<and>
    send_outcome (Io_wsa WSAEWOULDBLOCK) 1 sample_batch res b'"
  by (rule send_packets_wsa)
    (simp_all add: batch_wf_def sample_batch_def udp_send_wsa_def wsa_call_def wsa_start_def)

section \<open>What the library gets instead\<close>

text \<open>\<^verbatim>\<open>WSAIoctl\<close> stores a pointer to the function whose id it is given.\<close>

definition guid_fn :: "wsa_guid \<Rightarrow> wsa_fn" where
  "guid_fn g = (case g of WSAID_WSARECVMSG \<Rightarrow> Fn_recvmsg | WSAID_WSASENDMSG \<Rightarrow> Fn_sendmsg)"

definition ioctl_ok :: "(nat \<Rightarrow> wsa_guid \<Rightarrow> wsa_fn option) \<Rightarrow> bool" where
  "ioctl_ok io \<longleftrightarrow> (\<forall>k g. io k g = Some (guid_fn g))"

text \<open>
  C39: The Windows build cannot send.  Both pointers are asked for with the id of \<^verbatim>\<open>WSARecvMsg\<close>: when the socket library
  answers as documented, the pointer for sending ends up with the receiving function, no later initialisation
  changes it, and a send of any packet calls the wrong function; receiving has the right one.  The socket made
  for asking stays open.
\<close>

theorem windows_send_wrong_function:
  assumes "ioctl_ok io" and "init_wsa_bs sock_ok io wsa_start = (w, r)" and "0 < b"
  shows "r = Inr () \<and> udp_send_wsa w as (b # bs) = Some (Inl Call_of_wrong_function) \<and>
    receive_wsa w bound rs = receive_wsa_loop bound 0 rs \<and> init_wsa_bs sock_ok' io' w = (w, Inr ()) \<and>
    tmp_socks w = (if sock_ok then 1 else 0)"
  using assms
  by (auto simp: init_wsa_bs_def ioctl_ok_def guid_fn_def wsa_start_def udp_send_wsa_def receive_wsa_def wsa_call_def Let_def
      split: if_splits)

theorem windows_send_wrong_function_witness:
  "\<exists>w. init_wsa_bs True (\<lambda>k g. Some (guid_fn g)) wsa_start = (w, Inr ()) \<and>
     udp_send_wsa w [Send_lens [3]] [3] = Some (Inl Call_of_wrong_function) \<and> tmp_socks w = 1"
proof -
  obtain w r where i: "init_wsa_bs True (\<lambda>k g. Some (guid_fn g)) wsa_start = (w, r)" by fastforce
  have "ioctl_ok (\<lambda>k g. Some (guid_fn g))" by (simp add: ioctl_ok_def)
  from windows_send_wrong_function [OF this i, of 3] i show ?thesis by simp
qed

text \<open>The constructor of a socket after the first makes no further socket for asking.\<close>

lemma init_wsa_again:
  assumes "init_wsa_bs sock_ok io w = (w1, Inr ())"
  shows "init_wsa_bs sock_ok' io' w1 = (w1, Inr ())"
  using assms by (auto simp: init_wsa_bs_def Let_def split: if_splits option.splits)

text \<open>
  The pointers are asked for once: after a first socket was constructed, constructing another changes neither
  pointer and leaves no further socket open, whatever the socket library answers by then.
\<close>

theorem windows_pointers_once:
  assumes "udp_socket_new_wsa ok1 io1 err1 name1 True addr1 w = (w1, (cs1, Inr s1))"
  shows "fst (udp_socket_new_wsa ok2 io2 err2 name2 cb addr2 w1) = w1"
proof -
  from assms have "init_wsa_bs ok1 io1 w = (w1, Inr ())"
    by (cases "init_wsa_bs ok1 io1 w"; cases "snd (init_wsa_bs ok1 io1 w)")
      (auto simp: udp_socket_new_wsa_def)
  from init_wsa_again [OF this] show ?thesis by (simp add: udp_socket_new_wsa_def)
qed

theorem windows_pointers_once_witness:
  "tmp_socks (fst (udp_socket_new_wsa True (\<lambda>k g. None) (\<lambda>c. None) address_default True address_default
     (fst (udp_socket_new_wsa True (\<lambda>k g. Some (guid_fn g)) (\<lambda>c. None) address_default True address_default wsa_start)))) = 1"
proof -
  obtain w1 cs1 s1 where n: "udp_socket_new_wsa True (\<lambda>k g. Some (guid_fn g)) (\<lambda>c. None) address_default True address_default
      wsa_start = (w1, (cs1, Inr s1))" and t: "tmp_socks w1 = 1"
    by (auto simp: udp_socket_new_wsa_def init_wsa_bs_def guid_fn_def wsa_start_def call_bind_check check_rv_def set_ecn_def Let_def)
  from windows_pointers_once [OF n] t n show ?thesis by simp
qed

section \<open>Receiving: order and bound\<close>

fun process_wsa :: "address \<Rightarrow> wsa_answer list \<Rightarrow> packet list result" where
  "process_wsa bound [] = Inr []"
| "process_wsa bound (Wsa_error e # as) = process_wsa bound as"
| "process_wsa bound (Wsa_msg d h # as) =
     and_then (process_packet_wsa bound d h) (\<lambda>ps. and_then (process_wsa bound as) (\<lambda>qs. Inr (ps @ qs)))"

definition wsa_msgs :: "wsa_answer list \<Rightarrow> nat" where
  "wsa_msgs as = length (filter (\<lambda>a. case a of Wsa_msg _ _ \<Rightarrow> True | _ \<Rightarrow> False) as)"

lemma wsa_msgs_simps [simp]:
  "wsa_msgs [] = 0" "wsa_msgs (Wsa_error e # as) = wsa_msgs as" "wsa_msgs (Wsa_msg d h # as) = Suc (wsa_msgs as)"
  by (simp_all add: wsa_msgs_def)

lemma receive_wsa_loop_consumes:
  "receive_wsa_loop bound cnt as = Some (Inr (res, ps, n, as')) \<Longrightarrow> cnt < MAX_RECEIVE_PER_LOOP \<Longrightarrow>
   n \<le> MAX_RECEIVE_PER_LOOP \<and>
   (\<exists>used. as = used @ as' \<and> process_wsa bound used = Inr ps \<and> n = cnt + wsa_msgs used)"
proof (induction bound cnt as arbitrary: ps rule: receive_wsa_loop.induct)
  case (2 bound cnt e as)
  then show ?case by (intro conjI exI [of _ "[Wsa_error e]"]) (auto split: if_splits)
next
  case (3 bound cnt d h as)
  then obtain ps1 where p1: "process_packet_wsa bound d h = Inr ps1" by (auto split: sum.splits)
  show ?case
  proof (cases "cnt + 1 < MAX_RECEIVE_PER_LOOP")
    case True
    with "3.prems" p1 obtain qs where ps: "ps = ps1 @ qs"
      and r: "receive_wsa_loop bound (cnt + 1) as = Some (Inr (res, qs, n, as'))"
      by (auto simp: Let_def elim!: and_then_InrE)
    from "3.IH" [OF p1 refl True r True] obtain used where
      "n \<le> MAX_RECEIVE_PER_LOOP" "as = used @ as'" "process_wsa bound used = Inr qs" "n = cnt + 1 + wsa_msgs used" by auto
    with p1 ps show ?thesis by (intro conjI exI [of _ "Wsa_msg d h # used"]) simp_all
  next
    case False
    with "3.prems" p1 show ?thesis by (intro conjI exI [of _ "[Wsa_msg d h]"]) (auto simp: Let_def)
  qed
qed simp

text \<open>
  Receiving on Windows passes on the datagrams in order, each once, dropping empty and truncated ones, and returns
  to the event loop after at most 64 of them.
\<close>

theorem receive_wsa_in_order_bounded:
  assumes "receive_wsa w bound as = Some (Inr (res, ps, n, as'))"
  shows "n \<le> 64 \<and> (\<exists>used. as = used @ as' \<and> process_wsa bound used = Inr ps \<and> n = wsa_msgs used)"
proof -
  from assms have "receive_wsa_loop bound 0 as = Some (Inr (res, ps, n, as'))"
    by (auto simp: receive_wsa_def split: option.splits)
  from receive_wsa_loop_consumes [OF this] show ?thesis by (simp add: utils_consts)
qed

theorem receive_wsa_in_order_bounded_witness:
  "\<exists>ps. receive_wsa (wsa_start\<lparr>wsa_recv := Some Fn_recvmsg\<rparr>) address_default
     [Wsa_msg [7] sample_hdr, Wsa_msg [] sample_hdr, Wsa_error WSAEWOULDBLOCK] = Some (Inr (Io_errno 0, ps, 2, [])) \<and> (2::nat) \<le> 64"
proof -
  let ?p = "\<lparr>pkt_path = \<lparr>path_local = address_default, path_remote = address_default\<rparr>, pkt_data = [7::byte], pkt_ecn = 0\<rparr>"
  have p: "process_packet_wsa address_default [7] sample_hdr = Inr [?p]"
    by (simp add: process_packet_wsa_def packet_make_wsa_def sample_hdr_def address_default_def is_ipv4_def is_ipv6_def
        utils_consts Let_def)
  have "receive_wsa (wsa_start\<lparr>wsa_recv := Some Fn_recvmsg\<rparr>) address_default
     [Wsa_msg [7] sample_hdr, Wsa_msg [] sample_hdr, Wsa_error WSAEWOULDBLOCK] = Some (Inr (Io_errno 0, [?p], 2, []))"
    by (simp add: receive_wsa_def wsa_call_def wsa_start_def p utils_consts) (simp add: process_packet_wsa_def utils_consts)
  with receive_wsa_in_order_bounded [OF this] show ?thesis by blast
qed

end
