(* ===== verification/Quic_Chunks.thy ===== *)
theory Quic_Chunks
  imports Quic_Stream
begin

text \<open>
  Chunked sending of \<^verbatim>\<open>include/quic/stream.hpp\<close> with everything the application can program: chunks in containers, by
  pointer or null, chunk callbacks that throw, and \<^verbatim>\<open>done\<close> callbacks that send data or start the next chunked send.
  \<open>Quic_Stream\<close> has the senders whose callbacks do none of this; the last section relates the two.
\<close>

section \<open>What the application programs\<close>

text \<open>
  What one call of the chunk callback does: it returns a container by value, a pointer (plain or smart) that may be
  null, or throws.  A program is the answers of the callback in order (a null pointer once they are used up), what the
  \<^verbatim>\<open>done\<close> callback does if there is one, and the number of chunks to have in flight.
\<close>

datatype container = By_value bytes | By_pointer "bytes option" | Throws fault

datatype sender_prog = Prog (prog_script: "container list") (prog_done: "app_act list option") (prog_simultaneous: int)
  and app_act = Send bytes | Send_chunks sender_prog

text \<open>The test of \<^verbatim>\<open>queue_next_chunk\<close> and \<^verbatim>\<open>single_chunk::view\<close>, for values and for pointers.\<close>

definition no_data :: "container \<Rightarrow> bool" where
  "no_data d = (case d of By_value b \<Rightarrow> b = [] | By_pointer None \<Rightarrow> True | By_pointer (Some b) \<Rightarrow> b = [] | Throws _ \<Rightarrow> False)"

definition chunk_view :: "container \<Rightarrow> bytes" where
  "chunk_view d = (case d of By_value b \<Rightarrow> b | By_pointer (Some b) \<Rightarrow> b | _ \<Rightarrow> [])"

definition thrown :: "container \<Rightarrow> fault option" where
  "thrown d = (case d of Throws f \<Rightarrow> Some f | _ \<Rightarrow> None)"

section \<open>Streams with chunk senders\<close>

text \<open>
  A chunk sender and the part of a stream it works on: the queue of buffers and the count of bytes in flight; \<open>cq_log\<close> is
  all bytes that ever entered the queue.
\<close>

record chunk_obj =
  co_next :: "container list option"
  co_done :: "app_act list option"

record chunk_stream =
  cq_bufs :: "user_buffer list"
  cq_senders :: "chunk_obj list"
  cq_unacked :: u64
  cq_log :: bytes

definition cq_send :: "bytes \<Rightarrow> keep_alive \<Rightarrow> chunk_stream \<Rightarrow> chunk_stream" where
  "cq_send b k st = st\<lparr>cq_bufs := cq_bufs st @ [(b, k)], cq_log := cq_log st @ b\<rparr>"

text \<open>
  What is still to be done while one call from outside runs: ask sender \<open>c\<close> for its next chunk, or an action of the
  application.  The nested calls of the code (\<^verbatim>\<open>done\<close> called inside \<^verbatim>\<open>queue_next_chunk\<close>, inside the loop of \<^verbatim>\<open>make\<close>) are
  the front of the list.
\<close>

datatype chunk_work = Next nat | Act app_act

definition front_answer :: "container list \<Rightarrow> container" where
  "front_answer sc = (case sc of [] \<Rightarrow> By_pointer None | d # _ \<Rightarrow> d)"

definition done_acts :: "chunk_obj \<Rightarrow> app_act list" where
  "done_acts x = (case co_done x of None \<Rightarrow> [] | Some as \<Rightarrow> as)"

text \<open>How much a program can still do, for termination.\<close>

fun prog_weight :: "sender_prog \<Rightarrow> nat" and act_weight :: "app_act \<Rightarrow> nat" where
  "prog_weight (Prog sc d k) = Suc (nat k + length sc + (case d of None \<Rightarrow> 0 | Some as \<Rightarrow> sum_list (map act_weight as)))"
| "act_weight (Send b) = 1"
| "act_weight (Send_chunks p) = Suc (prog_weight p)"

definition obj_weight :: "chunk_obj \<Rightarrow> nat" where
  "obj_weight x = (case co_next x of None \<Rightarrow> 0 | Some sc \<Rightarrow> length sc + sum_list (map act_weight (done_acts x)))"

definition senders_weight :: "chunk_obj list \<Rightarrow> nat" where
  "senders_weight xs = sum_list (map obj_weight xs)"

definition work_weight :: "chunk_work \<Rightarrow> nat" where
  "work_weight w = (case w of Next c \<Rightarrow> 1 | Act a \<Rightarrow> act_weight a)"

lemma senders_weight_update:
  "c < length xs \<Longrightarrow> senders_weight (xs[c := x]) + obj_weight (xs ! c) = senders_weight xs + obj_weight x"
  using elem_le_sum_list [of c "map obj_weight xs"]
  by (simp add: senders_weight_def map_update sum_list_update)

definition next_of :: "nat \<Rightarrow> chunk_stream \<Rightarrow> container list option" where
  "next_of c st = (if c < length (cq_senders st) then co_next (cq_senders st ! c) else None)"

definition put_sender :: "nat \<Rightarrow> (chunk_obj \<Rightarrow> chunk_obj) \<Rightarrow> chunk_stream \<Rightarrow> chunk_stream" where
  "put_sender c f st = st\<lparr>cq_senders := (cq_senders st)[c := f (cq_senders st ! c)]\<rparr>"

text \<open>
  \<^verbatim>\<open>queue_next_chunk\<close> and \<^verbatim>\<open>chunk_sender::make\<close>: the state after the work, and the exception that left it, if any.
\<close>

function chunk_run :: "chunk_work list \<Rightarrow> chunk_stream \<Rightarrow> chunk_stream \<times> unit result" where
  "chunk_run [] st = (st, Inr ())"
| "chunk_run (Next c # ws) st =
     (case next_of c st of
        None \<Rightarrow> chunk_run ws st
      | Some sc \<Rightarrow>
          (let d = front_answer sc in
           case thrown d of
             Some f \<Rightarrow> (put_sender c (co_next_update (\<lambda>_. Some (tl sc))) st, Inl f)
           | None \<Rightarrow>
               if no_data d
               then chunk_run (map Act (done_acts (cq_senders st ! c)) @ ws) (put_sender c (co_next_update (\<lambda>_. None)) st)
               else chunk_run ws (cq_send (chunk_view d) (Chunk c) (put_sender c (co_next_update (\<lambda>_. Some (tl sc))) st))))"
| "chunk_run (Act (Send b) # ws) st = chunk_run ws (cq_send b Owned st)"
| "chunk_run (Act (Send_chunks (Prog sc d k)) # ws) st =
     (if k < 1 then (st, Inl Logic_error)
      else chunk_run (replicate (nat k) (Next (length (cq_senders st))) @ ws)
             (st\<lparr>cq_senders := cq_senders st @ [\<lparr>co_next = Some sc, co_done = d\<rparr>]\<rparr>))"
  by pat_completeness auto
termination
proof (relation "measure (\<lambda>(ws, st). sum_list (map work_weight ws) + senders_weight (cq_senders st))", goal_cases)
  case 1
  show ?case by simp
next
  case (2 c ws st)
  then show ?case by (simp add: work_weight_def)
next
  case (3 c ws st sc d)
  then have c: "c < length (cq_senders st)" "co_next (cq_senders st ! c) = Some sc"
    by (auto simp: next_of_def split: if_splits)
  let ?x = "cq_senders st ! c"
  have "obj_weight ?x = length sc + sum_list (map act_weight (done_acts ?x))" by (simp add: obj_weight_def c)
  moreover have "obj_weight (?x\<lparr>co_next := None\<rparr>) = 0" by (simp add: obj_weight_def)
  ultimately show ?case
    using senders_weight_update [OF c(1), of "?x\<lparr>co_next := None\<rparr>"]
    by (simp add: put_sender_def work_weight_def comp_def)
next
  case (4 c ws st sc d)
  then have c: "c < length (cq_senders st)" "co_next (cq_senders st ! c) = Some sc"
    by (auto simp: next_of_def split: if_splits)
  let ?x = "cq_senders st ! c"
  have "obj_weight (?x\<lparr>co_next := Some (tl sc)\<rparr>) \<le> obj_weight ?x" by (simp add: obj_weight_def c done_acts_def)
  then show ?case
    using senders_weight_update [OF c(1), of "?x\<lparr>co_next := Some (tl sc)\<rparr>"]
    by (simp add: put_sender_def work_weight_def cq_send_def)
next
  case (5 b ws st)
  then show ?case by (simp add: work_weight_def cq_send_def)
next
  case (6 sc d k ws st)
  then show ?case
    by (simp add: work_weight_def senders_weight_def obj_weight_def done_acts_def sum_list_replicate split: option.splits)
qed


section \<open>Writing and acknowledging\<close>

text \<open>
  What is queued together with what can still be queued by the programs of the senders: no work adds to it more than
  the actions it starts with, whether it ends in an exception or not.
\<close>

lemma next_of_Some: "next_of c st = Some sc \<Longrightarrow> c < length (cq_senders st) \<and> co_next (cq_senders st ! c) = Some sc"
  by (auto simp: next_of_def split: if_splits)

definition load :: "chunk_stream \<Rightarrow> nat" where
  "load st = length (cq_bufs st) + senders_weight (cq_senders st)"

definition acts_of :: "chunk_work list \<Rightarrow> nat" where
  "acts_of ws = sum_list (map (\<lambda>w. case w of Next _ \<Rightarrow> 0 | Act a \<Rightarrow> act_weight a) ws)"

lemma acts_of_simps [simp]:
  "acts_of [] = 0" "acts_of (Next c # ws) = acts_of ws" "acts_of (Act a # ws) = act_weight a + acts_of ws"
  "acts_of (map Act as @ ws) = sum_list (map act_weight as) + acts_of ws" "acts_of (replicate n (Next c) @ ws) = acts_of ws"
  by (simp_all add: acts_of_def comp_def sum_list_replicate)

lemma done_acts_next [simp]: "done_acts (x\<lparr>co_next := n\<rparr>) = done_acts x"
  by (simp add: done_acts_def)

lemma cq_send_frame [simp]:
  "cq_senders (cq_send b k st) = cq_senders st" "cq_log (cq_send b k st) = cq_log st @ b"
  "cq_bufs (cq_send b k st) = cq_bufs st @ [(b, k)]" "cq_unacked (cq_send b k st) = cq_unacked st"
  by (simp_all add: cq_send_def)

lemma put_sender_simps [simp]:
  "cq_log (put_sender c f st) = cq_log st" "cq_bufs (put_sender c f st) = cq_bufs st"
  "cq_senders (put_sender c f st) = (cq_senders st)[c := f (cq_senders st ! c)]" "cq_unacked (put_sender c f st) = cq_unacked st"
  by (simp_all add: put_sender_def)

lemma ask_weight:
  assumes "next_of c st = Some sc"
  shows "senders_weight (cq_senders (put_sender c (co_next_update (\<lambda>_. n)) st)) + length sc +
      sum_list (map act_weight (done_acts (cq_senders st ! c))) =
    senders_weight (cq_senders st) + obj_weight ((cq_senders st ! c)\<lparr>co_next := n\<rparr>)"
  using next_of_Some [OF assms] senders_weight_update [of c "cq_senders st" "(cq_senders st ! c)\<lparr>co_next := n\<rparr>"]
  by (auto simp: obj_weight_def)

lemma ask_load:
  assumes "next_of c st = Some sc"
  shows "load (put_sender c (co_next_update (\<lambda>_. None)) st) + sum_list (map act_weight (done_acts (cq_senders st ! c))) \<le> load st"
    and "load (put_sender c (co_next_update (\<lambda>_. Some (tl sc))) st) + (if sc = [] then 0 else 1) \<le> load st"
  using ask_weight [OF assms, of None] ask_weight [OF assms, of "Some (tl sc)"]
  by (cases sc; simp add: load_def obj_weight_def)+

lemma chunk_run_load: "load (fst (chunk_run ws st)) \<le> load st + acts_of ws"
proof (induction ws st rule: chunk_run.induct)
  case (2 c ws st)
  show ?case
  proof (cases "next_of c st")
    case None
    with 2 show ?thesis by simp
  next
    case (Some sc)
    let ?d = "front_answer sc"
    show ?thesis
    proof (cases "thrown ?d")
      case t: None
      show ?thesis
      proof (cases "no_data ?d")
        case True
        with "2.IH"(2) [OF Some refl t True] ask_load(1) [OF Some] Some t show ?thesis by (simp add: Let_def)
      next
        case False
        then have "sc \<noteq> []" by (auto simp: front_answer_def no_data_def)
        with "2.IH"(3) [OF Some refl t False] ask_load(2) [OF Some] Some t False show ?thesis by (simp add: Let_def load_def)
      qed
    qed (use Some ask_load(2) [OF Some] in \<open>simp add: Let_def\<close>)
  qed
next
  case (3 b ws st)
  then show ?case by (simp add: load_def)
next
  case (4 sc d k ws st)
  have "load (st\<lparr>cq_senders := cq_senders st @ [\<lparr>co_next = Some sc, co_done = d\<rparr>]\<rparr>) \<le>
      load st + act_weight (Send_chunks (Prog sc d k))"
    by (simp add: load_def senders_weight_def obj_weight_def done_acts_def split: option.splits)
  with "4.IH" show ?case by (cases "k < 1") (simp_all del: prog_weight.simps)
qed simp

text \<open>
  The loop of \<^verbatim>\<open>acknowledge\<close> with these senders.  Popping the front buffer runs the destructor of its keep-alive: a chunk
  asks its sender for the next one, and an exception that leaves the destructor ends the program.  The loop
  condition reads the front of the queue before it looks at the count; when the queue is empty then, a front element that
  does not exist is read, which the last component of the result records.
\<close>

definition release_front :: "chunk_stream \<Rightarrow> chunk_stream result" where
  "release_front st =
     (case cq_bufs st of
        [] \<Rightarrow> Inl Front_of_empty_deque
      | (b, k) # bs \<Rightarrow>
          (case k of
             Chunk c \<Rightarrow>
               (case chunk_run [Next c] (st\<lparr>cq_bufs := bs\<rparr>) of
                  (st', Inr _) \<Rightarrow> Inr st'
                | (_, Inl _) \<Rightarrow> Inl Process_abort)
           | _ \<Rightarrow> Inr (st\<lparr>cq_bufs := bs\<rparr>)))"

lemma release_front_load:
  assumes "release_front st = Inr st'"
  shows "load st' < load st"
proof -
  from assms obtain b k bs where bufs: "cq_bufs st = (b, k) # bs" by (auto simp: release_front_def split: list.splits)
  then have less: "load (st\<lparr>cq_bufs := bs\<rparr>) < load st" by (simp add: load_def)
  show ?thesis
  proof (cases "\<exists>c. k = Chunk c")
    case True
    then obtain c where "k = Chunk c" ..
    with assms bufs have "st' = fst (chunk_run [Next c] (st\<lparr>cq_bufs := bs\<rparr>))"
      by (auto simp: release_front_def simp del: chunk_run.simps split: prod.splits sum.splits)
    with chunk_run_load [of "[Next c]" "st\<lparr>cq_bufs := bs\<rparr>"] less show ?thesis by simp
  next
    case False
    with assms bufs less show ?thesis by (auto simp: release_front_def split: keep_alive.splits)
  qed
qed

function cq_ack_loop :: "u64 \<Rightarrow> chunk_stream \<Rightarrow> (u64 \<times> chunk_stream \<times> bool) result" where
  "cq_ack_loop n st =
     (case cq_bufs st of
        [] \<Rightarrow> if n = 0 then Inr (n, st, True) else Inl Front_of_empty_deque
      | b # bs \<Rightarrow>
          if buf_size b \<le> n \<and> n \<noteq> 0
          then (case release_front st of Inl f \<Rightarrow> Inl f | Inr st' \<Rightarrow> cq_ack_loop (n - buf_size b) st')
          else Inr (n, st, False))"
  by pat_completeness auto
termination
  by (relation "measure (\<lambda>(n, st). load st)") (simp_all add: release_front_load)

declare cq_ack_loop.simps [simp del]

definition cq_acknowledge :: "u64 \<Rightarrow> chunk_stream \<Rightarrow> (chunk_stream \<times> bool) result" where
  "cq_acknowledge n st =
     (if \<not> n \<le> cq_unacked st then Inl Assertion_failed
      else case cq_ack_loop n (st\<lparr>cq_unacked := cq_unacked st - n\<rparr>) of
             Inl f \<Rightarrow> Inl f
           | Inr (r, st1, stale) \<Rightarrow>
               if r = 0 then Inr (st1, stale)
               else case cq_bufs st1 of
                      [] \<Rightarrow> Inl Front_of_empty_deque
                    | (b, k) # bs \<Rightarrow> Inr (st1\<lparr>cq_bufs := (drop (unat r) b, k) # bs\<rparr>, stale))"

definition cq_wrote :: "u64 \<Rightarrow> chunk_stream \<Rightarrow> chunk_stream" where
  "cq_wrote n st = st\<lparr>cq_unacked := cq_unacked st + n\<rparr>"

text \<open>
  Histories of the transport: it writes bytes that are queued and not yet in flight, and acknowledges bytes that are in
  flight; an operation outside this contract does not happen.
\<close>

datatype cq_op = Cq_write nat | Cq_ack nat

definition cq_bytes :: "chunk_stream \<Rightarrow> bytes" where
  "cq_bytes st = bufs_bytes (cq_bufs st)"

fun cq_step :: "cq_op \<Rightarrow> chunk_stream \<Rightarrow> chunk_stream result" where
  "cq_step (Cq_write n) st =
     Inr (if unat (cq_unacked st) + n \<le> length (cq_bytes st) then cq_wrote (of_nat n) st else st)"
| "cq_step (Cq_ack n) st =
     (if n \<le> unat (cq_unacked st) then and_then (cq_acknowledge (of_nat n) st) (\<lambda>(st', stale). Inr st') else Inr st)"

fun cq_run :: "cq_op list \<Rightarrow> chunk_stream \<Rightarrow> chunk_stream result" where
  "cq_run [] st = Inr st"
| "cq_run (x # xs) st = and_then (cq_step x st) (cq_run xs)"

section \<open>What the application means\<close>

text \<open>The bytes of a program in the order the application means them.\<close>

definition script_bytes :: "container list \<Rightarrow> bytes" where
  "script_bytes sc = concat (map chunk_view (takeWhile (\<lambda>d. \<not> no_data d) sc))"

fun prog_bytes :: "sender_prog \<Rightarrow> bytes" and act_bytes :: "app_act \<Rightarrow> bytes" where
  "prog_bytes (Prog sc d k) = script_bytes sc @ (case d of None \<Rightarrow> [] | Some as \<Rightarrow> concat (map act_bytes as))"
| "act_bytes (Send b) = b"
| "act_bytes (Send_chunks p) = prog_bytes p"

text \<open>At most one chunked send at a time: a \<^verbatim>\<open>done\<close> callback starts the next one as its last action.\<close>

fun chain_prog :: "sender_prog \<Rightarrow> bool" and chain_acts :: "app_act list \<Rightarrow> bool" where
  "chain_prog (Prog sc d k) = (case d of None \<Rightarrow> True | Some as \<Rightarrow> chain_acts as)"
| "chain_acts [] = True"
| "chain_acts (Send b # as) = chain_acts as"
| "chain_acts (Send_chunks p # as) = (chain_prog p \<and> as = [])"

text \<open>No callback throws, and every chunked send has at least one chunk in flight.\<close>

fun prog_ok :: "sender_prog \<Rightarrow> bool" and acts_ok :: "app_act list \<Rightarrow> bool" where
  "prog_ok (Prog sc d k) =
     (1 \<le> k \<and> list_all (\<lambda>x. thrown x = None) sc \<and> (case d of None \<Rightarrow> True | Some as \<Rightarrow> acts_ok as))"
| "acts_ok [] = True"
| "acts_ok (Send b # as) = acts_ok as"
| "acts_ok (Send_chunks p # as) = (prog_ok p \<and> acts_ok as)"

text \<open>What the senders of a stream will still send, and streams in which no sender, or only the last, is unfinished.\<close>

definition acts_bytes :: "app_act list \<Rightarrow> bytes" where
  "acts_bytes as = concat (map act_bytes as)"

definition obj_bytes :: "chunk_obj \<Rightarrow> bytes" where
  "obj_bytes x = (case co_next x of None \<Rightarrow> [] | Some sc \<Rightarrow> script_bytes sc @ acts_bytes (done_acts x))"

definition rest_bytes :: "chunk_stream \<Rightarrow> bytes" where
  "rest_bytes st = concat (map obj_bytes (cq_senders st))"

definition idle :: "chunk_stream \<Rightarrow> bool" where
  "idle st \<longleftrightarrow> list_all (\<lambda>x. co_next x = None) (cq_senders st)"

definition chain_state :: "chunk_stream \<Rightarrow> bool" where
  "chain_state st \<longleftrightarrow> list_all (\<lambda>x. co_next x = None) (butlast (cq_senders st)) \<and>
     list_all (\<lambda>x. chain_acts (done_acts x)) (cq_senders st)"

lemma idle_rest: "idle st \<Longrightarrow> rest_bytes st = []"
  by (auto simp: idle_def rest_bytes_def obj_bytes_def list_all_iff)

text \<open>In a chain the active sender is the last one.\<close>

lemma chain_active:
  assumes "chain_state st" and "next_of c st = Some sc"
  obtains xs x where "cq_senders st = xs @ [x]" "c = length xs" "co_next x = Some sc" "list_all (\<lambda>x. co_next x = None) xs"
    "chain_acts (done_acts x)" "rest_bytes st = script_bytes sc @ acts_bytes (done_acts x)"
proof -
  from next_of_Some [OF assms(2)] have c: "c < length (cq_senders st)" "co_next (cq_senders st ! c) = Some sc" by auto
  then obtain xs x where s: "cq_senders st = xs @ [x]" by (cases "cq_senders st" rule: rev_cases) auto
  from assms(1) s have idle: "list_all (\<lambda>x. co_next x = None) xs" and dn: "chain_acts (done_acts x)"
    by (simp_all add: chain_state_def)
  have "c = length xs"
  proof (rule ccontr)
    assume "c \<noteq> length xs"
    with c s idle show False by (auto simp: nth_append list_all_length)
  qed
  moreover from this c s have x: "co_next x = Some sc" by simp
  moreover have "concat (map obj_bytes xs) = []" using idle by (auto simp: list_all_iff obj_bytes_def)
  then have "rest_bytes st = script_bytes sc @ acts_bytes (done_acts x)" by (simp add: rest_bytes_def s obj_bytes_def x)
  ultimately show ?thesis using that s idle dn by blast
qed

lemma script_bytes_front:
  "no_data (front_answer sc) \<Longrightarrow> script_bytes sc = []"
  "\<not> no_data (front_answer sc) \<Longrightarrow> script_bytes sc = chunk_view (front_answer sc) @ script_bytes (tl sc)"
  by (cases sc; simp add: script_bytes_def front_answer_def no_data_def)+

lemma acts_bytes_simps [simp]:
  "acts_bytes [] = []" "acts_bytes (a # as) = act_bytes a @ acts_bytes as"
  by (simp_all add: acts_bytes_def)

lemma prog_bytes_eq: "prog_bytes (Prog sc d k) = script_bytes sc @ acts_bytes (done_acts \<lparr>co_next = n, co_done = d\<rparr>)"
  by (simp add: acts_bytes_def done_acts_def split: option.splits)

lemma chain_prog_done: "chain_prog (Prog sc d k) = chain_acts (done_acts \<lparr>co_next = n, co_done = d\<rparr>)"
  by (simp add: done_acts_def split: option.splits)

lemma cq_send_simps [simp]:
  "chain_state (cq_send b k st) = chain_state st" "idle (cq_send b k st) = idle st" "rest_bytes (cq_send b k st) = rest_bytes st"
  by (simp_all add: chain_state_def idle_def rest_bytes_def)

text \<open>Asking the active sender changes only what is left to send.\<close>

lemma chain_put:
  assumes "chain_state st" and "next_of c st = Some sc"
  shows "chain_state (put_sender c (co_next_update (\<lambda>_. n)) st)"
    and "rest_bytes (put_sender c (co_next_update (\<lambda>_. n)) st) = obj_bytes ((cq_senders st ! c)\<lparr>co_next := n\<rparr>)"
    and "rest_bytes st = script_bytes sc @ acts_bytes (done_acts (cq_senders st ! c))"
    and "chain_acts (done_acts (cq_senders st ! c))"
    and "idle (put_sender c (co_next_update (\<lambda>_. None)) st)"
proof -
  obtain xs x where x: "cq_senders st = xs @ [x]" "c = length xs" "co_next x = Some sc" "list_all (\<lambda>x. co_next x = None) xs"
    "chain_acts (done_acts x)" "rest_bytes st = script_bytes sc @ acts_bytes (done_acts x)"
    by (rule chain_active [OF assms])
  then have put: "cq_senders (put_sender c (co_next_update (\<lambda>_. n)) st) = xs @ [x\<lparr>co_next := n\<rparr>]" for n by simp
  have c: "cq_senders st ! c = x" by (simp add: x)
  show "chain_state (put_sender c (co_next_update (\<lambda>_. n)) st)"
    using assms(1) x unfolding chain_state_def put by simp
  show "rest_bytes (put_sender c (co_next_update (\<lambda>_. n)) st) = obj_bytes ((cq_senders st ! c)\<lparr>co_next := n\<rparr>)"
    using x(4) unfolding rest_bytes_def put c by (auto simp: list_all_iff obj_bytes_def)
  show "idle (put_sender c (co_next_update (\<lambda>_. None)) st)" using x(4) unfolding idle_def put by simp
  show "rest_bytes st = script_bytes sc @ acts_bytes (done_acts (cq_senders st ! c))" "chain_acts (done_acts (cq_senders st ! c))"
    using x(5,6) c by simp_all
qed

text \<open>Starting a chunked send in a stream in which no other is active.\<close>

lemma chain_start:
  fixes st sc d
  defines "st' \<equiv> st\<lparr>cq_senders := cq_senders st @ [\<lparr>co_next = Some sc, co_done = d\<rparr>]\<rparr>"
  assumes "chain_state st" and "idle st" and "chain_prog (Prog sc d k)"
  shows "chain_state st'" and "rest_bytes st' = prog_bytes (Prog sc d k)" and "cq_log st' = cq_log st"
proof -
  have "chain_acts (done_acts \<lparr>co_next = Some sc, co_done = d\<rparr>)" using assms(4) chain_prog_done [of sc d k "Some sc"] by simp
  with assms(2,3) show "chain_state st'" by (auto simp: st'_def chain_state_def idle_def)
  show "rest_bytes st' = prog_bytes (Prog sc d k)"
    using idle_rest [OF assms(3)] unfolding st'_def prog_bytes_eq [where n = "Some sc"] by (simp add: rest_bytes_def obj_bytes_def)
qed (simp add: st'_def)

text \<open>Work keeps the order: what entered the stream, then the actions to do, then what the senders still have.\<close>

lemma chunk_run_order:
  "chunk_run ws st = (st', Inr u) \<Longrightarrow> ws = map Act as @ map Next ns \<Longrightarrow> chain_acts as \<Longrightarrow> chain_state st \<Longrightarrow>
   (as = [] \<or> idle st) \<Longrightarrow>
   chain_state st' \<and> cq_log st' @ rest_bytes st' = cq_log st @ acts_bytes as @ rest_bytes st"
proof (induction ws st arbitrary: as ns rule: chunk_run.induct)
  case (1 st)
  then show ?case by simp
next
  case (2 c ws st)
  from "2.prems"(2) obtain js where as: "as = []" "ws = map Next js" by (cases as) auto
  show ?case
  proof (cases "next_of c st")
    case None
    with "2.prems"(1) have "chunk_run ws st = (st', Inr u)" by simp
    from "2.IH"(1) [OF None this, of "[]" js] "2.prems"(4) as show ?thesis by simp
  next
    case (Some sc)
    let ?d = "front_answer sc"
    note put = chain_put [OF "2.prems"(4) Some]
    from "2.prems"(1) Some have t: "thrown ?d = None" by (auto simp: Let_def split: option.splits)
    show ?thesis
    proof (cases "no_data ?d")
      case True
      with "2.prems"(1) Some t have "chunk_run (map Act (done_acts (cq_senders st ! c)) @ ws)
          (put_sender c (co_next_update (\<lambda>_. None)) st) = (st', Inr u)" by (simp add: Let_def)
      from "2.IH"(2) [OF Some refl t True this, of "done_acts (cq_senders st ! c)" js] put(1,2) [of None] put(3-5)
        script_bytes_front(1) [OF True] as
      show ?thesis by (simp add: obj_bytes_def)
    next
      case False
      with "2.prems"(1) Some t have "chunk_run ws (cq_send (chunk_view ?d) (Chunk c)
          (put_sender c (co_next_update (\<lambda>_. Some (tl sc))) st)) = (st', Inr u)" by (simp add: Let_def)
      from "2.IH"(3) [OF Some refl t False this, of "[]" js] put(1,2) [of "Some (tl sc)"] put(3) script_bytes_front(2) [OF False] as
      show ?thesis by (simp add: obj_bytes_def)
    qed
  qed
next
  case (3 b ws st)
  from "3.prems"(2) obtain as' where as: "as = Send b # as'" "ws = map Act as' @ map Next ns" by (cases as) auto
  with 3 show ?case using "3.IH" [of as' ns] by simp
next
  case (4 sc d k ws st)
  from "4.prems"(2,3) obtain as: "as = [Send_chunks (Prog sc d k)]" and ws: "ws = map Next ns" by (cases as) auto
  from "4.prems"(1) have k: "\<not> k < 1" by auto
  have idle: "idle st" using "4.prems"(5) as by simp
  have p: "chain_prog (Prog sc d k)" using "4.prems"(3) as by simp
  from "4.prems"(1) k have r: "chunk_run (replicate (nat k) (Next (length (cq_senders st))) @ ws)
      (st\<lparr>cq_senders := cq_senders st @ [\<lparr>co_next = Some sc, co_done = d\<rparr>]\<rparr>) = (st', Inr u)" by simp
  have w: "replicate (nat k) (Next (length (cq_senders st))) @ ws =
      map Act [] @ map Next (replicate (nat k) (length (cq_senders st)) @ ns)" by (simp add: ws)
  from "4.IH" [OF k r w] chain_start [OF "4.prems"(4) idle p] idle_rest [OF idle] as show ?case
    by (simp del: prog_bytes.simps)
qed

section \<open>Chunked sends complete\<close>

text \<open>A sender that is not finished has a chunk in the queue, or is about to be asked.\<close>

definition chunk_alive :: "chunk_work list \<Rightarrow> chunk_stream \<Rightarrow> bool" where
  "chunk_alive ws st \<longleftrightarrow>
     (\<forall>c < length (cq_senders st). co_next (cq_senders st ! c) \<noteq> None \<longrightarrow> Next c \<in> set ws \<or> Chunk c \<in> snd ` set (cq_bufs st))"

definition senders_ok :: "chunk_stream \<Rightarrow> bool" where
  "senders_ok st \<longleftrightarrow> list_all (\<lambda>x. acts_ok (done_acts x) \<and>
     (case co_next x of None \<Rightarrow> True | Some sc \<Rightarrow> list_all (\<lambda>d. thrown d = None) sc)) (cq_senders st)"

fun work_ok :: "chunk_work \<Rightarrow> bool" where
  "work_ok (Next c) = True"
| "work_ok (Act a) = acts_ok [a]"

lemma acts_ok_list: "acts_ok as \<Longrightarrow> list_all work_ok (map Act as)"
proof (induction as)
  case (Cons a as)
  then show ?case by (cases a) simp_all
qed simp

lemma senders_ok_put:
  assumes "senders_ok st" and "\<And>x. co_done (f x) = co_done x"
    and "case co_next (f (cq_senders st ! c)) of None \<Rightarrow> True | Some sc \<Rightarrow> list_all (\<lambda>d. thrown d = None) sc"
  shows "senders_ok (put_sender c f st)"
proof (cases "c < length (cq_senders st)")
  case True
  with assms show ?thesis by (simp add: senders_ok_def list_all_length nth_list_update done_acts_def)
next
  case False
  with assms(1) show ?thesis by (simp add: senders_ok_def list_update_beyond)
qed

text \<open>The two outcomes of asking a sender: it finishes and its actions are to be done, or it sends a chunk.\<close>

lemma ask_ok:
  assumes "senders_ok st" and "next_of c st = Some sc"
  shows "list_all (\<lambda>d. thrown d = None) sc" and "acts_ok (done_acts (cq_senders st ! c))" and "thrown (front_answer sc) = None"
proof -
  from assms next_of_Some [OF assms(2)]
  show "list_all (\<lambda>d. thrown d = None) sc" and "acts_ok (done_acts (cq_senders st ! c))"
    by (force simp: senders_ok_def list_all_length)+
  then show "thrown (front_answer sc) = None" by (cases sc) (simp_all add: front_answer_def thrown_def)
qed

lemma ask_finish:
  fixes st c
  defines "st' \<equiv> put_sender c (co_next_update (\<lambda>_. None)) st"
  assumes "senders_ok st" and "next_of c st = Some sc" and "chunk_alive (Next c # ws) st"
  shows "senders_ok st' \<and> chunk_alive (map Act (done_acts (cq_senders st ! c)) @ ws) st' \<and>
    load st' + acts_of (map Act (done_acts (cq_senders st ! c)) @ ws) \<le> load st + acts_of ws"
proof -
  have "senders_ok st'" unfolding st'_def by (rule senders_ok_put [OF assms(2)]) simp_all
  moreover have "chunk_alive (map Act (done_acts (cq_senders st ! c)) @ ws) st'"
    using assms(4) next_of_Some [OF assms(3)] by (auto simp: st'_def chunk_alive_def nth_list_update)
  ultimately show ?thesis using ask_weight [OF assms(3), of None] by (simp add: st'_def load_def obj_weight_def)
qed

lemma ask_chunk:
  fixes st c sc
  defines "st' \<equiv> cq_send (chunk_view (front_answer sc)) (Chunk c) (put_sender c (co_next_update (\<lambda>_. Some (tl sc))) st)"
  assumes "senders_ok st" and "next_of c st = Some sc" and "\<not> no_data (front_answer sc)" and "chunk_alive (Next c # ws) st"
  shows "senders_ok st' \<and> chunk_alive ws st' \<and> load st' \<le> load st"
proof -
  have sc: "sc \<noteq> []" using assms(4) by (auto simp: front_answer_def no_data_def)
  have "senders_ok (put_sender c (co_next_update (\<lambda>_. Some (tl sc))) st)"
    by (rule senders_ok_put [OF assms(2)])
      (use ask_ok(1) [OF assms(2,3)] in \<open>auto simp: list_all_iff dest: list.set_sel(2) [OF sc]\<close>)
  then have "senders_ok st'" by (simp add: st'_def senders_ok_def)
  moreover have "chunk_alive ws st'"
    using assms(5) next_of_Some [OF assms(3)] by (auto simp: st'_def chunk_alive_def nth_list_update)
  ultimately show ?thesis
    using ask_weight [OF assms(3), of "Some (tl sc)"] sc by (cases sc) (simp_all add: st'_def load_def obj_weight_def)
qed

text \<open>Without exceptions the work ends, keeps every sender alive and does not add to the load.\<close>

lemma chunk_run_completes:
  "list_all work_ok ws \<Longrightarrow> senders_ok st \<Longrightarrow> chunk_alive ws st \<Longrightarrow>
   \<exists>st'. chunk_run ws st = (st', Inr ()) \<and> senders_ok st' \<and> chunk_alive [] st' \<and> load st' \<le> load st + acts_of ws"
proof (induction ws st rule: chunk_run.induct)
  case (1 st)
  then show ?case by simp
next
  case (2 c ws st)
  show ?case
  proof (cases "next_of c st")
    case None
    with "2.prems" have "chunk_alive ws st" by (auto simp: chunk_alive_def next_of_def split: if_splits)
    with "2.IH"(1) [OF None] "2.prems" None show ?thesis by simp
  next
    case (Some sc)
    note ok = ask_ok [OF "2.prems"(2) Some]
    show ?thesis
    proof (cases "no_data (front_answer sc)")
      case True
      from ask_finish [OF "2.prems"(2) Some "2.prems"(3)] "2.IH"(2) [OF Some refl ok(3) True] "2.prems"(1) acts_ok_list [OF ok(2)]
      show ?thesis using Some ok(3) True by (fastforce simp: Let_def)
    next
      case False
      from ask_chunk [OF "2.prems"(2) Some False "2.prems"(3)] "2.IH"(3) [OF Some refl ok(3) False] "2.prems"(1)
      show ?thesis using Some ok(3) False by (fastforce simp: Let_def)
    qed
  qed
next
  case (3 b ws st)
  have "senders_ok (cq_send b Owned st)" "chunk_alive ws (cq_send b Owned st)"
    using "3.prems" by (auto simp: senders_ok_def chunk_alive_def)
  with "3.IH" "3.prems"(1) show ?case by (fastforce simp: load_def)
next
  case (4 sc d k ws st)
  let ?x = "\<lparr>co_next = Some sc, co_done = d\<rparr>" and ?c = "length (cq_senders st)"
  let ?st = "st\<lparr>cq_senders := cq_senders st @ [?x]\<rparr>" and ?ws = "replicate (nat k) (Next (length (cq_senders st))) @ ws"
  from "4.prems"(1) have k: "\<not> k < 1" and ok: "list_all (\<lambda>x. thrown x = None) sc" "acts_ok (done_acts ?x)"
    by (auto simp: done_acts_def split: option.splits)
  have "senders_ok ?st" using "4.prems"(2) ok by (simp add: senders_ok_def)
  moreover have "chunk_alive ?ws ?st" using "4.prems"(3) k by (auto simp: chunk_alive_def nth_append less_Suc_eq)
  moreover have "list_all work_ok ?ws" using "4.prems"(1) by (simp add: list_all_iff)
  moreover have "load ?st + acts_of ?ws \<le> load st + acts_of (Act (Send_chunks (Prog sc d k)) # ws)"
    by (simp add: load_def senders_weight_def obj_weight_def done_acts_def split: option.splits)
  ultimately show ?case using "4.IH" [OF k] k by fastforce
qed

definition chunk_state_ok :: "chunk_stream \<Rightarrow> bool" where
  "chunk_state_ok st \<longleftrightarrow> senders_ok st \<and> chunk_alive [] st \<and> chain_state st"

text \<open>Chunks in the queue have data, and the log grows by what is queued.\<close>

definition chunk_full :: "user_buffer \<Rightarrow> bool" where
  "chunk_full b \<longleftrightarrow> (case snd b of Chunk _ \<Rightarrow> fst b \<noteq> [] | _ \<Rightarrow> True)"

lemma chunk_full_simps [simp]:
  "chunk_full (b, Chunk c) \<longleftrightarrow> b \<noteq> []" "chunk_full (b, Owned)"
  by (simp_all add: chunk_full_def)

lemma chunk_run_queue:
  "\<exists>new. cq_bufs (fst (chunk_run ws st)) = cq_bufs st @ new \<and> cq_log (fst (chunk_run ws st)) = cq_log st @ bufs_bytes new \<and>
     cq_unacked (fst (chunk_run ws st)) = cq_unacked st \<and> list_all chunk_full new"
proof (induction ws st rule: chunk_run.induct)
  case (2 c ws st)
  show ?case
  proof (cases "next_of c st")
    case None
    with "2.IH"(1) [OF None] show ?thesis by simp
  next
    case (Some sc)
    let ?d = "front_answer sc"
    show ?thesis
    proof (cases "thrown ?d")
      case t: None
      show ?thesis
      proof (cases "no_data ?d")
        case True
        with "2.IH"(2) [OF Some refl t True] Some t show ?thesis by (simp add: Let_def)
      next
        case False
        with t have full: "chunk_view ?d \<noteq> []"
          by (auto simp: thrown_def no_data_def chunk_view_def split: container.splits option.splits)
        from "2.IH"(3) [OF Some refl t False] Some t False obtain new where
          "cq_bufs (fst (chunk_run (Next c # ws) st)) = cq_bufs st @ (chunk_view ?d, Chunk c) # new"
          "cq_log (fst (chunk_run (Next c # ws) st)) = cq_log st @ chunk_view ?d @ bufs_bytes new"
          "cq_unacked (fst (chunk_run (Next c # ws) st)) = cq_unacked st" "list_all chunk_full new"
          by (auto simp: Let_def)
        with full show ?thesis
          by (intro exI [of _ "(chunk_view ?d, Chunk c) # new"]) (simp del: chunk_run.simps)
      qed
    qed (use Some in \<open>simp add: Let_def bufs_bytes_def\<close>)
  qed
next
  case (3 b ws st)
  then obtain new where "cq_bufs (fst (chunk_run (Act (Send b) # ws) st)) = cq_bufs st @ (b, Owned) # new"
    "cq_log (fst (chunk_run (Act (Send b) # ws) st)) = cq_log st @ b @ bufs_bytes new"
    "cq_unacked (fst (chunk_run (Act (Send b) # ws) st)) = cq_unacked st" "list_all chunk_full new" by auto
  then show ?case by (intro exI [of _ "(b, Owned) # new"]) (simp del: chunk_run.simps)
next
  case (4 sc d k ws st)
  then show ?case by (cases "k < 1") (simp_all add: bufs_bytes_def)
qed (simp add: bufs_bytes_def)

text \<open>Releasing the front buffer.\<close>

lemma release_front_ok:
  assumes "chunk_state_ok st" and "cq_bufs st = b # bs"
  obtains st' new where "release_front st = Inr st'" "chunk_state_ok st'" "cq_bufs st' = bs @ new"
    "cq_log st' = cq_log st @ bufs_bytes new" "cq_unacked st' = cq_unacked st" "list_all chunk_full new"
    "cq_log st' @ rest_bytes st' = cq_log st @ rest_bytes st"
proof -
  let ?st = "st\<lparr>cq_bufs := bs\<rparr>"
  obtain d k where b: "b = (d, k)" by fastforce
  from assms(1) have ok: "senders_ok ?st" "chain_state ?st" and alive: "chunk_alive [] st"
    by (simp_all add: chunk_state_ok_def senders_ok_def chain_state_def)
  have same: "rest_bytes ?st = rest_bytes st" by (simp add: rest_bytes_def)
  show ?thesis
  proof (cases "\<exists>c. k = Chunk c")
    case True
    then obtain c where k: "k = Chunk c" by blast
    have "chunk_alive [Next c] ?st" using alive by (auto simp: chunk_alive_def assms(2) b k)
    from chunk_run_completes [OF _ ok(1) this] obtain st' where
      r: "chunk_run [Next c] ?st = (st', Inr ())" "senders_ok st'" "chunk_alive [] st'" by auto
    from chunk_run_order [OF r(1), of "[]" "[c]"] ok(2) have
      o: "chain_state st'" "cq_log st' @ rest_bytes st' = cq_log st @ rest_bytes st" by (simp_all add: same)
    from chunk_run_queue [of "[Next c]" ?st, unfolded r(1) fst_conv] obtain new where
      q: "cq_bufs st' = bs @ new" "cq_log st' = cq_log st @ bufs_bytes new" "cq_unacked st' = cq_unacked st" "list_all chunk_full new"
      by auto
    have "release_front st = Inr st'" by (simp add: release_front_def assms(2) b k r(1) del: chunk_run.simps)
    from that [OF this _ q o(2)] r o show ?thesis by (simp add: chunk_state_ok_def)
  next
    case False
    then have "chunk_alive [] ?st" using alive by (auto simp: chunk_alive_def assms(2) b)
    moreover from False have "release_front st = Inr ?st" by (auto simp: release_front_def assms(2) b split: keep_alive.splits)
    ultimately show ?thesis using that [of ?st "[]"] ok same by (simp add: chunk_state_ok_def bufs_bytes_def)
  qed
qed

text \<open>The stream with its queue and count: everything fits in memory, and what is in flight is queued.\<close>

definition cq_inv :: "chunk_stream \<Rightarrow> bool" where
  "cq_inv st \<longleftrightarrow> chunk_state_ok st \<and> list_all chunk_full (cq_bufs st) \<and>
     length (cq_bytes st) + length (rest_bytes st) < 2 ^ 64 \<and> unat (cq_unacked st) \<le> length (cq_bytes st) \<and>
     (\<exists>acked. cq_log st = acked @ cq_bytes st)"

text \<open>What the loop leaves: \<open>r\<close> bytes still to be trimmed off the front, and the queue after the buffers it popped.\<close>

definition loop_left :: "u64 \<Rightarrow> chunk_stream \<Rightarrow> u64 \<Rightarrow> chunk_stream \<Rightarrow> bool \<Rightarrow> bool" where
  "loop_left n st r st' stale \<longleftrightarrow> chunk_state_ok st' \<and> list_all chunk_full (cq_bufs st') \<and> load st' \<le> load st \<and>
     cq_unacked st' = cq_unacked st \<and> cq_log st' @ rest_bytes st' = cq_log st @ rest_bytes st \<and> unat r \<le> unat n \<and>
     (\<exists>new. cq_log st' = cq_log st @ new \<and> cq_bytes st' = drop (unat n - unat r) (cq_bytes st) @ new) \<and>
     (r = 0 \<or> (\<exists>b k bs. cq_bufs st' = (b, k) # bs \<and> unat r < length b)) \<and> (stale \<longleftrightarrow> cq_bufs st' = [])"

lemma cq_bytes_simps:
  "cq_bufs st = b # bs \<Longrightarrow> cq_bytes st = fst b @ bufs_bytes bs" "cq_bufs st = bs @ bs' \<Longrightarrow> cq_bytes st = bufs_bytes bs @ bufs_bytes bs'"
  by (simp_all add: cq_bytes_def bufs_bytes_def)

lemma cq_ack_loop_ok:
  "chunk_state_ok st \<Longrightarrow> list_all chunk_full (cq_bufs st) \<Longrightarrow> unat n \<le> length (cq_bytes st) \<Longrightarrow>
   length (cq_bytes st) + length (rest_bytes st) < 2 ^ 64 \<Longrightarrow>
   \<exists>r st' stale. cq_ack_loop n st = Inr (r, st', stale) \<and> loop_left n st r st' stale"
proof (induction n st rule: cq_ack_loop.induct)
  case (1 n st)
  show ?case
  proof (cases "cq_bufs st")
    case Nil
    with "1.prems"(3) have "n = 0" by (simp add: cq_bytes_def bufs_bytes_def unat_eq_zero)
    then have "cq_ack_loop n st = Inr (0, st, True)" unfolding cq_ack_loop.simps [of n st] using Nil by simp
    moreover have "loop_left n st 0 st True" using \<open>n = 0\<close> Nil "1.prems" by (simp add: loop_left_def)
    ultimately show ?thesis by blast
  next
    case (Cons b bs)
    have len: "length (fst b) < 2 ^ 64" using "1.prems"(4) cq_bytes_simps(1) [OF Cons] by simp
    show ?thesis
    proof (cases "buf_size b \<le> n \<and> n \<noteq> 0")
      case False
      with buf_size_le_iff [OF len, of n] have "n = 0 \<or> unat n < length (fst b)" by auto
      with False Cons "1.prems" show ?thesis
        by (cases b) (auto simp: cq_ack_loop.simps [of n] loop_left_def)
    next
      case True
      have un: "unat (buf_size b) = length (fst b)" using unat_of_nat_u64 [OF len] by (simp add: buf_size_def)
      with True have n: "unat (n - buf_size b) = unat n - length (fst b)" "length (fst b) \<le> unat n"
        by (simp_all add: unat_sub word_le_nat_alt)
      from release_front_ok [OF "1.prems"(1) Cons] obtain st1 new1 where
        rf: "release_front st = Inr st1" and ok1: "chunk_state_ok st1" and b1: "cq_bufs st1 = bs @ new1"
        and l1: "cq_log st1 = cq_log st @ bufs_bytes new1" and u1: "cq_unacked st1 = cq_unacked st" and f1: "list_all chunk_full new1"
        and o1: "cq_log st1 @ rest_bytes st1 = cq_log st @ rest_bytes st" .
      have rest: "rest_bytes st = bufs_bytes new1 @ rest_bytes st1" using o1 l1 by simp
      have by1: "cq_bytes st1 = bufs_bytes bs @ bufs_bytes new1" using cq_bytes_simps(2) [OF b1] .
      have by0: "cq_bytes st = fst b @ bufs_bytes bs" using cq_bytes_simps(1) [OF Cons] .
      have "list_all chunk_full (cq_bufs st1)" using "1.prems"(2) Cons b1 f1 by simp
      moreover have "unat (n - buf_size b) \<le> length (cq_bytes st1)" using "1.prems"(3) n by0 by1 by simp
      moreover have "length (cq_bytes st1) + length (rest_bytes st1) < 2 ^ 64" using "1.prems"(4) by0 by1 rest by simp
      ultimately obtain r st' stale where
        r: "cq_ack_loop (n - buf_size b) st1 = Inr (r, st', stale)" "loop_left (n - buf_size b) st1 r st' stale"
        using "1.IH" [OF Cons True rf ok1] by blast
      then obtain new where new: "cq_log st' = cq_log st1 @ new"
        "cq_bytes st' = drop (unat n - length (fst b) - unat r) (cq_bytes st1) @ new" "unat r \<le> unat n - length (fst b)"
        by (auto simp: loop_left_def n)
      have "unat n - length (fst b) - unat r \<le> length (bufs_bytes bs)" using "1.prems"(3) by0 by simp
      moreover have "unat n - unat r = length (fst b) + (unat n - length (fst b) - unat r)" using new(3) n(2) by simp
      ultimately have "cq_bytes st' = drop (unat n - unat r) (cq_bytes st) @ bufs_bytes new1 @ new"
        using new(2) by (simp add: by0 by1)
      with r new l1 u1 o1 release_front_load [OF rf] n have "loop_left n st r st' stale"
        by (auto simp: loop_left_def)
      with r(1) Cons True rf show ?thesis by (simp add: cq_ack_loop.simps [of n])
    qed
  qed
qed

text \<open>Popping a buffer makes progress.\<close>

lemma cq_ack_loop_pops:
  assumes "cq_ack_loop n st = Inr (r, st', stale)" and "cq_bufs st = b # bs" and "buf_size b \<le> n" and "n \<noteq> 0"
  shows "load st' < load st"
proof -
  have le: "cq_ack_loop m s1 = Inr (r, s2, stale) \<Longrightarrow> load s2 \<le> load s1" for m s1 s2
  proof (induction m s1 rule: cq_ack_loop.induct)
    case (1 m s1)
    then show ?case
      by (cases "cq_bufs s1")
        (fastforce simp: cq_ack_loop.simps [of m] dest: release_front_load split: if_splits sum.splits)+
  qed
  from assms obtain st1 where rf: "release_front st = Inr st1" and r: "cq_ack_loop (n - buf_size b) st1 = Inr (r, st', stale)"
    by (auto simp: cq_ack_loop.simps [of n] split: sum.splits)
  from release_front_load [OF rf] le [OF r] show ?thesis by simp
qed

lemma cq_acknowledge_ok:
  assumes inv: "cq_inv st" and n: "n \<le> unat (cq_unacked st)"
  shows "\<exists>st' stale. cq_acknowledge (of_nat n) st = Inr (st', stale) \<and> cq_inv st' \<and> load st' \<le> load st \<and>
    cq_log st' @ rest_bytes st' = cq_log st @ rest_bytes st \<and> (stale \<longleftrightarrow> cq_bufs st' = []) \<and>
    (n = length (cq_bytes st) \<and> cq_bytes st \<noteq> [] \<longrightarrow> load st' < load st)"
proof -
  let ?n = "of_nat n :: u64" and ?st = "st\<lparr>cq_unacked := cq_unacked st - of_nat n\<rparr>"
  have un: "unat ?n = n" using n inv by (intro unat_of_nat_u64) (simp add: cq_inv_def)
  have le: "?n \<le> cq_unacked st" using n un by (simp add: word_le_nat_alt)
  have same: "cq_bytes ?st = cq_bytes st" "rest_bytes ?st = rest_bytes st" "load ?st = load st"
    by (simp_all add: cq_bytes_def rest_bytes_def load_def)
  have cs: "chunk_state_ok ?st" "list_all chunk_full (cq_bufs ?st)" "length (cq_bytes ?st) + length (rest_bytes ?st) < 2 ^ 64"
    "unat ?n \<le> length (cq_bytes ?st)"
    using inv n un by (simp_all add: cq_inv_def same chunk_state_ok_def senders_ok_def chunk_alive_def chain_state_def)
  from cq_ack_loop_ok [OF cs(1,2,4,3)] obtain r st1 stale where
    r: "cq_ack_loop ?n ?st = Inr (r, st1, stale)" and left: "loop_left ?n ?st r st1 stale" by blast
  have less: "load st1 < load st" if "n = length (cq_bytes st)" "cq_bytes st \<noteq> []"
  proof -
    from that(2) obtain b bs where b: "cq_bufs ?st = b # bs" by (cases "cq_bufs st") (auto simp: cq_bytes_def bufs_bytes_def)
    then have "fst b @ bufs_bytes bs = cq_bytes st" using cq_bytes_simps(1) [of ?st b bs] same(1) by simp
    then have "length (fst b) \<le> n" using that(1) by (metis length_append le_add1)
    moreover have "n < 2 ^ 64" using that(1) inv by (simp add: cq_inv_def)
    ultimately have "buf_size b \<le> ?n" using buf_size_le_iff [of b ?n] un by simp
    moreover have "?n \<noteq> 0" using that un by auto
    ultimately show ?thesis using cq_ack_loop_pops [OF r b] same(3) by simp
  qed
  from left obtain new where new: "cq_log st1 = cq_log st @ new" "cq_bytes st1 = drop (n - unat r) (cq_bytes st) @ new"
    "unat r \<le> n" by (auto simp: loop_left_def same un)
  from left have rest: "cq_log st1 @ rest_bytes st1 = cq_log st @ rest_bytes st" "load st1 \<le> load st" "chunk_state_ok st1"
    "list_all chunk_full (cq_bufs st1)" "cq_unacked st1 = cq_unacked st - ?n" "stale \<longleftrightarrow> cq_bufs st1 = []"
    by (simp_all add: loop_left_def same)
  have "\<exists>st'. cq_acknowledge ?n st = Inr (st', stale) \<and> chunk_state_ok st' \<and> list_all chunk_full (cq_bufs st') \<and>
      cq_bytes st' = drop (unat r) (cq_bytes st1) \<and> cq_log st' = cq_log st1 \<and> rest_bytes st' = rest_bytes st1 \<and>
      cq_unacked st' = cq_unacked st1 \<and> load st' = load st1 \<and> (cq_bufs st' = [] \<longleftrightarrow> cq_bufs st1 = [])"
  proof (cases "r = 0")
    case True
    with r le rest show ?thesis by (simp add: cq_acknowledge_def)
  next
    case False
    with left obtain b k bs where b: "cq_bufs st1 = (b, k) # bs" "unat r < length b" by (auto simp: loop_left_def)
    let ?st2 = "st1\<lparr>cq_bufs := (drop (unat r) b, k) # bs\<rparr>"
    have "cq_acknowledge ?n st = Inr (?st2, stale)" using False r le b by (simp add: cq_acknowledge_def)
    moreover have "chunk_state_ok ?st2"
      using rest(3) b by (auto simp: chunk_state_ok_def senders_ok_def chunk_alive_def chain_state_def)
    moreover have "list_all chunk_full (cq_bufs ?st2)" using rest(4) b by (auto simp: chunk_full_def split: keep_alive.splits)
    moreover have "cq_bytes ?st2 = drop (unat r) (cq_bytes st1)" using b by (simp add: cq_bytes_def bufs_bytes_def)
    moreover have "rest_bytes ?st2 = rest_bytes st1" "load ?st2 = load st1" using b by (simp_all add: rest_bytes_def load_def)
    ultimately show ?thesis using b by (intro exI [of _ ?st2]) simp
  qed
  then obtain st' where st': "cq_acknowledge ?n st = Inr (st', stale)" "chunk_state_ok st'" "list_all chunk_full (cq_bufs st')"
    "cq_bytes st' = drop (unat r) (cq_bytes st1)" "cq_log st' = cq_log st1" "rest_bytes st' = rest_bytes st1"
    "cq_unacked st' = cq_unacked st1" "load st' = load st1" "cq_bufs st' = [] \<longleftrightarrow> cq_bufs st1 = []" by blast
  have nb: "n \<le> length (cq_bytes st)" using inv n by (simp add: cq_inv_def)
  then have by': "cq_bytes st' = drop n (cq_bytes st) @ new" using st'(4) new(2,3) by simp
  from inv obtain acked where "cq_log st = acked @ cq_bytes st" by (auto simp: cq_inv_def)
  then have "cq_log st' = (acked @ take n (cq_bytes st)) @ cq_bytes st'" using st'(5) new(1) by' by simp
  moreover have fits: "length (cq_bytes st) + length (rest_bytes st) < 2 ^ 64" using inv by (simp add: cq_inv_def)
  have "length (rest_bytes st) = length new + length (rest_bytes st')" using rest(1) new(1) st'(6) by (metis append_assoc same_append_eq length_append)
  then have "length (cq_bytes st') + length (rest_bytes st') < 2 ^ 64"
    using fits by' by simp
  moreover have "unat (cq_unacked st') \<le> length (cq_bytes st')"
  proof -
    have "unat (cq_unacked st) \<le> length (cq_bytes st)" using inv by (simp add: cq_inv_def)
    moreover have "unat (cq_unacked st') = unat (cq_unacked st) - n" using rest(5) st'(7) le un by (simp add: unat_sub)
    ultimately show ?thesis using by' by simp
  qed
  ultimately have "cq_inv st'" using st'(2,3) unfolding cq_inv_def by blast
  moreover have "cq_log st' @ rest_bytes st' = cq_log st @ rest_bytes st" using st'(5,6) rest(1) by simp
  moreover have "stale \<longleftrightarrow> cq_bufs st' = []" using st'(9) rest(6) by simp
  moreover have "load st' \<le> load st" "n = length (cq_bytes st) \<and> cq_bytes st \<noteq> [] \<longrightarrow> load st' < load st"
    using st'(8) rest(2) less by simp_all
  ultimately show ?thesis using st'(1) by blast
qed

lemma cq_step_ok:
  assumes inv: "cq_inv st"
  shows "\<exists>st'. cq_step x st = Inr st' \<and> cq_inv st' \<and> cq_log st' @ rest_bytes st' = cq_log st @ rest_bytes st"
proof (cases x)
  case (Cq_ack n)
  show ?thesis
  proof (cases "n \<le> unat (cq_unacked st)")
    case True
    with cq_acknowledge_ok [OF inv True] Cq_ack show ?thesis by auto
  qed (use inv Cq_ack in simp)
next
  case (Cq_write n)
  have "cq_inv (cq_wrote (of_nat n) st)" if fits: "unat (cq_unacked st) + n \<le> length (cq_bytes st)"
  proof -
    have "unat (cq_unacked st) + n < 2 ^ 64" using fits inv by (simp add: cq_inv_def)
    then have "unat (cq_unacked st + of_nat n) = unat (cq_unacked st) + n"
      using unat_of_nat_u64 [of "unat (cq_unacked st) + n"] by simp
    with fits inv show ?thesis
      by (auto simp: cq_inv_def cq_wrote_def cq_bytes_def rest_bytes_def chunk_state_ok_def senders_ok_def chunk_alive_def chain_state_def)
  qed
  moreover have "cq_log (cq_wrote (of_nat n) st) @ rest_bytes (cq_wrote (of_nat n) st) = cq_log st @ rest_bytes st"
    by (simp add: cq_wrote_def rest_bytes_def)
  ultimately show ?thesis using inv Cq_write by auto
qed

lemma cq_run_ok:
  "cq_inv st \<Longrightarrow> \<exists>st'. cq_run ops st = Inr st' \<and> cq_inv st' \<and> cq_log st' @ rest_bytes st' = cq_log st @ rest_bytes st"
proof (induction ops arbitrary: st)
  case (Cons x ops)
  from cq_step_ok [OF Cons.prems, of x] obtain st1 where
    "cq_step x st = Inr st1" "cq_inv st1" "cq_log st1 @ rest_bytes st1 = cq_log st @ rest_bytes st" by blast
  with Cons.IH [of st1] show ?case by auto
qed simp

text \<open>A queue without bytes has no chunk, so that every sender is finished.\<close>

lemma drained_idle:
  assumes "cq_inv st" and "cq_bytes st = []"
  shows "rest_bytes st = []"
proof (rule idle_rest)
  have "Chunk c \<notin> snd ` set (cq_bufs st)" for c
    using assms by (force simp: cq_inv_def cq_bytes_def bufs_bytes_def list_all_iff chunk_full_def)
  with assms(1) show "idle st" by (auto simp: cq_inv_def chunk_state_ok_def idle_def chunk_alive_def list_all_length)
qed

text \<open>A round of a transport that makes progress: all that is queued is written, then all of it acknowledged.\<close>

definition cq_round :: "chunk_stream \<Rightarrow> chunk_stream result" where
  "cq_round st = cq_run [Cq_write (length (cq_bytes st) - unat (cq_unacked st)), Cq_ack (length (cq_bytes st))] st"

fun cq_rounds :: "nat \<Rightarrow> chunk_stream \<Rightarrow> chunk_stream result" where
  "cq_rounds 0 st = Inr st"
| "cq_rounds (Suc n) st = and_then (cq_round st) (cq_rounds n)"

lemma cq_round_ok:
  assumes inv: "cq_inv st"
  shows "\<exists>st'. cq_round st = Inr st' \<and> cq_inv st' \<and> cq_log st' @ rest_bytes st' = cq_log st @ rest_bytes st \<and>
    (cq_bytes st \<noteq> [] \<longrightarrow> load st' < load st)"
proof -
  let ?k = "length (cq_bytes st) - unat (cq_unacked st)" let ?st = "cq_wrote (of_nat ?k) st"
  have le: "unat (cq_unacked st) \<le> length (cq_bytes st)" "length (cq_bytes st) < 2 ^ 64" using inv by (simp_all add: cq_inv_def)
  then have step: "cq_step (Cq_write ?k) st = Inr ?st" by simp
  with cq_step_ok [OF inv, of "Cq_write ?k"] have inv1: "cq_inv ?st" by simp
  have same: "cq_bytes ?st = cq_bytes st" "load ?st = load st" "cq_log ?st = cq_log st" "rest_bytes ?st = rest_bytes st"
    by (simp_all add: cq_wrote_def cq_bytes_def load_def rest_bytes_def)
  have "cq_unacked ?st = of_nat (length (cq_bytes st))"
    using le(1) by (simp add: cq_wrote_def of_nat_diff)
  then have "unat (cq_unacked ?st) = length (cq_bytes st)" using unat_of_nat_u64 [OF le(2)] by simp
  with cq_acknowledge_ok [OF inv1, of "length (cq_bytes st)"] obtain st' stale where
    a: "cq_acknowledge (of_nat (length (cq_bytes st))) ?st = Inr (st', stale)" "cq_inv st'"
    "cq_log st' @ rest_bytes st' = cq_log st @ rest_bytes st" "cq_bytes st \<noteq> [] \<longrightarrow> load st' < load st"
    by (auto simp: same)
  have "cq_round st = Inr st'"
    using step a(1) \<open>unat (cq_unacked ?st) = _\<close> by (simp add: cq_round_def del: cq_step.simps(1))
  with a show ?thesis by blast
qed

lemma cq_rounds_complete:
  "cq_inv st \<Longrightarrow> \<exists>n st'. n \<le> load st \<and> cq_rounds n st = Inr st' \<and> cq_inv st' \<and> cq_bytes st' = [] \<and>
     cq_log st' @ rest_bytes st' = cq_log st @ rest_bytes st"
proof (induction "load st" arbitrary: st rule: less_induct)
  case less
  show ?case
  proof (cases "cq_bytes st = []")
    case True
    with less.prems show ?thesis by (intro exI [of _ 0] exI [of _ st]) simp
  next
    case False
    with cq_round_ok [OF less.prems] obtain st1 where
      st1: "cq_round st = Inr st1" "cq_inv st1" "cq_log st1 @ rest_bytes st1 = cq_log st @ rest_bytes st" "load st1 < load st"
      by blast
    from less.hyps [OF st1(4,2)] obtain n st' where
      "n \<le> load st1" "cq_rounds n st1 = Inr st'" "cq_inv st'" "cq_bytes st' = []"
      "cq_log st' @ rest_bytes st' = cq_log st1 @ rest_bytes st1" by blast
    with st1 show ?thesis by (intro exI [of _ "Suc n"] exI [of _ st']) simp
  qed
qed

lemma start_ok:
  assumes inv: "cq_inv st" and idle: "idle st" and p: "prog_ok p" "chain_prog p"
    and fits: "length (cq_bytes st) + length (prog_bytes p) < 2 ^ 64"
  shows "\<exists>st1. chunk_run [Act (Send_chunks p)] st = (st1, Inr ()) \<and> cq_inv st1 \<and>
    cq_log st1 @ rest_bytes st1 = cq_log st @ prog_bytes p"
proof -
  from inv have ok: "senders_ok st" "chain_state st" by (simp_all add: cq_inv_def chunk_state_ok_def)
  have "chunk_alive [Act (Send_chunks p)] st" using inv by (auto simp: cq_inv_def chunk_state_ok_def chunk_alive_def)
  from chunk_run_completes [OF _ ok(1) this] p obtain st1 where
    r: "chunk_run [Act (Send_chunks p)] st = (st1, Inr ())" "senders_ok st1" "chunk_alive [] st1" by auto
  from chunk_run_order [OF r(1), of "[Send_chunks p]" "[]"] ok p idle idle_rest [OF idle]
  have o: "chain_state st1" "cq_log st1 @ rest_bytes st1 = cq_log st @ prog_bytes p" by simp_all
  from chunk_run_queue [of "[Act (Send_chunks p)]" st, unfolded r(1) fst_conv] obtain new where
    q: "cq_bufs st1 = cq_bufs st @ new" "cq_log st1 = cq_log st @ bufs_bytes new" "cq_unacked st1 = cq_unacked st" "list_all chunk_full new"
    by blast
  have bytes: "cq_bytes st1 = cq_bytes st @ bufs_bytes new" by (simp add: cq_bytes_def q(1))
  have "prog_bytes p = bufs_bytes new @ rest_bytes st1" using o(2) q(2) by simp
  with fits have "length (cq_bytes st1) + length (rest_bytes st1) < 2 ^ 64" by (simp add: bytes)
  with inv r o q bytes have "cq_inv st1" by (auto simp: cq_inv_def chunk_state_ok_def)
  with r(1) o(2) show ?thesis by blast
qed

text \<open>
  C27: Chunked sends that start each other arrive in order and complete.  A stream in which no chunked send is active is
  given one whose callbacks do not throw; every \<^verbatim>\<open>done\<close> callback may send data and start, as its last action, the next
  chunked send.  If the bytes queued and programmed fit in memory, then whatever the transport writes and acknowledges
  afterwards, in any portions, no assertion fails and no exception is thrown, the bytes that entered the stream
  are a prefix of what the application programmed (the chunks of a send, then what its \<^verbatim>\<open>done\<close> callback sends, then the chunks
  that it starts, and so on), the queue holds the end of that prefix, and all of it was sent once the queue has no bytes left.  That state
  is reached: after a bounded number of rounds in which everything queued is written and acknowledged.
\<close>

theorem chained_chunks_complete:
  assumes "cq_inv st" and "idle st" and "prog_ok p" and "chain_prog p"
    and "length (cq_bytes st) + length (prog_bytes p) < 2 ^ 64"
  shows "\<exists>st1. chunk_run [Act (Send_chunks p)] st = (st1, Inr ()) \<and>
    (\<forall>ops. \<exists>st2 acked rest. cq_run ops st1 = Inr st2 \<and> cq_log st2 = acked @ cq_bytes st2 \<and>
       cq_log st2 @ rest = cq_log st @ prog_bytes p \<and> (cq_bytes st2 = [] \<longrightarrow> rest = [])) \<and>
    (\<exists>n st2. n \<le> load st1 \<and> cq_rounds n st1 = Inr st2 \<and> cq_bytes st2 = [] \<and> cq_log st2 = cq_log st @ prog_bytes p)"
proof -
  from start_ok [OF assms] obtain st1 where st1: "chunk_run [Act (Send_chunks p)] st = (st1, Inr ())" "cq_inv st1"
    "cq_log st1 @ rest_bytes st1 = cq_log st @ prog_bytes p" by blast
  have any: "\<exists>st2 acked rest. cq_run ops st1 = Inr st2 \<and> cq_log st2 = acked @ cq_bytes st2 \<and>
      cq_log st2 @ rest = cq_log st @ prog_bytes p \<and> (cq_bytes st2 = [] \<longrightarrow> rest = [])" for ops
  proof -
    from cq_run_ok [OF st1(2), of ops] obtain st2 where
      st2: "cq_run ops st1 = Inr st2" "cq_inv st2" "cq_log st2 @ rest_bytes st2 = cq_log st @ prog_bytes p"
      unfolding st1(3) by blast
    from st2(2) obtain acked where "cq_log st2 = acked @ cq_bytes st2" by (auto simp: cq_inv_def)
    with st2 drained_idle [OF st2(2)] show ?thesis by blast
  qed
  from cq_rounds_complete [OF st1(2)] obtain n st2 where
    n: "n \<le> load st1" "cq_rounds n st1 = Inr st2" "cq_inv st2" "cq_bytes st2 = []" "cq_log st2 @ rest_bytes st2 = cq_log st @ prog_bytes p"
    unfolding st1(3) by blast
  with drained_idle [OF n(3,4)] have "cq_log st2 = cq_log st @ prog_bytes p" by simp
  with st1(1) any n show ?thesis by blast
qed

text \<open>The three chunked sends of \<^verbatim>\<open>tests/005-chunked-sender.cpp\<close>, with shorter chunks: by value, by pointer, by smart pointer.\<close>

definition test_005 :: sender_prog where
  "test_005 = Prog [By_value [1], By_value [2], By_value [3]]
     (Some [Send_chunks (Prog [By_pointer (Some [4]), By_pointer (Some [5]), By_pointer (Some [6])]
       (Some [Send_chunks (Prog [By_pointer (Some [7]), By_pointer (Some [8])] (Some [Send [99]]) 2)]) 2)]) 2"

theorem chained_chunks_complete_witness:
  "\<exists>st1 n st2. chunk_run [Act (Send_chunks test_005)]
       \<lparr>cq_bufs = [([72], Owned)], cq_senders = [], cq_unacked = 1, cq_log = [72]\<rparr> = (st1, Inr ()) \<and>
     cq_rounds n st1 = Inr st2 \<and> cq_bytes st2 = [] \<and> cq_log st2 = [72, 1, 2, 3, 4, 5, 6, 7, 8, 99]"
proof -
  let ?st = "\<lparr>cq_bufs = [([72], Owned)], cq_senders = [], cq_unacked = 1, cq_log = [72]\<rparr>"
  have b: "prog_bytes test_005 = [1, 2, 3, 4, 5, 6, 7, 8, 99]"
    by (simp add: test_005_def script_bytes_def no_data_def chunk_view_def)
  have "idle ?st" "prog_ok test_005" "chain_prog test_005" "length (cq_bytes ?st) + length (prog_bytes test_005) < 2 ^ 64"
    by (simp_all add: idle_def b cq_bytes_def bufs_bytes_def) (simp_all add: test_005_def thrown_def)
  moreover have "cq_inv ?st"
    by (simp add: cq_inv_def chunk_state_ok_def senders_ok_def chunk_alive_def chain_state_def cq_bytes_def rest_bytes_def)
  ultimately show ?thesis using chained_chunks_complete [of ?st test_005] b by auto
qed

text \<open>
  An exception of the chunk callback ends the program when a chunk is being released, since the destructor it leaves
  must not throw; from \<^verbatim>\<open>send_chunks\<close> itself it reaches the caller, and the chunks queued before stay in the stream.
\<close>

theorem chunk_callback_throws:
  assumes "next_of c st = Some (Throws f # sc)" and "0 < length b" and "length b < 2 ^ 64" and "of_nat (length b) \<le> cq_unacked st"
  shows "cq_acknowledge (of_nat (length b)) (st\<lparr>cq_bufs := (b, Chunk c) # bs\<rparr>) = Inl Process_abort \<and>
    chunk_run [Act (Send_chunks (Prog [By_value [d], Throws f] dn 2))] st =
      (cq_send [d] (Chunk (length (cq_senders st)))
        (st\<lparr>cq_senders := cq_senders st @ [\<lparr>co_next = Some [], co_done = dn\<rparr>]\<rparr>), Inl f)"
proof
  let ?n = "of_nat (length b) :: u64"
  have n: "?n \<noteq> 0" "buf_size (b, Chunk c) = ?n" using assms(2,3) by (simp_all add: of_nat_eq_0_u64 buf_size_def)
  let ?st = "st\<lparr>cq_bufs := (b, Chunk c) # bs, cq_unacked := cq_unacked st - ?n\<rparr>"
  have "release_front ?st = Inl Process_abort"
    using assms(1) by (simp add: release_front_def next_of_def front_answer_def thrown_def split: if_splits)
  then have "cq_ack_loop ?n ?st = Inl Process_abort" using n by (simp add: cq_ack_loop.simps [of ?n])
  with assms(4) show "cq_acknowledge ?n (st\<lparr>cq_bufs := (b, Chunk c) # bs\<rparr>) = Inl Process_abort"
    by (simp add: cq_acknowledge_def)
  show "chunk_run [Act (Send_chunks (Prog [By_value [d], Throws f] dn 2))] st =
      (cq_send [d] (Chunk (length (cq_senders st)))
        (st\<lparr>cq_senders := cq_senders st @ [\<lparr>co_next = Some [], co_done = dn\<rparr>]\<rparr>), Inl f)"
    by (simp add: next_of_def front_answer_def thrown_def no_data_def chunk_view_def put_sender_def cq_send_def numeral_2_eq_2)
qed

theorem chunk_callback_throws_witness:
  "cq_acknowledge 1 \<lparr>cq_bufs = [([1], Chunk 0)], cq_senders = [\<lparr>co_next = Some [Throws Runtime_error], co_done = None\<rparr>],
     cq_unacked = 1, cq_log = [1]\<rparr> = Inl Process_abort"
  using chunk_callback_throws [of 0 "\<lparr>cq_bufs = [], cq_senders = [\<lparr>co_next = Some [Throws Runtime_error], co_done = None\<rparr>],
      cq_unacked = 1, cq_log = [1]\<rparr>" Runtime_error "[]" "[1]" "[]"]
  by (simp add: next_of_def)

section \<open>Agreement with the stream\<close>

text \<open>
  Senders whose \<^verbatim>\<open>done\<close> callback sends nothing and whose chunk callback does not throw are those of \<open>Quic_Stream\<close>, where a
  chunk is its bytes whatever container held it.
\<close>

definition plain_script :: "container list \<Rightarrow> bool" where
  "plain_script sc \<longleftrightarrow> list_all (\<lambda>d. thrown d = None \<and> length (chunk_view d) < 2 ^ 64) sc"

definition plain_sender :: "chunk_obj \<Rightarrow> chunk_sender \<Rightarrow> bool" where
  "plain_sender x y \<longleftrightarrow> done_acts x = [] \<and> next_chunk y = map_option (map chunk_view) (co_next x) \<and>
     (case co_next x of None \<Rightarrow> True | Some sc \<Rightarrow> plain_script sc)"

lemma no_data_size:
  "thrown d = None \<Longrightarrow> length (chunk_view d) < 2 ^ 64 \<Longrightarrow> no_data d \<longleftrightarrow> (of_nat (length (chunk_view d)) :: u64) = 0"
  by (auto simp: thrown_def no_data_def chunk_view_def of_nat_eq_0_u64 split: container.splits option.splits)

lemma plain_next:
  assumes "list_all2 plain_sender (cq_senders st) cs"
  obtains st1 where "\<And>ws. chunk_run (Next c # ws) st = chunk_run ws st1"
    "cq_bufs st1 = cq_bufs st @ fst (queue_next_chunk c cs)"
    "list_all2 plain_sender (cq_senders st1) (snd (queue_next_chunk c cs))"
proof (cases "next_of c st")
  case None
  have len: "length cs = length (cq_senders st)" using assms by (simp add: list_all2_lengthD)
  have "queue_next_chunk c cs = ([], cs)"
  proof (cases "c < length cs")
    case True
    with list_all2_nthD [OF assms, of c] None len show ?thesis
      by (auto simp: queue_next_chunk_def next_of_def plain_sender_def split: if_splits)
  qed (simp add: queue_next_chunk_def)
  with None assms that [of st] show ?thesis by simp
next
  case (Some sc)
  let ?x = "cq_senders st ! c" and ?y = "cs ! c" and ?d = "front_answer sc"
  from next_of_Some [OF Some] have c: "c < length (cq_senders st)" "co_next ?x = Some sc" by auto
  with assms have c': "c < length cs" by (simp add: list_all2_lengthD)
  from list_all2_nthD [OF assms c(1)] c(2) have y: "next_chunk ?y = Some (map chunk_view sc)" "done_acts ?x = []" "plain_script sc"
    by (simp_all add: plain_sender_def)
  from y(3) have d: "thrown ?d = None" "length (chunk_view ?d) < 2 ^ 64" "plain_script (tl sc)"
    by (cases sc; simp add: plain_script_def front_answer_def thrown_def chunk_view_def)+
  have data: "(case map chunk_view sc of [] \<Rightarrow> [] | b # _ \<Rightarrow> b) = chunk_view ?d"
    by (cases sc) (simp_all add: front_answer_def chunk_view_def)
  let ?put = "\<lambda>n. put_sender c (co_next_update (\<lambda>_. n)) st"
  have upd: "list_all2 plain_sender (cq_senders (?put n)) (cs[c := y'])" if "plain_sender (?x\<lparr>co_next := n\<rparr>) y'" for n y'
    using list_all2_update_cong [OF assms that] by simp
  show ?thesis
  proof (cases "no_data ?d")
    case True
    have "chunk_run (Next c # ws) st = chunk_run ws (?put None)" for ws using Some d True y(2) by simp
    moreover have "queue_next_chunk c cs = ([], cs[c := ?y\<lparr>next_chunk := None,
        done_calls := done_calls ?y + (if has_done ?y then 1 else 0)\<rparr>])"
      using c' y(1) True no_data_size [OF d(1,2)] by (simp add: queue_next_chunk_def Let_def data)
    ultimately show ?thesis using that [of "?put None"] upd y(2) by (simp add: plain_sender_def)
  next
    case False
    let ?st = "cq_send (chunk_view ?d) (Chunk c) (?put (Some (tl sc)))"
    have "chunk_run (Next c # ws) st = chunk_run ws ?st" for ws using Some d False by simp
    moreover have "queue_next_chunk c cs = ([(chunk_view ?d, Chunk c)], cs[c := ?y\<lparr>next_chunk := Some (tl (map chunk_view sc)),
        chunks_sent := chunks_sent ?y + 1\<rparr>])"
      using c' y(1) False no_data_size [OF d(1,2)] by (simp add: queue_next_chunk_def Let_def data)
    ultimately show ?thesis using that [of ?st] upd y(2) d(3) by (simp add: plain_sender_def map_tl)
  qed
qed

lemma plain_nexts:
  "list_all2 plain_sender (cq_senders st) (senders s) \<Longrightarrow> cq_bufs st = user_buffers s \<Longrightarrow>
   \<exists>st1. chunk_run (replicate n (Next c)) st = (st1, Inr ()) \<and> cq_bufs st1 = user_buffers (chunk_make c n s) \<and>
     list_all2 plain_sender (cq_senders st1) (senders (chunk_make c n s))"
proof (induction n arbitrary: st s)
  case (Suc n)
  obtain new cs where q: "queue_next_chunk c (senders s) = (new, cs)" by fastforce
  from plain_next [OF Suc.prems(1), of c] obtain st1 where
    st1: "\<And>ws. chunk_run (Next c # ws) st = chunk_run ws st1" "cq_bufs st1 = cq_bufs st @ new" "list_all2 plain_sender (cq_senders st1) cs"
    by (metis q fst_conv snd_conv)
  from Suc.IH [of st1 "s\<lparr>user_buffers := user_buffers s @ new, senders := cs\<rparr>"] st1 Suc.prems(2) q show ?case by simp
qed simp

text \<open>
  On such senders the two models of \<^verbatim>\<open>send_chunks\<close>, and of releasing a chunk, do the same to the queue.
\<close>

theorem plain_chunks_agree:
  assumes "list_all2 plain_sender (cq_senders st) (senders s)" and "cq_bufs st = user_buffers s" and "plain_script sc" and "1 \<le> k"
  shows "(\<exists>st1 s1 eff. chunk_run [Act (Send_chunks (Prog sc None k))] st = (st1, Inr ()) \<and>
      send_chunks (map chunk_view sc) False k s = Inr (s1, eff) \<and> cq_bufs st1 = user_buffers s1 \<and>
      list_all2 plain_sender (cq_senders st1) (senders s1)) \<and>
    (\<exists>st1. chunk_run [Next c] st = (st1, Inr ()) \<and> cq_bufs st1 = user_buffers s @ fst (drop_keep (Chunk c) (senders s)) \<and>
      list_all2 plain_sender (cq_senders st1) (snd (drop_keep (Chunk c) (senders s))))"
proof
  let ?y = "\<lparr>next_chunk = Some (map chunk_view sc), has_done = False, done_calls = 0, chunks_sent = 0\<rparr>"
  let ?st = "st\<lparr>cq_senders := cq_senders st @ [\<lparr>co_next = Some sc, co_done = None\<rparr>]\<rparr>" and ?s = "s\<lparr>senders := senders s @ [?y]\<rparr>"
  have len: "length (cq_senders st) = length (senders s)" using assms(1) by (simp add: list_all2_lengthD)
  have "list_all2 plain_sender (cq_senders ?st) (senders ?s)"
    using assms(1,3) by (simp add: list_all2_appendI plain_sender_def done_acts_def)
  from plain_nexts [OF this, of "nat k" "length (senders s)"] assms(2,4) len
  show "\<exists>st1 s1 eff. chunk_run [Act (Send_chunks (Prog sc None k))] st = (st1, Inr ()) \<and>
      send_chunks (map chunk_view sc) False k s = Inr (s1, eff) \<and> cq_bufs st1 = user_buffers s1 \<and>
      list_all2 plain_sender (cq_senders st1) (senders s1)"
    by (auto simp: send_chunks_def Let_def)
  from plain_next [OF assms(1), of c] obtain st1 where "\<And>ws. chunk_run (Next c # ws) st = chunk_run ws st1"
    "cq_bufs st1 = cq_bufs st @ fst (queue_next_chunk c (senders s))" "list_all2 plain_sender (cq_senders st1) (snd (queue_next_chunk c (senders s)))"
    by blast
  then show "\<exists>st1. chunk_run [Next c] st = (st1, Inr ()) \<and> cq_bufs st1 = user_buffers s @ fst (drop_keep (Chunk c) (senders s)) \<and>
      list_all2 plain_sender (cq_senders st1) (snd (drop_keep (Chunk c) (senders s)))"
    using assms(2) by (simp add: drop_keep_def)
qed

theorem plain_chunks_agree_witness:
  "\<exists>st1 s1 eff. chunk_run [Act (Send_chunks (Prog [By_value [1, 2], By_pointer None] None 2))] \<lparr>cq_bufs = [], cq_senders = [], cq_unacked = 0, cq_log = []\<rparr> =
      (st1, Inr ()) \<and> send_chunks [[1, 2], []] False 2 (stream_new None None 4) = Inr (s1, eff) \<and> cq_bufs st1 = user_buffers s1"
proof -
  have "plain_script [By_value [1, 2], By_pointer None]" by (simp add: plain_script_def thrown_def chunk_view_def)
  from plain_chunks_agree [OF _ _ this, of "\<lparr>cq_bufs = [], cq_senders = [], cq_unacked = 0, cq_log = []\<rparr>" "stream_new None None 4" 2 0]
  obtain st1 s1 eff where "chunk_run [Act (Send_chunks (Prog [By_value [1, 2], By_pointer None] None 2))]
      \<lparr>cq_bufs = [], cq_senders = [], cq_unacked = 0, cq_log = []\<rparr> = (st1, Inr ())"
    "send_chunks (map chunk_view [By_value [1, 2], By_pointer None]) False 2 (stream_new None None 4) = Inr (s1, eff)"
    "cq_bufs st1 = user_buffers s1" by (auto simp: stream_new_def simp del: chunk_run.simps)
  then show ?thesis by (simp add: chunk_view_def del: chunk_run.simps)
qed

end
