(* ===== verification/Quic_Fin.thy ===== *)
theory Quic_Fin
  imports Quic_Conn_Life
begin

text \<open>
  The FIN of a stream over the life of its connection (\<^verbatim>\<open>src/connection.cpp\<close>): once a flush has marked it as sent, no step of the
  connection takes the mark back and no later flush visits the stream, whether or not ngtcp2 wrote the FIN.
\<close>

section \<open>Marks are never taken back\<close>

definition fins :: "'ng connection \<Rightarrow> 'ng connection \<Rightarrow> bool" where
  "fins c c' \<longleftrightarrow> (\<forall>r < length (heap c). r < length (heap c') \<and> (sent_fin (heap c ! r) \<longrightarrow> sent_fin (heap c' ! r)))"

lemma fins_trans: "fins a b \<Longrightarrow> fins b c \<Longrightarrow> fins a c"
  by (auto simp: fins_def)

lemma fins_heap: "heap c' = heap c \<Longrightarrow> fins c c'"
  by (simp add: fins_def)

lemma fins_fields [simp]: "fins c c" "fins c (c\<lparr>cn_ng := g\<rparr>)" "fins c (c\<lparr>streams := m\<rparr>)"
  by (simp_all add: fins_heap)

lemma fins_snoc: "heap c' = heap c @ [s] \<Longrightarrow> fins c c'"
  by (simp add: fins_def nth_append)

lemma fins_put: "sent_fin s = sent_fin (heap c ! i) \<Longrightarrow> fins c (put_stream i s c)"
  by (auto simp: fins_def put_stream_def) (metis nth_list_update_eq nth_list_update_neq)+

lemma heap_effects [simp]: "heap (stream_effects ng es c) = heap c"
proof (induction es arbitrary: c)
  case (Cons e es)
  then show ?case by (cases e) (simp_all add: stream_effects_def io_ready_def)
qed (simp add: stream_effects_def)

lemma fins_put_effects: "sent_fin s = sent_fin (heap c ! i) \<Longrightarrow> fins c (stream_effects ng es (put_stream i s c))"
  by (rule fins_trans [OF fins_put fins_heap]) simp_all

lemma fin_make: "sent_fin (chunk_make c n s) = sent_fin s"
  by (induction c n s rule: chunk_make.induct) (auto split: prod.splits)

lemma fin_chunks: "send_chunks script d k s = Inr (s', es) \<Longrightarrow> sent_fin s' = sent_fin s"
  by (auto simp: send_chunks_def Let_def fin_make split: if_splits)

lemma fin_close: "stream_close code s = (s', es) \<Longrightarrow> sent_fin s' = sent_fin s"
  by (auto simp: stream_close_def Let_def split: if_splits)

lemma fin_mark: "stream_mark_closed code s = (s', cs) \<Longrightarrow> sent_fin s' = sent_fin s"
  by (auto simp: stream_mark_closed_def)

lemma fin_ack: "acknowledge n s = Inr (s', stale) \<Longrightarrow> sent_fin s' = sent_fin s"
  by (auto simp: acknowledge_def Let_def split: if_splits sum.splits list.splits)

section \<open>Calls and callbacks\<close>

lemma fins_action:
  assumes "do_action ng a c = Inr c'"
  shows "fins c c'"
proof (cases a)
  case (Act_send r buf keep)
  with assms show ?thesis by (auto simp: append_buffer_def split: if_splits intro!: fins_put_effects)
next
  case (Act_send_chunks r script d k)
  with assms show ?thesis by (auto split: if_splits elim!: and_then_InrE intro!: fins_put_effects fin_chunks)
next
  case (Act_close r code)
  with assms show ?thesis by (auto split: if_splits prod.splits intro!: fins_put_effects fin_close)
next
  case (Act_set_data_callback r cb)
  with assms show ?thesis by (auto split: if_splits intro!: fins_put)
next
  case (Act_open_stream data_cb close_cb)
  with assms show ?thesis by (auto simp: get_new_stream_def Let_def split: prod.splits option.splits intro!: fins_snoc)
qed

lemma fins_actions: "do_actions ng as c = Inr c' \<Longrightarrow> fins c c'"
  by (induction as arbitrary: c) (auto elim!: and_then_InrE intro: fins_heap fins_trans fins_action)

lemma fins_call: "do_actions ng as (c\<lparr>calls := cs\<rparr>) = Inr c' \<Longrightarrow> fins c c'"
  using fins_trans [OF fins_heap fins_actions, of "c\<lparr>calls := cs\<rparr>" c] by simp

lemma fins_close_callback: "call_close_callback ng ap cb sid code c = Inr c' \<Longrightarrow> fins c c'"
  by (auto simp: call_close_callback_def Let_def split: close_cb.splits intro: fins_heap fins_call)

lemma fins_receive:
  assumes "stream_receive ng ap sid data fin c = Inr (rv, c')"
  shows "fins c c'"
proof -
  from assms obtain r good c2 where d: "call_data_callback ng ap r sid data c = Inr (good, c2)"
    and c': "c' = snd (receive_done ng r sid data fin good c2)"
    by (auto simp: stream_receive_def elim!: and_then_InrE)
  from d have "fins c c2"
    by (auto simp: call_data_callback_def Let_def split: option.splits prod.splits elim!: and_then_InrE intro: fins_call)
  moreover have "fins c2 c'"
    by (auto simp: c' receive_done_def Let_def split: prod.splits intro!: fins_put_effects fin_close)
  ultimately show ?thesis by (rule fins_trans)
qed

lemma fins_stream_ack: "stream_ack ng sid n c = Inr (rv, c') \<Longrightarrow> fins c c'"
  by (auto simp: stream_ack_def split: option.splits elim!: and_then_InrE intro: fins_heap fins_put_effects dest: fin_ack)

lemma fins_opened:
  assumes "stream_opened ng ap sid c = Inr (rv, c')"
  shows "fins c c'"
proof -
  let ?c = "c\<lparr>heap := heap c @ [set_ready (stream_new (ctx_stream_data_cb (cn_ctx c)) (ctx_stream_close_cb (cn_ctx c)) sid)]\<rparr>"
  from assms obtain code c1 where o: "call_open_callback ng ap sid ?c = Inr (code, c1)"
    and e: "enter_stream ng (length (heap c)) sid code c1 = Inr (rv, c')"
    by (auto simp: stream_opened_def elim!: and_then_InrE)
  have "fins c ?c" by (rule fins_snoc) simp
  moreover from o have "fins ?c c1"
    by (auto simp: call_open_callback_def Let_def split: option.splits prod.splits elim!: and_then_InrE
        intro: fins_heap fins_call)
  moreover from e have "fins c1 c'"
    by (auto simp: enter_stream_def split: if_splits prod.splits bool.splits intro: fins_put_effects fins_heap dest: fin_close)
  ultimately show ?thesis by (blast intro: fins_trans)
qed

lemma fins_closed:
  assumes "stream_closed ng ap sid code c = Inr c'"
  shows "fins c c'"
proof (cases "map_of (streams c) sid")
  case None
  with assms show ?thesis by (auto simp: stream_closed_def split: if_splits intro: fins_heap)
next
  case (Some r)
  obtain s new where m: "stream_mark_closed code (heap c ! r) = (s, new)" by fastforce
  from assms Some m obtain c1 where
    c1: "c1 = put_stream r s c \<or> (\<exists>cb. call_close_callback ng ap cb (stream_id s) code (put_stream r s c) = Inr c1)"
    and c': "c' = erase_stream ng sid c1"
    by (auto simp: stream_closed_def split: if_splits list.splits close_call.splits elim!: and_then_InrE)
  have "fins c (put_stream r s c)" by (rule fins_put [OF fin_mark [OF m]])
  moreover have "fins (put_stream r s c) c1" using c1 by (auto intro: fins_heap fins_close_callback)
  moreover have "fins c1 c'" by (rule fins_heap) (simp add: c' erase_stream_def io_ready_def)
  ultimately show ?thesis by (blast intro: fins_trans)
qed

lemma fins_pending: "fins c (check_pending_loop ng avail popped ps c)"
proof (induction ng avail popped ps c rule: check_pending_loop.induct)
  case (2 ng avail popped r rs c)
  have "fins c ((put_stream r (set_ready ((heap c ! r)\<lparr>stream_id := sid\<rparr>)) c)\<lparr>cn_ng := g, streams := m\<rparr>)" for sid g m
    by (rule fins_trans [OF fins_put fins_heap]) (simp_all add: set_ready_def)
  note step = fins_trans [OF this]
  from 2 step show ?case by (auto split: prod.splits option.splits intro: fins_heap)
qed (simp add: fins_heap)

lemma fins_callback: "ng_callback ng ap e c = Inr (rv, c') \<Longrightarrow> fins c c'"
  by (cases e) (auto simp: extend_max_local_streams_bidi_def check_pending_streams_def Let_def elim!: and_then_InrE
      intro: fins_receive fins_stream_ack fins_opened fins_closed fins_pending fins_heap)

section \<open>Flushing\<close>

lemma fins_frame: "flush_frame c c' \<Longrightarrow> fins c c'"
  by (auto simp: flush_frame_def fins_def list_all2_conv_all_nth flushed_def)

lemma on_io_ready_frame:
  assumes "env_ok env" and "writev_ok ng" and "heap_ok c" and "conn_inv env live c"
    and r: "on_io_ready fuel ng env start ts c os = Some (Inr (c', os'))"
  shows "fins c c'"
proof -
  from r obtain st where st: "flush_streams fuel ng env start ts c os = Some (Inr st)"
    and c': "c' = schedule_retransmit ng ts (fl_conn st)"
    by (auto simp: on_io_ready_def split: option.splits sum.splits)
  have "fins c (fl_conn st)"
  proof (cases "0 < n_packets c")
    case True
    with st show ?thesis by (auto simp: flush_streams_def flush_start_def split: if_splits intro: fins_heap)
  next
    case False
    with assms(3,4) have "conn_ready c" "n_packets c = 0" by (simp_all add: conn_ready_def conn_inv_def send_inv_def)
    with flush_streams_sound [OF assms(1,2) this st] show ?thesis by (auto simp: flush_ended_def Let_def intro: fins_frame)
  qed
  moreover have "fins (fl_conn st) c'" by (rule fins_heap) (simp add: c' schedule_retransmit_def Let_def)
  ultimately show ?thesis by (rule fins_trans)
qed

lemma fins_step:
  assumes env: "env_ok env" and ng: "writev_ok ng" and ids: "ids_ok ng live"
    and step: "conn_step ng ap env live x y" and inv: "conn_inv env live (fst x)"
  shows "fins (fst x) (fst y)"
  using step inv
proof (cases rule: conn_step.cases)
  case (io_step c fuel start ts os c' os')
  let ?c = "c\<lparr>io_trigger := False\<rparr>"
  have "heap_ok ?c" using io_step by (simp add: heap_ok_def)
  moreover have "keeps live c ?c" by (intro keeps_ext) simp_all
  with inv io_step have "conn_inv env live ?c" by (auto intro: keeps_conn_inv keeps_imp_inv)
  ultimately have "fins ?c c'" using on_io_ready_frame [OF env ng] io_step by (auto simp: io_event_def)
  with io_step fins_trans [OF fins_heap, of ?c c c'] show ?thesis by simp
next
  case (writeable_step c fuel start ts os c' os')
  from writeable_send [OF env _ writeable_step(4), of live os] inv writeable_step obtain ok cancel c1 os1 where
    s: "conn_send env (c\<lparr>write_waits := write_waits c - 1\<rparr>) os = Some (Inr (ok, cancel, c1, os1))"
    and inv1: "conn_inv env live c1" and h: "heap c1 = heap c" "streams c1 = streams c" by auto
  then have "heap_ok c1" using writeable_step by (simp add: heap_ok_def)
  with on_io_ready_frame [OF env ng _ inv1] writeable_step s have "fins c1 c'"
    by (auto simp: writeable_event_def split: if_splits intro: fins_heap)
  with writeable_step fins_trans [OF fins_heap, of c1 c c'] h show ?thesis by simp
next
  case (timer_step c fuel start ts os rv c' os')
  let ?c = "c\<lparr>cn_ng := snd (ng_handle_expiry ng ts (cn_ng c)), retransmit_timer := None\<rparr>"
  have "keeps live c ?c" by (intro keeps_ext) (simp_all add: ids_ok_mono(3) [OF ids])
  with inv timer_step have "conn_inv env live ?c" by (auto intro: keeps_conn_inv keeps_imp_inv)
  moreover have "heap_ok ?c" using timer_step by (simp add: heap_ok_def)
  ultimately have "fins ?c c'" using on_io_ready_frame [OF env ng, of ?c] timer_step
    by (auto simp: retransmit_event_def Let_def split: prod.splits if_splits option.splits sum.splits intro: fins_heap)
  with timer_step fins_trans [OF fins_heap, of ?c c c'] show ?thesis by simp
qed (auto intro: fins_action fins_callback fins_heap)

lemma fins_steps:
  assumes env: "env_ok env" and ng: "writev_ok ng" and ids: "ids_ok ng live"
  shows "(conn_step ng ap env live)\<^sup>*\<^sup>* x y \<Longrightarrow> conn_inv env live (fst x) \<Longrightarrow> fins (fst x) (fst y)"
proof (induction rule: rtranclp_induct)
  case (step y z)
  from conn_steps_inv [OF env ng ids step.hyps(1) step.prems] fins_step [OF env ng ids step.hyps(2)] step
  show ?case by (blast intro: fins_trans)
qed (simp add: fins_heap)

section \<open>A FIN that meets congestion\<close>

text \<open>
  ngtcp2 is congested in the states \<open>G\<close>: it writes nothing and stays congested while it is only asked to write.
\<close>

definition congested :: "'ng ngtcp2 \<Rightarrow> 'ng set \<Rightarrow> bool" where
  "congested ng G \<longleftrightarrow> (\<forall>g\<in>G. \<forall>req. \<exists>g'\<in>G. ng_writev_stream ng req g = (Wrote [] (- 1) 0, g'))"

lemma flush_order_tail: "flush_order start c = Some r # rest \<Longrightarrow> filter (\<lambda>x. x = None) rest = [None]"
proof -
  assume o: "flush_order start c = Some r # rest"
  have "\<exists>rs. flush_order start c = map Some rs @ [None]" unfolding flush_order_def Let_def by blast
  then obtain rs where f: "flush_order start c = map Some rs @ [None]" ..
  with o have "rest = map Some (tl rs) @ [None]" by (cases rs) auto
  then show ?thesis by (simp add: filter_map comp_def)
qed

lemma flush_order_head:
  "flush_order start c = Some r # rest \<Longrightarrow> r \<in> snd ` set (streams c) \<and> \<not> sent_fin (heap c ! r)"
proof -
  assume "flush_order start c = Some r # rest"
  then have "Some r \<in> set (flush_order start c)" by simp
  then show ?thesis by (auto simp: flush_order_def Let_def dest!: in_set_dropD in_set_takeD)
qed

text \<open>The flush of a congested connection that comes to a closed stream first.\<close>

lemma congested_flush:
  assumes g: "congested ng G" "cn_ng c \<in> G" and o: "flush_order start c = Some r # rest"
    and s: "is_closing (heap c ! r)" "unsent (heap c ! r) = 0" and n: "n_packets c = 0" and b: "conn_batch_ok (batch c)"
    and st: "flush_streams fuel ng env start ts c os = Some (Inr st)"
  shows "heap (fl_conn st) = (heap c)[r := (heap c ! r)\<lparr>sent_fin := True\<rparr>] \<and> n_packets (fl_conn st) = 0 \<and> fl_os st = os \<and> fl_made st = []"
proof -
  let ?k = "max_stream_packets ng c" and ?s = "heap c ! r"
  let ?req = "\<lambda>sid fin. \<lparr>wr_stream_id = sid, wr_fin = fin, wr_bufs = [], wr_destlen = NGTCP2_MAX_PMTUD_UDP_PAYLOAD_SIZE, wr_ts = ts\<rparr>"
  from g obtain g1 where g1: "ng_writev_stream ng (?req (stream_id ?s) True) (cn_ng c) = (Wrote [] (- 1) 0, g1)" "g1 \<in> G"
    unfolding congested_def by blast
  from g(1) g1(2) obtain g2 where g2: "ng_writev_stream ng (?req (- 1) False) g1 = (Wrote [] (- 1) 0, g2)"
    unfolding congested_def by blast
  let ?c1 = "(put_stream r (?s\<lparr>sent_fin := True\<rparr>) c)\<lparr>cn_ng := g1\<rparr>"
  let ?st1 = "(flush_start start c os)\<lparr>fl_strs := [None], fl_conn := ?c1\<rparr>"
  let ?st2 = "?st1\<lparr>fl_strs := [], fl_conn := ?c1\<lparr>cn_ng := g2\<rparr>\<rparr>"
  have room: "NGTCP2_MAX_PMTUD_UDP_PAYLOAD_SIZE \<le> length (sb_buf (batch c))" using b by (simp add: conn_batch_ok_def utils_consts)
  have p: "pending ?s = Inr []" using s(2) by (simp add: pending_def)
  have sid: "stream_id ((heap c)[r := ?s\<lparr>sent_fin := True\<rparr>] ! r) = stream_id ?s" 
    by (cases "r < length (heap c)") (simp_all add: list_update_beyond)
  have one: "flush_step ng env ?k ts (flush_start start c os) = Some (Inr (Next ?st1))"
    using o s p g1(1) room flush_order_head [OF o] flush_order_tail [OF o]
    by (simp add: flush_step_def flush_start_def flush_write_def put_stream_def sid Let_def)
  have two: "flush_step ng env ?k ts ?st1 = Some (Inr (Next ?st2))"
    using g2 room by (simp add: flush_step_def flush_start_def flush_write_def put_stream_def Let_def)
  have "\<exists>m. fuel = Suc (Suc (Suc m))"
  proof (rule ccontr)
    assume "\<not> ?thesis"
    then have "fuel = 0 \<or> fuel = 1 \<or> fuel = 2" by presburger
    with st n one two o show False
      by (auto simp: flush_streams_def flush_start_def numeral_2_eq_2 split: if_splits)
  qed
  then obtain m where m: "fuel = Suc (Suc (Suc m))" ..
  have "flush_loop fuel ng env ?k ts (flush_start start c os) = Some (Inr (Leave_loop ?st2))"
    using one two o m by (simp add: flush_start_def)
  with st n have "st = flush_done ng ts ?st2"
    by (auto simp: flush_streams_def n_packets_def put_stream_def split: if_splits)
  with n show ?thesis by (simp add: flush_done_def put_stream_def n_packets_def flush_start_def)
qed

text \<open>
  C40: A FIN that meets congestion is lost for good.  When the io event of a connection comes first to a closed stream that
  has nothing unsent, and ngtcp2 is congested, then no packet is written, yet the stream is marked as having sent
  its FIN; and in whatever state the connection gets into afterwards, when the congestion is long over, no
  flush visits the stream, so that its FIN is never offered to ngtcp2 again.
\<close>

theorem fin_lost_when_congested:
  assumes "env_ok env" and "writev_ok ng" and "ids_ok ng live"
    and "make_conn conn_new tls now junk junk_sizes scid dcid p ctx dir hdr = Inr c0"
    and "length junk = NGTCP2_MAX_PMTUD_UDP_PAYLOAD_SIZE * DATAGRAM_BATCH_SIZE" and "length junk_sizes = DATAGRAM_BATCH_SIZE"
    and "(conn_step ng ap env live)\<^sup>*\<^sup>* (c0, os0) (c, os)" and "heap_ok c" and "n_packets c = 0"
    and "flush_order start c = Some r # rest" and "is_closing (heap c ! r)" and "unsent (heap c ! r) = 0"
    and "congested ng G" and "cn_ng c \<in> G"
    and "io_event fuel ng env start ts c os = Some (Inr (c', os'))"
    and "(conn_step ng ap env live)\<^sup>*\<^sup>* (c', os') (c'', os'')"
  shows "n_packets c' = 0 \<and> os' = os \<and> sent_fin (heap c' ! r) \<and> Some r \<notin> set (flush_order start' c'')"
proof -
  let ?c = "c\<lparr>io_trigger := False\<rparr>"
  from conn_steps_inv [OF assms(1-3,7)] make_conn_inv [OF assms(4-6)] have inv: "conn_inv env live c" by auto
  from assms(15) obtain st where st: "flush_streams fuel ng env start ts ?c os = Some (Inr st)"
    and c': "c' = schedule_retransmit ng ts (fl_conn st)" and os': "os' = fl_os st"
    by (auto simp: io_event_def on_io_ready_def split: option.splits sum.splits)
  have "n_packets ?c = 0" "conn_batch_ok (batch ?c)" "flush_order start ?c = Some r # rest"
    using inv assms(9,10) by (simp_all add: conn_inv_def send_inv_def n_packets_def flush_order_def)
  note fl = congested_flush [OF assms(13) _ this(3) _ _ this(1,2) st]
  have h: "heap c' = (heap c)[r := (heap c ! r)\<lparr>sent_fin := True\<rparr>]" "n_packets c' = 0" "os' = os"
    using fl assms(11,12,14) by (simp_all add: c' os' schedule_retransmit_def Let_def n_packets_def)
  have r: "r < length (heap c)"
    using flush_order_head [OF assms(10)] inv by (auto simp: conn_inv_def streams_inv_def conn_wf_def list_all_iff entry_ok_def)
  with h have s: "sent_fin (heap c' ! r)" "r < length (heap c')" by simp_all
  have "conn_step ng ap env live (c, os) (c', os')" by (rule io_step [OF assms(8,15)])
  with inv have "conn_inv env live c'" using conn_step_inv [OF assms(1-3)] by fastforce
  with fins_steps [OF assms(1-3,16)] s have "sent_fin (heap c'' ! r)" by (simp add: fins_def)
  then have "Some r \<notin> set (flush_order start' c'')" by (auto simp: flush_order_def Let_def)
  with h s show ?thesis by simp
qed

text \<open>
  An ngtcp2 that is congested while it has one stream, and writes afterwards: a stream is opened and closed, the io event
  meets the congestion, and then the congestion is over.
\<close>

definition fin_ng :: "nat ngtcp2" where
  "fin_ng = life_ng\<lparr>ng_writev_stream := (\<lambda>req g. (Wrote (if g = 1 then [] else take (wr_destlen req) [7]) (- 1) 0, g))\<rparr>"

lemma fin_ng_ok: "writev_ok fin_ng" "ids_ok fin_ng live_ids" "congested fin_ng {1}"
proof -
  show "writev_ok fin_ng" by (simp add: writev_ok_def fin_ng_def)
  show "ids_ok fin_ng live_ids" using life_ng_ok(2) by (simp add: ids_ok_def fin_ng_def)
  show "congested fin_ng {1}" by (simp add: congested_def fin_ng_def)
qed

definition fin_conn :: "nat connection" where
  "fin_conn = life_conn1\<lparr>heap := [(set_ready (stream_new (Some 1) None 0))\<lparr>is_closing := True, is_shutdown := True, data_callback := None\<rparr>],
     io_trigger := True\<rparr>"

lemma fin_reach: "(conn_step fin_ng life_app (kernel_env 1) live_ids)\<^sup>*\<^sup>* (life_conn, ()) (fin_conn, ())"
proof -
  have "conn_step fin_ng life_app (kernel_env 1) live_ids (life_conn, ()) (life_conn1, ())"
    by (rule app_step [where a = "Act_open_stream None None"]) (simp add: life_conn1_def get_new_stream_def fin_ng_def)
  moreover have "conn_step fin_ng life_app (kernel_env 1) live_ids (life_conn1, ()) (fin_conn, ())"
    by (rule app_step [where a = "Act_close 0 0"])
      (simp add: life_conn1_fields fin_conn_def stream_close_def set_ready_def stream_new_def stream_effects_def put_stream_def io_ready_def
        fin_ng_def life_ng_def sample_ng_def)
  ultimately show ?thesis by (blast intro: converse_rtranclp_into_rtranclp)
qed

lemma fin_conn_facts:
  "heap_ok fin_conn" "n_packets fin_conn = 0" "flush_order 0 fin_conn = [Some 0, None]" "cn_ng fin_conn = 1"
  by (simp_all add: fin_conn_def life_conn1_def get_new_stream_def life_ng_def life_conn_def conn_fresh_def io_ready_def flush_order_def
      n_packets_def heap_ok_def stream_inv_def stream_new_def set_ready_def stream_bytes_def bufs_bytes_def script_total_def)

lemma fin_io: "\<exists>c'. io_event 30 fin_ng (kernel_env 1) 0 5 fin_conn () = Some (Inr (c', ()))"
proof -
  let ?c = "fin_conn\<lparr>io_trigger := False\<rparr>"
  have ng: "ng_max_tx_udp_payload_size fin_ng g = 1200" "ng_send_quantum fin_ng g = 12000" for g
    by (simp_all add: fin_ng_def life_ng_def sample_ng_def)
  have "unat (10 :: u64) = 10" by simp
  then have k: "max_stream_packets fin_ng ?c = 10" by (simp add: max_stream_packets_def ng)
  have "conn_inv (kernel_env 1) live_ids life_conn" by (rule make_conn_inv [OF life_make_eq]) simp_all
  with conn_steps_inv [OF kernel_env_ok fin_ng_ok(1,2) fin_reach] have "conn_inv (kernel_env 1) live_ids fin_conn" by simp
  then have "conn_ready ?c" using fin_conn_facts(1) by (simp add: conn_ready_def conn_inv_def send_inv_def heap_ok_def)
  moreover have "length (streams ?c) = 1" by (simp add: fin_conn_def life_conn1_fields)
  ultimately obtain st where "flush_streams 30 fin_ng (kernel_env 1) 0 5 ?c () = Some (Inr st)"
    using flush_streams_outcome [OF kernel_env_ok fin_ng_ok(1), of ?c 30 1 0 5 "()"] fin_conn_facts(2)
    by (auto simp: ng k n_packets_def)
  then show ?thesis by (simp add: io_event_def on_io_ready_def)
qed

theorem fin_lost_when_congested_witness:
  "\<exists>c'. io_event 30 fin_ng (kernel_env 1) 0 5 fin_conn () = Some (Inr (c', ())) \<and> n_packets c' = 0 \<and> sent_fin (heap c' ! 0) \<and>
     (\<forall>start. Some 0 \<notin> set (flush_order start (c'\<lparr>cn_ng := Suc (cn_ng c')\<rparr>)))"
proof -
  from fin_io obtain c' where c': "io_event 30 fin_ng (kernel_env 1) 0 5 fin_conn () = Some (Inr (c', ()))" ..
  have "live_ids (cn_ng c') \<subseteq> live_ids (Suc (cn_ng c'))" by (auto simp: live_ids_def)
  then have later: "(conn_step fin_ng life_app (kernel_env 1) live_ids)\<^sup>*\<^sup>* (c', ()) (c'\<lparr>cn_ng := Suc (cn_ng c')\<rparr>, ())"
    by (intro r_into_rtranclp ngtcp2_step)
  have "is_closing (heap fin_conn ! 0)" "unsent (heap fin_conn ! 0) = 0"
    by (simp_all add: fin_conn_def set_ready_def stream_new_def unsent_def stream_size_def unacked_def)
  from fin_lost_when_congested [OF kernel_env_ok fin_ng_ok(1,2) life_make_eq _ _ fin_reach fin_conn_facts(1-3) this fin_ng_ok(3) _ c' later]
    fin_conn_facts(4) c' show ?thesis by auto
qed

end
