(* ===== verification/Spec2Isabelle.thy ===== *)
theory Spec2Isabelle
  imports Quic_Prelude Quic_Utils Quic_Format Quic_Stream Quic_Stream_Spec Quic_Udp Quic_Send Quic_Connection
    Quic_Context Quic_Flush Quic_Conn_Life Quic_Retry Quic_Link Quic_Network Quic_Endpoint Quic_Ep_Life Quic_Shutdown
    Quic_Calls Quic_Tls Quic_Setup Quic_Sockaddr Quic_Events Quic_Loop Quic_Unblock Quic_Threads Quic_Raii Quic_Callbacks
    Quic_Windows Quic_Chunks Quic_Fin
begin

text \<open>
  A model of \<^bold>\<open>oxen-libquic\<close>, a C++ library that runs QUIC connections over UDP on top of ngtcp2, GnuTLS and
  libevent, and theorems on its behaviour.

  \<^bold>\<open>The program.\<close>  A \<^verbatim>\<open>Network\<close> owns an event loop and a map of \<^verbatim>\<open>Endpoint\<close>s by local address.  An endpoint owns a
  \<^verbatim>\<open>UDPSocket\<close> and a map of \<^verbatim>\<open>Connection\<close>s by connection id; it hands every received packet to the connection its
  destination id names or makes a new one.  A connection owns an ngtcp2 object, a map of \<^verbatim>\<open>Stream\<close>s by stream
  id and a queue of streams that wait for an id.  Application data goes from a stream's buffers through
  \<^verbatim>\<open>Connection::flush_streams\<close>, which lets ngtcp2 build datagrams, into a batch that \<^verbatim>\<open>Connection::send\<close> gives to
  \<^verbatim>\<open>Endpoint::send_packets\<close> and \<^verbatim>\<open>UDPSocket::send\<close>; when the socket blocks, the unsent rest of the batch waits for
  the write event.  Other threads post jobs to the event loop through \<^verbatim>\<open>Network::call\<close>.

  \<^bold>\<open>The theories\<close> (sources below \<^verbatim>\<open>src/src\<close> and \<^verbatim>\<open>src/include/quic\<close>):
  \<^item> \<open>Quic_Prelude\<close>: bytes and words, the faults a C++ operation can end in (\<open>fault\<close>: assertions, exceptions and
    undefined behaviour such as reading an erased iterator), results as sums, and the laws of ordered and
    unordered maps as the locale \<open>assoc_container\<close> with its two interpretations \<open>om\<close> and \<open>um\<close>.
  \<^item> \<open>Quic_Utils\<close> (\<^verbatim>\<open>utils.hpp\<close>, \<^verbatim>\<open>utils.cpp\<close>, \<^verbatim>\<open>opt.hpp\<close>): addresses, connection ids, their equality and hashes, io results.
  \<^item> \<open>Quic_Sockaddr\<close> (\<^verbatim>\<open>utils.hpp\<close>): the bytes behind an address and the pointers inside a path, refining \<open>Quic_Utils\<close>,
    and the internet addresses (\<open>inet\<close>) these bytes stand for.
  \<^item> \<open>Quic_Format\<close> (\<^verbatim>\<open>utils.cpp\<close>): texts of addresses and paths and the hex dump, with readers that invert them.
  \<^item> \<open>Quic_Stream\<close> (\<^verbatim>\<open>stream.hpp\<close>, \<^verbatim>\<open>stream.cpp\<close>): the buffer queue with its 64-bit count of unacknowledged bytes, chunk
    senders, closing.  The locale \<open>byte_pipe\<close> states what a connection relies on; \<open>sp\<close> interprets it on the stream.
  \<^item> \<open>Quic_Stream_Spec\<close>: the abstract pipe a stream refines, and completion of chunked sends.  \<open>Quic_Chunks\<close>
    (\<^verbatim>\<open>stream.hpp\<close>): chunked sends with containers by value or pointer, chunk callbacks that throw, and \<^verbatim>\<open>done\<close> callbacks that
    send or start the next one.
  \<^item> \<open>Quic_Udp\<close> (\<^verbatim>\<open>udp.hpp\<close>, \<^verbatim>\<open>udp.cpp\<close>): receiving and the three senders (GSO, sendmmsg, sendmsg) with the kernel's
    answers as scripts; the locale \<open>udp_sender\<close> is their common contract, interpreted for each of them.
  \<^item> \<open>Quic_Send\<close> (\<^verbatim>\<open>endpoint.cpp\<close>, \<^verbatim>\<open>internal.hpp\<close>): the batch and what one send leaves of it.
  \<^item> \<open>Quic_Windows\<close> (\<^verbatim>\<open>udp.cpp\<close>, \<^verbatim>\<open>utils.cpp\<close>): the branches compiled for Windows: the pointers to the extension functions,
    the socket, receiving and sending with them (an interpretation of \<open>udp_sender\<close>), the texts of errors.
  \<^item> \<open>Quic_Connection\<close> (\<^verbatim>\<open>connection.hpp\<close>, \<^verbatim>\<open>connection.cpp\<close>): the whole connection.  Stream objects live in a heap so that
    the map, the queue and the application share them.  \<open>Quic_Flush\<close> proves the send loop correct, \<open>Quic_Conn_Life\<close>
    gives the step relation \<open>conn_step\<close> and its invariants, \<open>Quic_Retry\<close> the progress of a blocked batch over write events,
    \<open>Quic_Fin\<close> what becomes of a FIN under congestion, \<open>Quic_Link\<close> two connections with a stream between them (\<open>link_step\<close>)
    and what the receiving application is given.
  \<^item> \<open>Quic_Context\<close> (\<^verbatim>\<open>context.hpp\<close>, \<^verbatim>\<open>context.cpp\<close>, \<^verbatim>\<open>opt.hpp\<close>): the options of listen and connect.
  \<^item> \<open>Quic_Network\<close> (\<^verbatim>\<open>network.hpp\<close>, \<^verbatim>\<open>network.cpp\<close>): the job queue under interleaving (\<open>job_step\<close>), the endpoint map, closing.
  \<^item> \<open>Quic_Endpoint\<close>, \<open>Quic_Ep_Life\<close> (\<^verbatim>\<open>endpoint.hpp\<close>, \<^verbatim>\<open>endpoint.cpp\<close>): packet dispatch, accepting, connecting, closing,
    draining; the step relation \<open>ep_step\<close>, its invariant, and which connection a packet can affect.
  \<^item> \<open>Quic_Events\<close>, \<open>Quic_Loop\<close> (\<^verbatim>\<open>udp.cpp\<close>, \<^verbatim>\<open>connection.cpp\<close>, \<^verbatim>\<open>endpoint.cpp\<close>): every event and call of an endpoint as a turn of
    one event loop (\<open>loop_turn\<close>, \<open>loop_step\<close>) with the callbacks that wait for the socket, and the invariant of the two.
    \<open>Quic_Unblock\<close> shows what a write event does once the socket is free.
  \<^item> \<open>Quic_Threads\<close> (\<^verbatim>\<open>network.cpp\<close>, \<^verbatim>\<open>endpoint.hpp\<close>, \<^verbatim>\<open>stream.cpp\<close>): the job queue with the closures that \<^verbatim>\<open>listen\<close>,
    \<^verbatim>\<open>connect\<close>, \<^verbatim>\<open>send\<close> and \<^verbatim>\<open>close\<close> post, under interleaving of threads (\<open>thread_step\<close>), refining a server that takes
    one call after the other (\<open>server_step\<close>).
  \<^item> \<open>Quic_Shutdown\<close> (\<^verbatim>\<open>endpoint.cpp\<close>, \<^verbatim>\<open>network.cpp\<close>): closing all connections of an endpoint, and of a network.
  \<^item> \<open>Quic_Calls\<close>, \<open>Quic_Tls\<close> (\<^verbatim>\<open>gnutls_crypto.hpp\<close>, \<^verbatim>\<open>gnutls_crypto.cpp\<close>), \<open>Quic_Setup\<close>: constructors and destructors as checked
    sequences of calls: credentials, TLS sessions, the UDP socket, endpoint and network, the end of a connection.
  \<^item> \<open>Quic_Raii\<close>: resources and their owners as the locale \<open>raii\<close>, interpreted on the socket, the credentials and the
    session.  \<open>Quic_Callbacks\<close> (\<^verbatim>\<open>connection.cpp\<close>): the table of callbacks a connection gives to ngtcp2.
  \<^item> this theory: properties that span components, from the read event to the connections and from the options of
    \<^verbatim>\<open>connect\<close> to the TLS session.

  \<^bold>\<open>Modelling.\<close>  Operations are the bodies that run on the event loop thread; a result is \<open>Inl\<close> of a fault or \<open>Inr\<close> of
  the new state, and \<open>None\<close> around it means that the kernel or the random generator gave no further answer.
  Sizes and counts that the code keeps in 64-bit or 32-bit integers are words where they can wrap.  ngtcp2, the
  application, the kernel, \<^verbatim>\<open>inet_pton\<close>, GnuTLS and the clock are parameters; what is assumed of them are named
  predicates (\<open>writev_ok\<close>, \<open>ids_ok\<close>, \<open>env_ok\<close>, \<open>sender_promise\<close>, \<open>ntop_pton\<close>, \<open>rnd_ok\<close>, \<open>willing\<close>,
  \<open>read_ok\<close>, \<open>loop_ok\<close>, \<open>waiter_ready\<close>, \<open>frees\<close>, \<open>congested\<close>, \<open>layout\<close>, \<open>ioctl_ok\<close>, \<open>prog_ok\<close>, \<open>chain_prog\<close>), each with an
  instance.  A connection that left the map of its endpoint lives on if the application keeps a pointer to it (\<open>le_held\<close>) and
  is destroyed otherwise.  What a callback of the application does to its own connection is done while the packet
  is handled, what it does to other connections (\<open>other_calls\<close>) right after it.  A stream that left the map of its connection
  stays in the heap, where the application may use it; its destructor is modelled on its own (\<open>stream_destroy\<close>,
  \<open>conn_destroy\<close>).  Reading the front of an emptied deque in \<^verbatim>\<open>acknowledge\<close> does not change the state; it is reported by a flag
  in the result.  The loop thread resets the waker and takes the queue in one step.

  \<^bold>\<open>Bounds.\<close>  \<^verbatim>\<open>flush_streams\<close> is a loop with fuel; \<open>length (streams c) + max_stream_packets ng c + 2\<close> rounds are enough
  (\<open>flush_streams_returns\<close>), since each round removes an entry of the list or writes a packet.  The loop of
  \<^verbatim>\<open>acknowledge\<close>, that of the hex dump and the nested calls of chunk senders (\<open>chunk_run\<close>) terminate by measures.  Receiving and sending run over finite scripts of
  answers.  A chunked send needs at most two rounds more than it has chunks, a blocked batch at most as many write
  events as it has packets.

  \<^bold>\<open>What is shown.\<close> Streams deliver the application's bytes in order, refine an abstract
  pipe, and chunked sends complete, also when they start each other; end to end, the data callback of the peer is given a prefix of what was
  sent. The batch arithmetic of all senders, \<^verbatim>\<open>send_packets\<close> and
  \<^verbatim>\<open>flush_streams\<close> loses, duplicates and reorders nothing, and a blocked batch has
  exactly one retry and gets out. The stream map, the pending queue and the connection map keep their invariants
  in every reachable state; packets affect only the connection they name, up to what callbacks do elsewhere. Over all events of an endpoint no
  blocked connection is forgotten, write events run to their end, and one of them empties every blocked batch once
  the socket is free. Jobs run in the order they were posted,
  and the threads together are a server that answers one call after the other. An \<^verbatim>\<open>Address\<close> behaves as the
  internet address its bytes stand for. Where the code faults or forgets something, the theorem says so: reading the
  front of an emptied deque, iterators used after erasure, a FIN lost under congestion, a timer that wraps
  around, null entries left by failed constructors, a dangling reference in the shutdown job, close packets that
  are dropped with their endpoint, retries that outlive their connection,
  resources a throwing constructor leaves open, a Windows build that calls the wrong function to send.

  \<^bold>\<open>Not modelled.\<close> Log output and fmt formatters, conversions of an object to a pointer of itself, the tests and speed test programs,
  and what ngtcp2, GnuTLS and libevent do inside.
\<close>

section \<open>From the socket to the connections\<close>

text \<open>
  A read event: \<^verbatim>\<open>UDPSocket::receive\<close> hands each packet, as it reads it, to the callback the endpoint gave it,
  which is \<^verbatim>\<open>handle_packet\<close>.
\<close>

definition on_packet ::
  "'ng pkt_api \<Rightarrow> 'ng ngtcp2 \<Rightarrow> app \<Rightarrow> 'ng other_calls \<Rightarrow> 'os udp_env \<Rightarrow> u64 \<Rightarrow> bytes \<Rightarrow> packet \<Rightarrow>
   'ng endpoint \<times> bytes list \<times> 'os \<Rightarrow> ('ng endpoint \<times> bytes list \<times> 'os) result option" where
  "on_packet pk ng ap other env now junk pkt st =
     (case st of (ep, rnd, os) \<Rightarrow> handle_packet_app pk ng ap other env now junk pkt rnd ep os)"

definition read_event ::
  "'ng pkt_api \<Rightarrow> 'ng ngtcp2 \<Rightarrow> app \<Rightarrow> 'ng other_calls \<Rightarrow> 'os udp_env \<Rightarrow> u64 \<Rightarrow> bytes \<Rightarrow> address \<Rightarrow> recv_answer list \<Rightarrow>
   bytes list \<Rightarrow> 'ng endpoint \<Rightarrow> 'os \<Rightarrow> ('ng endpoint \<times> bytes list \<times> 'os) result option" where
  "read_event pk ng ap other env now junk bound answers rnd ep os =
     obind (receive_with (on_packet pk ng ap other env now junk) bound 0 answers (ep, rnd, os))
       (\<lambda>(res, st, n, rest). Some (Inr st))"

lemma on_packet_apply:
  "on_packet pk ng ap other env now junk pkt (ep, rnd, os) = handle_packet_app pk ng ap other env now junk pkt rnd ep os"
  by (simp add: on_packet_def)

lemma handle_packet_rnd:
  assumes "handle_packet pk ng ap env now junk pkt rnd ep os = Some (Inr (ep', rnd', os'))"
  shows "set rnd' \<subseteq> set rnd"
proof -
  have acc: "set r \<subseteq> set rnd" if "accept_initial_connection pk rnd pkt e = Some (Inr (x, e', r))" for x e e' r
    using that by (auto simp: accept_initial_connection_def split: prod.splits if_splits option.splits
        elim!: and_then_InrE dest!: fresh_cid_new)
  from assms obtain d ep1 os1 where cd: "handle_packet_connid pk env junk pkt ep os = Some (Inr (d, ep1, os1))"
    by (auto simp: handle_packet_def elim!: obind_InrE)
  show ?thesis
  proof (cases "rnd' = rnd")
    case False
    with assms cd obtain x e' where "accept_initial_connection pk rnd pkt ep1 = Some (Inr (x, e', rnd'))"
      by (auto simp: handle_packet_def split: option.splits if_splits elim!: obind_InrE)
    then show ?thesis by (rule acc)
  qed simp
qed

lemma deliver_isolation:
  "deliver (on_packet pk ng ap other env now junk) ps (ep, rnd, os) = Some (Inr (ep', rnd', os')) \<Longrightarrow> ep_inv ep \<Longrightarrow>
   rnd_ok rnd \<Longrightarrow> map_of (conns ep) k = Some x \<Longrightarrow>
   list_all (\<lambda>p. vc_dcid (snd (pk_decode pk (pkt_data p))) \<noteq> k) ps \<Longrightarrow>
   (\<And>p e e1. list_all (\<lambda>y. fst y \<noteq> k) (other p e e1)) \<Longrightarrow>
   ep_inv ep' \<and> map_of (conns ep') k = Some x"
proof (induction ps arbitrary: rnd ep os)
  case (Cons p ps)
  from Cons.prems(1) obtain ep1 rnd1 os1 where
    h: "handle_packet_app pk ng ap other env now junk p rnd ep os = Some (Inr (ep1, rnd1, os1))"
    and r: "deliver (on_packet pk ng ap other env now junk) ps (ep1, rnd1, os1) = Some (Inr (ep', rnd', os'))"
    by (auto simp: on_packet_apply elim!: obind_InrE)
  from handle_packet_app_effect [OF Cons.prems(2,3) h] obtain ep0 where
    h0: "handle_packet pk ng ap env now junk p rnd ep os = Some (Inr (ep0, rnd1, os1))"
    and d0: "do_elsewhere ng (other p ep ep0) ep0 = Inr ep1" and inv0: "ep_inv ep0" .
  obtain rv vid where d: "pk_decode pk (pkt_data p) = (rv, vid)" by fastforce
  have rnd1: "rnd_ok rnd1" using handle_packet_rnd [OF h0] Cons.prems(3) by (auto simp: rnd_ok_def list_all_iff)
  have "map_of (conns ep0) k = Some x"
    by (rule packet_keeps_others [OF Cons.prems(2) h0 d Cons.prems(4)]) (use Cons.prems(5) d in auto)
  with do_elsewhere_effect [OF d0 inv0, of k] calls_on_none [OF Cons.prems(6)]
  have "ep_inv ep1" "map_of (conns ep1) k = Some x" by (cases x; simp)+
  from Cons.IH [OF r this(1) rnd1 this(2) _ Cons.prems(6)] Cons.prems(5) show ?case by simp
qed simp

text \<open>
  C22: A whole read event is isolated to the connections it concerns: whatever the kernel delivers in it,
  a connection that none of the delivered packets names, and on which no callback of the application makes a call
  meanwhile, is afterwards exactly what it was, and the endpoint's invariant holds again.
\<close>

theorem read_event_isolation:
  assumes "ep_inv ep" and "rnd_ok rnd" and "map_of (conns ep) k = Some x"
    and "receive_mmsg bound 0 answers = Some (Inr (res, ps, n, rest))"
    and "list_all (\<lambda>p. vc_dcid (snd (pk_decode pk (pkt_data p))) \<noteq> k) ps"
    and "\<And>p e e1. list_all (\<lambda>y. fst y \<noteq> k) (other p e e1)"
    and "read_event pk ng ap other env now junk bound answers rnd ep os = Some (Inr (ep', rnd', os'))"
  shows "ep_inv ep' \<and> map_of (conns ep') k = Some x"
proof -
  from assms(7) have "deliver (on_packet pk ng ap other env now junk) ps (ep, rnd, os) = Some (Inr (ep', rnd', os'))"
    by (auto simp: read_event_def receive_with_delivers [OF assms(4)] elim!: obind_InrE)
  from deliver_isolation [OF this assms(1-3,5,6)] show ?thesis .
qed

theorem read_event_isolation_witness:
  "ep_inv after_packet \<and> map_of (conns after_packet) (replicate 20 1) = Some (Some (conn_with 1))"
proof (rule read_event_isolation [where k = "replicate 20 1" and pk = sample_pk and bound = address_default and rnd = "[]"
      and answers = "[Recv_msgs [(replicate 20 0, sample_hdr)]]" and other = "\<lambda>_ _ _. [(replicate 20 5, Act_open_stream None None)]"])
  have p: "process_packet address_default (replicate 20 0) sample_hdr = Inr [sample_pkt 0]"
    by (simp add: process_packet_def packet_make_def sample_hdr_def address_default_def is_ipv4_def is_ipv6_def
        utils_consts Let_def sample_pkt_def)
  then show r: "receive_mmsg address_default 0 [Recv_msgs [(replicate 20 0, sample_hdr)]] =
      Some (Inr (Io_errno 0, [sample_pkt 0], 1, []))"
    by (simp add: utils_consts)
  have "map_of (conns after_packet) (replicate 20 5) = None"
    by (simp add: after_packet_def put_conn_def two_conns_def um.find_put umap_wf_def io_ready_def cid_key_def
        cid_random_def NGTCP2_MAX_CIDLEN_def)
  then have "on_packet sample_pk sample_ng life_app (\<lambda>_ _ _. [(replicate 20 5, Act_open_stream None None)]) (kernel_env 1) 5
      (replicate 20 0) (sample_pkt 0) (two_conns, [], ()) = Some (Inr (after_packet, [], ()))"
    by (simp add: on_packet_apply handle_packet_app_def sample_packet [unfolded One_nat_def])
  then show "read_event sample_pk sample_ng life_app (\<lambda>_ _ _. [(replicate 20 5, Act_open_stream None None)]) (kernel_env 1) 5
      (replicate 20 0) address_default [Recv_msgs [(replicate 20 0, sample_hdr)]] [] two_conns () = Some (Inr (after_packet, [], ()))"
    unfolding read_event_def receive_with_delivers [OF r] by simp
qed (simp_all add: two_conns_inv two_conns_find rnd_ok_def sample_pk_def sample_pkt_def)

section \<open>From the options to the TLS session\<close>

text \<open>
  \<^verbatim>\<open>setup_tls_session\<close>: the credentials of the context make the session, without a check that there are any;
  \<open>handle\<close> stands for \<^verbatim>\<open>ngtcp2_conn_set_tls_native_handle\<close>.
\<close>

definition setup_tls_session ::
  "(tls_call \<Rightarrow> int) \<Rightarrow> ('ng \<Rightarrow> 'ng) \<Rightarrow> nat option \<Rightarrow> bool \<Rightarrow> 'ng \<Rightarrow> 'ng result" where
  "setup_tls_session rv handle creds is_client g =
     (case creds of
        None \<Rightarrow> Inl Null_dereference
      | Some _ \<Rightarrow> and_then (snd (gnutls_session_new rv is_client)) (\<lambda>_. Inr (handle g)))"

text \<open>\<^verbatim>\<open>connect\<close> with its options: the context, the connection and the session it makes.\<close>

definition connect_with ::
  "(tls_call \<Rightarrow> int) \<Rightarrow> ('ng \<Rightarrow> 'ng) \<Rightarrow> 'ng pkt_api \<Rightarrow> path \<Rightarrow> opt list \<Rightarrow> connection_id \<Rightarrow> bytes list \<Rightarrow> 'ng endpoint \<Rightarrow>
   ('ng connection result \<times> 'ng endpoint \<times> bytes list) option" where
  "connect_with rv handle pk p opts dcid rnd ep =
     (let ctx = outbound_context opts
      in connect (pk\<lparr>pk_tls := setup_tls_session rv handle (tls_creds ctx)\<rparr>) p (Inr (conn_ctx_of ctx)) dcid rnd ep)"

lemma make_conn_tls_error:
  assumes "\<And>g. tls True g = Inl f" and "conn_new OUTBOUND dcid scid p (fst (conn_init now ctx)) (snd (conn_init now ctx)) \<noteq> None"
  shows "make_conn conn_new tls now junk sizes scid dcid p ctx OUTBOUND None = Inl f"
  using assms by (auto simp: make_conn_def conn_construct_def split: prod.splits option.splits)

text \<open>No credentials among the options leave the null pointer in the context.\<close>

lemma no_tls_option: "list_all (\<lambda>p. opt_kind p \<noteq> 0) opts \<Longrightarrow> tls_creds (fold handle_outbound_opt opts c) = tls_creds c"
proof (induction opts arbitrary: c)
  case (Cons p opts)
  then show ?case by (cases p) simp_all
qed simp

text \<open>
  Connecting without TLS credentials among the options dereferences a null pointer once ngtcp2 has made its
  connection object: the options are accepted and nothing on the way checks that credentials are there.
\<close>

theorem connect_without_credentials:
  assumes "list_all (\<lambda>p. opt_kind p \<noteq> 0) opts" and "\<And>d dc sc q st ps. pk_conn_new pk d dc sc q st ps \<noteq> None"
    and "fresh_cid rnd ep \<noteq> None"
  shows "\<exists>ep' rnd'. connect_with rv handle pk p opts dcid rnd ep = Some (Inl Null_dereference, ep', rnd')"
proof -
  let ?ctx = "conn_ctx_of (outbound_context opts)"
  let ?pk = "pk\<lparr>pk_tls := setup_tls_session rv handle (tls_creds (outbound_context opts))\<rparr>"
  have none: "tls_creds (outbound_context opts) = None"
    by (simp add: outbound_context_def no_tls_option [OF assms(1)] context_base_default_def)
  have fresh: "fresh_cid rnd (ep\<lparr>outbound_ctx := Some ?ctx\<rparr>) = fresh_cid rnd ep"
    by (induction rnd) simp_all
  from assms(3) obtain cid rnd' where f: "fresh_cid rnd ep = Some (cid, rnd')" by auto
  have "pk_make_conn ?pk cid dcid p ?ctx OUTBOUND None = Inl Null_dereference"
    unfolding pk_make_conn_def by (rule make_conn_tls_error) (simp_all add: none setup_tls_session_def assms(2))
  with f fresh show ?thesis by (simp add: connect_with_def connect_def Let_def)
qed

theorem connect_without_credentials_witness:
  "\<exists>ep' rnd'. connect_with (\<lambda>c. 0) id sample_pk any_path [Opt_max_streams 4] (sample_cid 0) [replicate 20 9] ep_init =
     Some (Inl Null_dereference, ep', rnd')"
  by (rule connect_without_credentials) (simp_all add: sample_pk_def ep_init_def)

end
